(* ===== verification/Redis_Prelude.thy ===== *)
theory Redis_Prelude
  imports Main "HOL-Library.Word" "HOL-Library.Monad_Syntax"
begin

text \<open>
  Shared vocabulary of the development: the machine integers the C code uses, byte buffers with
  checked access, and the generic facts on lists, options and words that the component theories
  rest on.

  Memory safety is part of every model. A read or a write outside the object it addresses is
  undefined behaviour in C; here it is the value \<^term>\<open>None\<close>. A theorem whose conclusion is
  \<open>f x = Some y\<close> therefore says that the code touches only memory it owns, besides what it
  computes.
\<close>

section \<open>Machine integers and bytes\<close>

unbundle bit_operations_syntax

type_synonym byte = "8 word"
type_synonym u16 = "16 word"
type_synonym u32 = "32 word"
type_synonym u64 = "64 word"

text \<open>
  A signed C integer is held as the word of its width and read with \<^term>\<open>sint\<close>; the type
  synonym says which reading the code uses.
\<close>

type_synonym s32 = "32 word"
type_synonym s64 = "64 word"

abbreviation LLONG_MIN :: s64 where "LLONG_MIN \<equiv> 0x8000000000000000"
abbreviation LLONG_MAX :: s64 where "LLONG_MAX \<equiv> 0x7FFFFFFFFFFFFFFF"
abbreviation ULLONG_MAX :: u64 where "ULLONG_MAX \<equiv> 0xFFFFFFFFFFFFFFFF"

text \<open>Characters of the source, as bytes.\<close>

abbreviation chr_nul :: byte where "chr_nul \<equiv> 0"
abbreviation chr_minus :: byte where "chr_minus \<equiv> 45"
abbreviation chr_0 :: byte where "chr_0 \<equiv> 48"
abbreviation chr_1 :: byte where "chr_1 \<equiv> 49"
abbreviation chr_9 :: byte where "chr_9 \<equiv> 57"
abbreviation chr_star :: byte where "chr_star \<equiv> 42"
abbreviation chr_qmark :: byte where "chr_qmark \<equiv> 63"
abbreviation chr_lbrack :: byte where "chr_lbrack \<equiv> 91"
abbreviation chr_rbrack :: byte where "chr_rbrack \<equiv> 93"
abbreviation chr_caret :: byte where "chr_caret \<equiv> 94"
abbreviation chr_backslash :: byte where "chr_backslash \<equiv> 92"

section \<open>Byte buffers with checked access\<close>

definition rd :: "'a list \<Rightarrow> nat \<Rightarrow> 'a option" where
  "rd b i = (if i < length b then Some (b ! i) else None)"

definition wr :: "'a list \<Rightarrow> nat \<Rightarrow> 'a \<Rightarrow> 'a list option" where
  "wr b i x = (if i < length b then Some (b[i := x]) else None)"

lemma rd_Some [simp]: "i < length b \<Longrightarrow> rd b i = Some (b ! i)"
  by (simp add: rd_def)

lemma rd_None [simp]: "length b \<le> i \<Longrightarrow> rd b i = None"
  by (simp add: rd_def)

lemma rd_eq_Some: "rd b i = Some x \<longleftrightarrow> i < length b \<and> b ! i = x"
  by (auto simp: rd_def)

lemma wr_Some [simp]: "i < length b \<Longrightarrow> wr b i x = Some (b[i := x])"
  by (simp add: wr_def)

lemma wr_eq_Some: "wr b i x = Some b' \<longleftrightarrow> i < length b \<and> b' = b[i := x]"
  by (auto simp: wr_def)

lemma rd_append_left: "i < length xs \<Longrightarrow> rd (xs @ ys) i = Some (xs ! i)"
  by (simp add: nth_append)

lemma rd_append_right [simp]: "rd (xs @ ys) (length xs + i) = rd ys i"
  by (simp add: rd_def nth_append)

lemma rd_append_mid [simp]: "rd (xs @ y # ys) (length xs) = Some y"
  by simp

lemma unat_less_2p: "unat (w :: 'a::len word) < 2 ^ LENGTH('a)"
  by (rule unsigned_less)

lemma unat_ucast_byte_u64 [simp]: "unat (ucast (b :: byte) :: u64) = unat b"
  using unat_less_2p [of b] by (simp add: unsigned_ucast_eq take_bit_nat_eq_self)

lemma uint_of_int_u64: "uint (word_of_int x :: u64) = x mod 2 ^ 64"
  by (simp add: uint_word_of_int)

lemma uint_sint_u64: "uint (v :: u64) = sint v mod 2 ^ 64"
  using uint_of_int_u64 [of "sint v"] by simp

lemma uint_minus_sint_u64: "uint (- v :: u64) = (- sint v) mod 2 ^ 64"
  using uint_of_int_u64 [of "- sint v"] by simp

lemma sint_of_int_s64: "sint (word_of_int x :: s64) = signed_take_bit 63 x"
  by (simp add: sint_sbintrunc')

lemma sint_of_int_s64_range: "- (2 ^ 63) \<le> x \<Longrightarrow> x < 2 ^ 63 \<Longrightarrow> sint (word_of_int x :: s64) = x"
  by (simp add: sint_of_int_s64 signed_take_bit_int_eq_self)

lemma sint_eq_0 [simp]: "sint (v :: 'a::len word) = 0 \<longleftrightarrow> v = 0"
proof
  assume "sint v = 0"
  then have "(word_of_int (sint v) :: 'a word) = word_of_int 0" by (rule arg_cong)
  then show "v = 0" by simp
qed simp

lemma sint_inj: "sint (v :: 'a::len word) = sint w \<longleftrightarrow> v = w"
proof
  assume "sint v = sint w"
  then have "(word_of_int (sint v) :: 'a word) = word_of_int (sint w)" by (rule arg_cong)
  then show "v = w" by simp
qed simp

lemma unat_neg_sint: "sint (v :: s64) < 0 \<Longrightarrow> unat (- v) = nat (- sint v)"
proof -
  assume neg: "sint v < 0"
  have "uint (- v) = (- sint v) mod 2 ^ 64" by (rule uint_minus_sint_u64)
  moreover have "0 < - sint v" "- sint v < 2 ^ 64"
    using neg sint_greater_eq [of v] by auto
  ultimately have "uint (- v) = - sint v" by simp
  then show ?thesis by (simp add: unat_eq_nat_uint)
qed

lemma unat_pos_sint: "0 \<le> sint (v :: s64) \<Longrightarrow> unat v = nat (sint v)"
proof -
  assume pos: "0 \<le> sint v"
  have "uint v = sint v mod 2 ^ 64" by (rule uint_sint_u64)
  moreover have "sint v < 2 ^ 64" using sint_less [of v] by simp
  ultimately show ?thesis using pos by (simp add: unat_eq_nat_uint)
qed

section \<open>Lists and options\<close>

lemma Some_eq_map_option: "Some y = map_option f x \<longleftrightarrow> (\<exists>z. x = Some z \<and> y = f z)"
  by (cases x) auto

lemma length_takeWhile_all: "length (takeWhile P xs) = length xs \<longleftrightarrow> (\<forall>x \<in> set xs. P x)"
  by (induction xs) auto

lemma drop_eq_Cons: "drop i p = c # q \<Longrightarrow> i < length p \<and> p ! i = c \<and> drop (Suc i) p = q"
  by (metis Cons_nth_drop_Suc list.inject drop_all leI list.discI)

lemma nth_concat_pairs:
  "k < n \<Longrightarrow> concat (map (\<lambda>k. [f k, g k]) [0..<n]) ! (k * 2) = f k \<and>
     concat (map (\<lambda>k. [f k, g k]) [0..<n]) ! (k * 2 + 1) = g k"
proof (induction n)
  case (Suc n)
  have len: "length (concat (map (\<lambda>k. [f k, g k]) [0..<n])) = n * 2"
    by (simp add: length_concat comp_def sum_list_triv)
  show ?case
    using Suc len by (cases "k = n") (auto simp: nth_append)
qed simp

definition patch :: "'a list \<Rightarrow> nat \<Rightarrow> 'a list \<Rightarrow> 'a list" where
  "patch b i xs = take i b @ xs @ drop (i + length xs) b"

lemma length_patch [simp]: "i + length xs \<le> length b \<Longrightarrow> length (patch b i xs) = length b"
  by (simp add: patch_def)

lemma patch_Nil [simp]: "patch b i [] = b"
  by (simp add: patch_def)

lemma list_update_patch: "i < length b \<Longrightarrow> b[i := x] = patch b i [x]"
  by (simp add: patch_def upd_conv_take_nth_drop)

lemma patch_patch_adjacent:
  "i + length xs + length ys \<le> length b \<Longrightarrow> patch (patch b (i + length xs) ys) i xs = patch b i (xs @ ys)"
  by (simp add: patch_def min_def add.assoc)


end
