(* ===== verification/Util.thy ===== *)
theory Util
  imports Redis_Prelude
begin

text \<open>
  util.c: the conversions between 64 bit integers and their decimal strings (\<open>digits10\<close>,
  \<open>sdigits10\<close>, \<open>ll2string\<close>, \<open>string2ll\<close>, \<open>string2l\<close>) and the glob matcher
  \<open>stringmatchlen\<close> behind KEYS, SCAN and PSUBSCRIBE.
\<close>

section \<open>Model: integer to string and back\<close>

function digits10 :: "u64 \<Rightarrow> u32" where
  "digits10 v =
     (if v < 10 then 1
      else if v < 100 then 2
      else if v < 1000 then 3
      else if v < 1000000000000 then
        (if v < 100000000 then
           (if v < 1000000 then
              (if v < 10000 then 4 else 5 + (if v \<ge> 100000 then 1 else 0))
            else 7 + (if v \<ge> 10000000 then 1 else 0))
         else if v < 10000000000 then 9 + (if v \<ge> 1000000000 then 1 else 0)
         else 11 + (if v \<ge> 100000000000 then 1 else 0))
      else 12 + digits10 (v div 1000000000000))"
  by pat_completeness auto
termination
  by (relation "measure unat") (auto simp: unat_div word_less_nat_alt)

declare digits10.simps [simp del]

definition sdigits10 :: "s64 \<Rightarrow> u32" where
  "sdigits10 v =
     (if v <s 0 then
        (let uv = (if v \<noteq> LLONG_MIN then - v else LLONG_MAX + 1)
         in digits10 uv + 1)
      else digits10 v)"

definition digits :: "byte list" where
  "digits = map of_char (
     ''0001020304050607080910111213141516171819'' @
     ''2021222324252627282930313233343536373839'' @
     ''4041424344454647484950515253545556575859'' @
     ''6061626364656667686970717273747576777879'' @
     ''8081828384858687888990919293949596979899'') @ [chr_nul]"

function ll2string_loop :: "byte list \<Rightarrow> nat \<Rightarrow> u64 \<Rightarrow> (byte list \<times> nat \<times> u64) option" where
  "ll2string_loop dst nxt value =
     (if value \<ge> 100 then do {
        let i = unat (value mod 100) * 2;
        d1 \<leftarrow> rd digits (i + 1);
        dst \<leftarrow> wr dst nxt d1;
        d0 \<leftarrow> rd digits i;
        dst \<leftarrow> (if nxt \<ge> 1 then wr dst (nxt - 1) d0 else None);
        if nxt \<ge> 2 then ll2string_loop dst (nxt - 2) (value div 100) else None
      } else Some (dst, nxt, value))"
  by pat_completeness auto
termination
  by (relation "measure (\<lambda>(d, n, v). unat v)") (auto simp: unat_div word_le_nat_alt)

declare ll2string_loop.simps [simp del]

definition ll2string_last :: "byte list \<Rightarrow> nat \<Rightarrow> u64 \<Rightarrow> byte list option" where
  "ll2string_last dst nxt value =
     (if value < 10 then wr dst nxt (chr_0 + ucast value)
      else do {
        let i = unat value * 2;
        d1 \<leftarrow> rd digits (i + 1);
        dst \<leftarrow> wr dst nxt d1;
        d0 \<leftarrow> rd digits i;
        (if nxt \<ge> 1 then wr dst (nxt - 1) d0 else None)
      })"

definition ll2string :: "byte list \<Rightarrow> nat \<Rightarrow> s64 \<Rightarrow> (byte list \<times> nat) option" where
  "ll2string dst dstlen svalue = (
     let negative = svalue <s 0;
         value = (if negative
                  then (if svalue \<noteq> LLONG_MIN then - svalue else LLONG_MAX + 1)
                  else svalue);
         len = unat (digits10 value + (if negative then 1 else 0))
     in if len \<ge> dstlen then Some (dst, 0)
        else do {
          dst \<leftarrow> wr dst len chr_nul;
          (dst, nxt, value) \<leftarrow> ll2string_loop dst (len - 1) value;
          dst \<leftarrow> ll2string_last dst nxt value;
          dst \<leftarrow> (if negative then wr dst 0 chr_minus else Some dst);
          Some (dst, len)
        })"

function string2ll_loop :: "byte list \<Rightarrow> nat \<Rightarrow> u64 \<Rightarrow> (u64 \<times> nat) option" where
  "string2ll_loop s plen v =
     (if plen < length s \<and> s ! plen \<ge> chr_0 \<and> s ! plen \<le> chr_9 then
        if v > ULLONG_MAX div 10 then None
        else let v = v * 10; d = ucast (s ! plen - chr_0) in
          if v > ULLONG_MAX - d then None
          else string2ll_loop s (plen + 1) (v + d)
      else Some (v, plen))"
  by pat_completeness auto
termination
  by (relation "measure (\<lambda>(s, p, v). length s - p)") auto

declare string2ll_loop.simps [simp del]

definition string2ll :: "byte list \<Rightarrow> s64 option" where
  "string2ll s =
     (if length s = 0 then None
      else if length s = 1 \<and> s ! 0 = chr_0 then Some 0
      else
        let negative = (s ! 0 = chr_minus);
            plen = (if negative then 1 else 0)
        in if negative \<and> plen = length s then None
           else if s ! plen \<ge> chr_1 \<and> s ! plen \<le> chr_9 then
             (case string2ll_loop s (plen + 1) (ucast (s ! plen - chr_0)) of
                None \<Rightarrow> None
              | Some (v, plen) \<Rightarrow>
                  if plen < length s then None
                  else if negative then
                    (if v > - (LLONG_MIN + 1) + 1 then None else Some (- v))
                  else (if v > LLONG_MAX then None else Some v))
           else if s ! plen = chr_0 \<and> length s = 1 then Some 0
           else None)"

text \<open>
  A \<open>long\<close> is 64 bits wide on the platforms the server is built for, so the range test of
  \<open>string2l\<close> compares a value with the bounds of its own type.
\<close>

definition string2l :: "byte list \<Rightarrow> s64 option" where
  "string2l s = (case string2ll s of
       None \<Rightarrow> None
     | Some llval \<Rightarrow> if llval <s LLONG_MIN \<or> LLONG_MAX <s llval then None else Some llval)"

section \<open>Model: stringmatchlen\<close>

text \<open>
  The pattern and the string are C strings: byte \<open>length b\<close> is the terminating NUL, and a read past
  it is outside the object. The loop of \<open>stringmatchlen\<close> advances two pointers; the model keeps them
  as offsets \<open>i\<close> and \<open>j\<close>. The lengths the code counts down are \<open>length p - i\<close> and \<open>length s - j\<close>, except
  that \<open>stringLen\<close> becomes -1 when the code steps over the NUL of the string (\<open>j = length s + 1\<close>).
\<close>

definition rdz :: "byte list \<Rightarrow> nat \<Rightarrow> byte option" where
  "rdz b i = rd (b @ [chr_nul]) i"

definition tolower :: "int \<Rightarrow> int" where
  "tolower c = (if 65 \<le> c \<and> c \<le> 90 then c + 32 else c)"

definition chr_eq :: "bool \<Rightarrow> byte \<Rightarrow> byte \<Rightarrow> bool" where
  "chr_eq nocase a b = (if \<not> nocase then a = b else tolower (sint a) = tolower (sint b))"

definition in_range :: "bool \<Rightarrow> byte \<Rightarrow> byte \<Rightarrow> byte \<Rightarrow> bool" where
  "in_range nocase a b c0 = (
     let start = sint a; fin = sint b; c = sint c0;
         (start, fin) = (if start > fin then (fin, start) else (start, fin));
         (start, fin, c) = (if nocase then (tolower start, tolower fin, tolower c) else (start, fin, c))
     in c \<ge> start \<and> c \<le> fin)"

function match_class :: "bool \<Rightarrow> byte list \<Rightarrow> byte list \<Rightarrow> nat \<Rightarrow> nat \<Rightarrow> bool \<Rightarrow> (nat \<times> bool) option" where
  "match_class nocase p s i j mt = do {
     c0 \<leftarrow> rdz p i;
     if c0 = chr_backslash then do {
       c1 \<leftarrow> rdz p (i + 1);
       c \<leftarrow> rdz s j;
       match_class nocase p s (i + 2) j (if c1 = c then True else mt)
     }
     else if c0 = chr_rbrack then Some (i, mt)
     else if i = length p then Some (i - 1, mt)
     else do {
       c1 \<leftarrow> rdz p (i + 1);
       if c1 = chr_minus \<and> length p - i \<ge> 3 then do {
         c2 \<leftarrow> rdz p (i + 2);
         c \<leftarrow> rdz s j;
         match_class nocase p s (i + 3) j (if in_range nocase c0 c2 c then True else mt)
       } else do {
         c \<leftarrow> rdz s j;
         match_class nocase p s (i + 1) j (if chr_eq nocase c0 c then True else mt)
       }
     }
   }"
  by pat_completeness auto
termination
  by (relation "measure (\<lambda>(nc, p, s, i, j, mt). length p + 1 - i)")
    (auto simp: rdz_def rd_def split: if_splits)

declare match_class.simps [simp del]

function skip_stars :: "byte list \<Rightarrow> nat \<Rightarrow> nat option" where
  "skip_stars p i = do {
     c \<leftarrow> rdz p i;
     if c = chr_star then skip_stars p (i + 1) else Some i
   }"
  by pat_completeness auto
termination
  by (relation "measure (\<lambda>(p, i). length p + 1 - i)") (auto simp: rdz_def rd_def split: if_splits)

declare skip_stars.simps [simp del]

definition adv :: "byte list \<Rightarrow> nat \<Rightarrow> nat option" where
  "adv s j = (if j + 1 \<le> length s + 1 then Some (j + 1) else None)"

datatype flow = Return bool | Next nat nat

definition smatch_step :: "bool \<Rightarrow> byte list \<Rightarrow> byte list \<Rightarrow> nat \<Rightarrow> nat \<Rightarrow> flow option" where
  "smatch_step nocase p s i j = do {
     c0 \<leftarrow> rdz p i;
     if c0 = chr_qmark then
       (if j = length s then Some (Return False)
        else do { j \<leftarrow> adv s j; Some (Next (i + 1) j) })
     else if c0 = chr_lbrack then do {
       c1 \<leftarrow> rdz p (i + 1);
       let nt = (c1 = chr_caret);
       (k, mt) \<leftarrow> match_class nocase p s (if nt then i + 2 else i + 1) j False;
       if \<not> (if nt then \<not> mt else mt) then Some (Return False)
       else do { j \<leftarrow> adv s j; Some (Next (k + 1) j) }
     }
     else do {
       let k = (if c0 = chr_backslash \<and> length p - i \<ge> 2 then i + 1 else i);
       a \<leftarrow> rdz p k;
       b \<leftarrow> rdz s j;
       if \<not> chr_eq nocase a b then Some (Return False)
       else do { j \<leftarrow> adv s j; Some (Next (k + 1) j) }
     }
   }"

lemma rdz_None: "length p < i \<Longrightarrow> rdz p i = None"
  by (simp add: rdz_def)

lemma rdz_SomeD: "rdz p i = Some c \<Longrightarrow> i \<le> length p"
  by (auto simp: rdz_def rd_def split: if_splits)

lemma rdz_nth: "i < length p \<Longrightarrow> rdz p i = Some (p ! i)"
  by (simp add: rdz_def nth_append)

lemma rdz_end [simp]: "rdz p (length p) = Some chr_nul"
  by (simp add: rdz_def)

lemma skip_stars_ge: "skip_stars p i = Some k \<Longrightarrow> i \<le> k \<and> k \<le> length p"
proof (induction p i rule: skip_stars.induct)
  case (1 p i)
  from "1.prems" obtain c where c: "rdz p i = Some c"
    by (auto simp: skip_stars.simps [of p i] Option.bind_eq_Some_conv)
  then have "c \<in> set_option (rdz p i)" by simp
  with 1 c show ?case
    by (auto simp: skip_stars.simps [of p i] dest: rdz_SomeD split: if_splits)
qed

lemma match_class_ge: "match_class nc p s i j mt = Some (k, m) \<Longrightarrow> i \<le> k + 1 \<and> k \<le> length p"
proof (induction "length p + 1 - i" arbitrary: i mt rule: less_induct)
  case less
  from less.prems obtain c where c: "rdz p i = Some c"
    by (auto simp: match_class.simps [of nc p s i] Option.bind_eq_Some_conv)
  have le: "i \<le> length p" using c by (rule rdz_SomeD)
  have ih: "match_class nc p s (i + d) j mt' = Some (k, m) \<Longrightarrow> 0 < d \<Longrightarrow> i \<le> k + 1 \<and> k \<le> length p" for d mt'
  proof -
    assume r: "match_class nc p s (i + d) j mt' = Some (k, m)" and "0 < d"
    then have "length p + 1 - (i + d) < length p + 1 - i" using le by linarith
    from less.hyps [OF this r] show ?thesis by linarith
  qed
  show ?case
    using less.prems c le
    by (auto simp: match_class.simps [of nc p s i] Option.bind_eq_Some_conv split: if_splits
        dest: ih [of 1, simplified] ih [of 2, simplified] ih [of 3, simplified])
qed

lemma smatch_step_Next: "smatch_step nc p s i j = Some (Next k l) \<Longrightarrow> i < k \<and> i \<le> length p"
  by (auto simp: smatch_step_def Let_def Option.bind_eq_Some_conv split: if_splits
      dest: rdz_SomeD dest!: match_class_ge)

function (sequential) smatch :: "bool \<Rightarrow> byte list \<Rightarrow> byte list \<Rightarrow> nat \<Rightarrow> nat \<Rightarrow> bool option"
  and smatch_star :: "bool \<Rightarrow> byte list \<Rightarrow> byte list \<Rightarrow> nat \<Rightarrow> nat \<Rightarrow> bool option" where
  "smatch nocase p s i j =
     (if i = length p then Some (j = length s)
      else do {
        c0 \<leftarrow> rdz p i;
        if c0 = chr_star then do {
          i1 \<leftarrow> skip_stars p (i + 1);
          if i1 = length p then Some True
          else smatch_star nocase p s i1 j
        }
        else do {
          fl \<leftarrow> smatch_step nocase p s i j;
          case fl of
            Return r \<Rightarrow> Some r
          | Next i j \<Rightarrow>
              if j = length s then do {
                i \<leftarrow> skip_stars p i;
                Some (i = length p \<and> j = length s)
              } else smatch nocase p s i j
        }
      })"
| "smatch_star nocase p s i j =
     (if j = length s then Some False
      else do {
        r \<leftarrow> smatch nocase p s i j;
        if r then Some True
        else do {
          j \<leftarrow> adv s j;
          smatch_star nocase p s i j
        }
      })"
  by pat_completeness auto
termination
proof (relation "inv_image (less_than <*lex*> less_than <*lex*> less_than)
    (\<lambda>x. case x of Inl (nc, p, s, i, j) \<Rightarrow> (length p + 1 - i, length s + 2 - j, 0)
       | Inr (nc, p, s, i, j) \<Rightarrow> (length p + 1 - i, length s + 2 - j, 1 :: nat))", goal_cases)
qed (auto simp: adv_def dest: rdz_SomeD skip_stars_ge smatch_step_Next split: if_splits)

declare smatch.simps [simp del] smatch_star.simps [simp del]

definition stringmatchlen :: "byte list \<Rightarrow> byte list \<Rightarrow> bool \<Rightarrow> bool option" where
  "stringmatchlen pattern str nocase = smatch nocase pattern str 0 0"

section \<open>The decimal representation\<close>

fun dec :: "nat \<Rightarrow> byte list" where
  "dec n = (if n < 10 then [chr_0 + of_nat n] else dec (n div 10) @ [chr_0 + of_nat (n mod 10)])"

declare dec.simps [simp del]

definition dec_int :: "int \<Rightarrow> byte list" where
  "dec_int i = (if i < 0 then chr_minus # dec (nat (- i)) else dec (nat i))"

section \<open>Glob patterns: tokens and their meaning\<close>

datatype citem = CChar byte | CEsc byte | CRange byte byte
datatype gtok = GStar | GAny | GClass bool "citem list" | GLit byte

fun parse_class :: "byte list \<Rightarrow> (citem list \<times> byte list) option" where
  "parse_class [] = Some ([], [])"
| "parse_class (c # p) =
     (if c = chr_backslash then
        (case p of [] \<Rightarrow> None
         | x # q \<Rightarrow> map_option (\<lambda>(its, r). (CEsc x # its, r)) (parse_class q))
      else if c = chr_rbrack then Some ([], p)
      else (case p of
              d # e # q \<Rightarrow>
                if d = chr_minus then map_option (\<lambda>(its, r). (CRange c e # its, r)) (parse_class q)
                else map_option (\<lambda>(its, r). (CChar c # its, r)) (parse_class p)
            | _ \<Rightarrow> map_option (\<lambda>(its, r). (CChar c # its, r)) (parse_class p)))"

declare parse_class.simps(2) [simp del]

lemma parse_class_char:
  "c \<noteq> chr_backslash \<Longrightarrow> c \<noteq> chr_rbrack \<Longrightarrow> \<nexists>e q'. q = chr_minus # e # q' \<Longrightarrow>
   parse_class (c # q) = map_option (\<lambda>(its, r). (CChar c # its, r)) (parse_class q)"
  by (subst parse_class.simps(2)) (auto split: list.split)

lemma parse_class_other [simp]:
  "parse_class (chr_backslash # q) = (case q of [] \<Rightarrow> None
     | x # q \<Rightarrow> map_option (\<lambda>(its, r). (CEsc x # its, r)) (parse_class q))"
  "parse_class (chr_rbrack # q) = Some ([], q)"
  "c \<noteq> chr_backslash \<Longrightarrow> c \<noteq> chr_rbrack \<Longrightarrow> parse_class (c # chr_minus # e # q) =
     map_option (\<lambda>(its, r). (CRange c e # its, r)) (parse_class q)"
  by (simp_all add: parse_class.simps(2))

lemma parse_class_shrinks: "parse_class p = Some (its, r) \<Longrightarrow> length r \<le> length p"
proof (induction "length p" arbitrary: p its rule: less_induct)
  case less
  have ih: "length r \<le> length p" if "parse_class q = Some (its', r)" "length q < length p" for q its'
    using less.hyps [OF that(2,1)] that(2) by simp
  show ?case
  proof (cases p)
    case Nil then show ?thesis using less.prems by simp
  next
    case (Cons c q)
    consider (esc) "c = chr_backslash" | (rb) "c = chr_rbrack"
      | (range) e q' where "c \<noteq> chr_backslash" "c \<noteq> chr_rbrack" "q = chr_minus # e # q'"
      | (chr) "c \<noteq> chr_backslash" "c \<noteq> chr_rbrack" "\<nexists>e q'. q = chr_minus # e # q'"
      by blast
    then show ?thesis
    proof cases
      case esc then show ?thesis using less.prems Cons ih by (fastforce split: list.splits)
    next
      case rb then show ?thesis using less.prems Cons by simp
    next
      case range then show ?thesis using less.prems Cons ih [of q'] by auto
    next
      case chr then show ?thesis using less.prems Cons ih [of q] parse_class_char [OF chr] by auto
    qed
  qed
qed

function parse_glob :: "byte list \<Rightarrow> gtok list option" where
  "parse_glob [] = Some []"
| "parse_glob (c # p) =
     (if c = chr_star then map_option (Cons GStar) (parse_glob p)
      else if c = chr_qmark then map_option (Cons GAny) (parse_glob p)
      else if c = chr_lbrack then
        (let neg = (p \<noteq> [] \<and> hd p = chr_caret) in
         case parse_class (if neg then tl p else p) of None \<Rightarrow> None
         | Some (its, r) \<Rightarrow> map_option (Cons (GClass neg its)) (parse_glob r))
      else if c = chr_backslash \<and> p \<noteq> [] then map_option (Cons (GLit (hd p))) (parse_glob (tl p))
      else map_option (Cons (GLit c)) (parse_glob p))"
  by pat_completeness auto
termination
  by (relation "measure length")
    (auto dest!: parse_class_shrinks split: if_splits)

declare parse_glob.simps(2) [simp del]

fun in_class :: "bool \<Rightarrow> citem list \<Rightarrow> byte \<Rightarrow> bool" where
  "in_class nocase [] c = False"
| "in_class nocase (CChar a # its) c = (chr_eq nocase a c \<or> in_class nocase its c)"
| "in_class nocase (CEsc a # its) c = (a = c \<or> in_class nocase its c)"
| "in_class nocase (CRange a b # its) c = (in_range nocase a b c \<or> in_class nocase its c)"

fun gmatches :: "bool \<Rightarrow> gtok list \<Rightarrow> byte list \<Rightarrow> bool" where
  "gmatches nocase [] s = (s = [])"
| "gmatches nocase (GStar # ts) s = (\<exists>k \<le> length s. gmatches nocase ts (drop k s))"
| "gmatches nocase (GAny # ts) s = (s \<noteq> [] \<and> gmatches nocase ts (tl s))"
| "gmatches nocase (GClass neg its # ts) s = (s \<noteq> [] \<and> in_class nocase its (hd s) \<noteq> neg \<and> gmatches nocase ts (tl s))"
| "gmatches nocase (GLit a # ts) s = (s \<noteq> [] \<and> chr_eq nocase a (hd s) \<and> gmatches nocase ts (tl s))"

section \<open>Printing: ll2string writes the decimal representation\<close>

lemma digits_explicit:
  "digits = concat (map (\<lambda>k. [chr_0 + of_nat (k div 10), chr_0 + of_nat (k mod 10)]) [0..<100]) @ [chr_nul]"
  by (simp add: digits_def upt_rec)

lemma length_digits: "length digits = 201"
  by (simp add: digits_explicit length_concat comp_def sum_list_triv)

lemma rd_digits:
  assumes "k < 100"
  shows "rd digits (k * 2) = Some (chr_0 + of_nat (k div 10))"
    and "rd digits (k * 2 + 1) = Some (chr_0 + of_nat (k mod 10))"
    and "rd digits (Suc (k * 2)) = Some (chr_0 + of_nat (k mod 10))"
proof -
  let ?c = "concat (map (\<lambda>k. [chr_0 + of_nat (k div 10), chr_0 + of_nat (k mod 10) :: byte]) [0..<100])"
  have len: "length ?c = 200" by (simp add: length_concat comp_def sum_list_triv)
  show 1: "rd digits (k * 2) = Some (chr_0 + of_nat (k div 10))"
    using assms len nth_concat_pairs [OF assms, of "\<lambda>k. chr_0 + of_nat (k div 10)" "\<lambda>k. chr_0 + of_nat (k mod 10)"]
    by (simp add: length_digits digits_explicit nth_append)
  show 2: "rd digits (k * 2 + 1) = Some (chr_0 + of_nat (k mod 10))"
    using assms len nth_concat_pairs [OF assms, of "\<lambda>k. chr_0 + of_nat (k div 10)" "\<lambda>k. chr_0 + of_nat (k mod 10)"]
    by (simp add: length_digits digits_explicit nth_append)
  then show "rd digits (Suc (k * 2)) = Some (chr_0 + of_nat (k mod 10))" by simp
qed

lemma dec_not_Nil [simp]: "dec n \<noteq> []"
  by (subst dec.simps) simp

lemma dec_100: "100 \<le> n \<Longrightarrow>
    dec n = dec (n div 100) @ [chr_0 + of_nat (n mod 100 div 10), chr_0 + of_nat (n mod 100 mod 10)]"
proof -
  assume "100 \<le> n"
  then have "\<not> n < 10" "\<not> n div 10 < 10" by auto
  moreover have "n div 10 mod 10 = n mod 100 div 10" "n mod 100 mod 10 = n mod 10" "n div 10 div 10 = n div 100"
    by (auto simp: mod_mult2_eq [of n 10 10, simplified] div_mult2_eq [symmetric])
  ultimately show ?thesis
    by (subst dec.simps, subst dec.simps) simp
qed

lemma length_dec_pow: "10 ^ k \<le> n \<Longrightarrow> n < 10 ^ Suc k \<Longrightarrow> length (dec n) = Suc k"
proof (induction k arbitrary: n)
  case 0
  then show ?case by (subst dec.simps) simp
next
  case (Suc k)
  then have "\<not> n < 10"
    by (metis One_nat_def le_trans less_le_not_le one_le_numeral one_le_power power_Suc mult_le_mono2 mult.right_neutral)
  moreover have "10 ^ k \<le> n div 10" "n div 10 < 10 ^ Suc k"
    using Suc.prems by (auto simp: less_eq_div_iff_mult_less_eq div_less_iff_less_mult mult.commute)
  ultimately show ?case using Suc.IH by (subst dec.simps) simp
qed

lemma length_dec_shift: "10 ^ 12 \<le> n \<Longrightarrow> length (dec n) = 12 + length (dec (n div 10 ^ 12))"
proof -
  have "10 ^ k \<le> n \<Longrightarrow> length (dec n) = k + length (dec (n div 10 ^ k))" for k n
  proof (induction k arbitrary: n)
    case (Suc k)
    then have "\<not> n < 10"
      by (metis One_nat_def le_trans less_le_not_le one_le_numeral one_le_power power_Suc mult_le_mono2 mult.right_neutral)
    moreover have "10 ^ k \<le> n div 10" using Suc.prems by (auto simp: less_eq_div_iff_mult_less_eq mult.commute)
    ultimately show ?case using Suc.IH [of "n div 10"] by (subst dec.simps) (simp add: div_mult2_eq [symmetric])
  qed simp
  then show "10 ^ 12 \<le> n \<Longrightarrow> ?thesis" .
qed

lemma length_dec_mono_bound: "n < 10 ^ Suc k \<Longrightarrow> length (dec n) \<le> Suc k"
proof (induction k arbitrary: n)
  case 0
  then show ?case by (subst dec.simps) simp
next
  case (Suc k)
  show ?case
  proof (cases "n < 10")
    case True then show ?thesis by (subst dec.simps) simp
  next
    case False
    have "n div 10 < 10 ^ Suc k" using Suc.prems by (simp add: div_less_iff_less_mult mult.commute)
    then show ?thesis using Suc.IH False by (subst dec.simps) simp
  qed
qed

lemma length_dec_u64: "length (dec (unat (v :: u64))) \<le> 20"
  by (rule length_dec_mono_bound [of _ 19, simplified]) (use unat_less_2p [of v] in simp)

lemma unat_digits10: "unat (digits10 v) = length (dec (unat v))"
proof (induction v rule: digits10.induct)
  case (1 v)
  note le = word_less_nat_alt word_le_nat_alt
  have c: "\<And>k. 10 ^ k \<le> unat v \<Longrightarrow> unat v < 10 ^ Suc k \<Longrightarrow> length (dec (unat v)) = Suc k"
    by (rule length_dec_pow)
  show ?case
  proof (cases "v < 1000000000000")
    case True
    consider "unat v < 10" | "10 \<le> unat v \<and> unat v < 100" | "100 \<le> unat v \<and> unat v < 1000"
      | "1000 \<le> unat v \<and> unat v < 10000" | "10000 \<le> unat v \<and> unat v < 100000"
      | "100000 \<le> unat v \<and> unat v < 1000000" | "1000000 \<le> unat v \<and> unat v < 10000000"
      | "10000000 \<le> unat v \<and> unat v < 100000000" | "100000000 \<le> unat v \<and> unat v < 1000000000"
      | "1000000000 \<le> unat v \<and> unat v < 10000000000"
      | "10000000000 \<le> unat v \<and> unat v < 100000000000"
      | "100000000000 \<le> unat v \<and> unat v < 1000000000000"
      using True by (simp add: word_less_nat_alt) linarith
    then show ?thesis
      using c [of 0] c [of 1] c [of 2] c [of 3] c [of 4] c [of 5] c [of 6] c [of 7] c [of 8] c [of 9]
        c [of 10] c [of 11]
      by cases (simp_all add: digits10.simps [of v] le dec.simps [of "unat v"])
  next
    case False
    then have big: "10 ^ 12 \<le> unat v" by (simp add: le)
    then have "\<not> v < 10" "\<not> v < 100" "\<not> v < 1000" using False by (simp_all add: le)
    with 1 False have ih: "unat (digits10 (v div 1000000000000)) = length (dec (unat v div 10 ^ 12))"
      by (simp add: unat_div)
    have "length (dec (unat v)) = 12 + unat (digits10 (v div 1000000000000))"
      using length_dec_shift [OF big] ih by simp
    moreover have "12 + unat (digits10 (v div 1000000000000)) < 2 ^ 32"
      using calculation length_dec_u64 [of v] by simp
    ultimately show ?thesis
      using False \<open>\<not> v < 10\<close> \<open>\<not> v < 100\<close> \<open>\<not> v < 1000\<close>
      by (simp add: digits10.simps [of v] unat_word_ariths)
  qed
qed

lemma ll2string_loop_last:
  "nxt < length dst \<Longrightarrow> length (dec (unat v)) \<le> Suc nxt \<Longrightarrow>
   (do { (dst, nxt, v) \<leftarrow> ll2string_loop dst nxt v; ll2string_last dst nxt v }) =
     Some (patch dst (Suc nxt - length (dec (unat v))) (dec (unat v)))"
proof (induction "unat v" arbitrary: dst nxt v rule: less_induct)
  case (less v dst nxt)
  note 1 = less
  show ?case
  proof (cases "v \<ge> 100")
    case False
    have small: "unat v < 100" using False by (simp add: word_le_nat_alt)
    show ?thesis
    proof (cases "v < 10")
      case True
      then have "unat v < 10" by (simp add: word_less_nat_alt)
      moreover have "ucast v = (of_nat (unat v) :: byte)" by simp
      ultimately show ?thesis using False True 1
        by (simp add: ll2string_loop.simps [of dst] ll2string_last_def dec.simps [of "unat v"] list_update_patch)
    next
      case ten: False
      then have t: "\<not> unat v < 10" by (simp add: word_less_nat_alt)
      have d: "dec (unat v) = [chr_0 + of_nat (unat v div 10), chr_0 + of_nat (unat v mod 10)]"
        using t small by (subst dec.simps, subst dec.simps) auto
      have "1 \<le> nxt" using 1 d by simp
      then obtain m where m: "nxt = Suc m" by (cases nxt) auto
      have "dst[nxt := b, m := a] = patch dst m [a, b]" for a b
        using m 1 patch_patch_adjacent [of m "[a]" "[b]" dst]
        by (simp add: list_update_patch)
      then show ?thesis using False ten 1 m rd_digits [OF small] d
        by (simp add: ll2string_loop.simps [of dst] ll2string_last_def)
    qed
  next
    case True
    then have big: "100 \<le> unat v" by (simp add: word_le_nat_alt)
    define k where "k = unat (v mod 100)"
    have k: "k < 100" "k = unat v mod 100" by (simp_all add: k_def unat_mod)
    note d = dec_100 [OF big]
    have len: "length (dec (unat v)) = length (dec (unat v div 100)) + 2" using d by simp
    have "length (dec (unat v div 100)) \<noteq> 0" by simp
    with len 1(3) have n2: "2 \<le> nxt" by linarith
    then obtain m where m: "nxt = Suc (Suc m)" by (metis add_2_eq_Suc le_Suc_ex)
    let ?a = "chr_0 + of_nat (k div 10) :: byte" and ?b = "chr_0 + of_nat (k mod 10) :: byte"
    let ?dst = "dst[nxt := ?b, nxt - 1 := ?a]"
    have step: "ll2string_loop dst nxt v = ll2string_loop ?dst (nxt - 2) (v div 100)"
      using True n2 1(2) rd_digits [OF k(1)]
      by (simp add: ll2string_loop.simps [of dst nxt v] k_def [symmetric])
    have "(do { (dst, nxt, v) \<leftarrow> ll2string_loop ?dst (nxt - 2) (v div 100); ll2string_last dst nxt v }) =
       Some (patch ?dst (Suc (nxt - 2) - length (dec (unat (v div 100)))) (dec (unat (v div 100))))"
      using big n2 1(2,3) len by (intro 1(1)) (auto simp: unat_div)
    moreover have "?dst = patch dst (nxt - 1) [?a, ?b]"
      using m 1(2) patch_patch_adjacent [of "Suc m" "[?a]" "[?b]" dst] by (simp add: list_update_patch)
    moreover have "patch (patch dst (nxt - 1) [?a, ?b]) (Suc (nxt - 2) - length (dec (unat v div 100))) (dec (unat v div 100))
       = patch dst (Suc nxt - length (dec (unat v))) (dec (unat v))"
    proof -
      define i where "i = Suc nxt - length (dec (unat v))"
      have i: "nxt - 1 = i + length (dec (unat v div 100))" "Suc (nxt - 2) - length (dec (unat v div 100)) = i"
        using 1(3) len n2 by (auto simp: i_def)
      show ?thesis
        using patch_patch_adjacent [of i "dec (unat v div 100)" "[?a, ?b]" dst] 1(2) i n2 d
        by (simp add: i_def [symmetric] k(2))
    qed
    ultimately show ?thesis using step by (simp add: unat_div)
  qed
qed

lemma ll2string_spec:
  assumes "dstlen \<le> length dst"
  shows "ll2string dst dstlen v =
     (if length (dec_int (sint v)) < dstlen
      then Some (patch dst 0 (dec_int (sint v) @ [chr_nul]), length (dec_int (sint v)))
      else Some (dst, 0))"
proof -
  define neg where "neg = (v <s 0)"
  define val where "val = (if neg then (if v \<noteq> LLONG_MIN then - v else LLONG_MAX + 1) else v)"
  have val: "unat val = nat \<bar>sint v\<bar>"
    using unat_neg_sint [of v] unat_pos_sint [of v]
    by (auto simp: val_def neg_def word_sless_alt)
  have di: "dec_int (sint v) = (if neg then chr_minus # dec (unat val) else dec (unat val))"
    using val by (auto simp: dec_int_def neg_def word_sless_alt)
  have "unat (digits10 val) + (if neg then 1 else 0) < 2 ^ 32"
    using unat_digits10 [of val] length_dec_u64 [of val] by simp
  then have len: "unat (digits10 val + (if neg then 1 else 0)) = length (dec_int (sint v))"
    using unat_digits10 [of val] di by (simp add: unat_word_ariths split: if_splits)
  show ?thesis
  proof (cases "length (dec_int (sint v)) < dstlen")
    case False
    then show ?thesis
      by (simp add: ll2string_def Let_def neg_def [symmetric] val_def [symmetric] len)
  next
    case True
    define n where "n = length (dec_int (sint v)) - 1"
    have n: "length (dec_int (sint v)) = Suc n" by (simp add: n_def dec_int_def)
    let ?d = "dst[Suc n := chr_nul]"
    have pre: "n < length ?d" "length (dec (unat val)) \<le> Suc n"
      using True assms n di by (auto split: if_splits)
    from ll2string_loop_last [OF pre]
    obtain d' n' v' where l: "ll2string_loop ?d n val = Some (d', n', v')"
      and r: "ll2string_last d' n' v' = Some (patch ?d (Suc n - length (dec (unat val))) (dec (unat val)))"
      by (auto simp: Option.bind_eq_Some_conv)
    have eq: "patch ?d (Suc n - length (dec (unat val))) (dec (unat val))
       = patch dst (Suc n - length (dec (unat val))) (dec (unat val) @ [chr_nul])"
      using patch_patch_adjacent [of "Suc n - length (dec (unat val))" "dec (unat val)" "[chr_nul]" dst]
        pre True assms n by (simp add: list_update_patch)
    have fin: "(if neg then wr (patch dst (Suc n - length (dec (unat val))) (dec (unat val) @ [chr_nul])) 0 chr_minus
        else Some (patch dst (Suc n - length (dec (unat val))) (dec (unat val) @ [chr_nul])))
        = Some (patch dst 0 (dec_int (sint v) @ [chr_nul]))"
    proof (cases neg)
      case neg: True
      have "Suc n - length (dec (unat val)) = 0 + length [chr_minus]" using neg di n by simp
      moreover have "0 < length (patch dst (Suc 0) (dec (unat val) @ [chr_nul]))"
        using neg di n True assms by (subst length_patch) auto
      ultimately show ?thesis
        using patch_patch_adjacent [of 0 "[chr_minus]" "dec (unat val) @ [chr_nul]" dst] neg di n True assms
        by (simp add: list_update_patch)
    next
      case False
      then show ?thesis using di n by simp
    qed
    show ?thesis using True assms n l r eq fin
      by (simp add: ll2string_def Let_def neg_def [symmetric] val_def [symmetric] len)
  qed
qed

definition isdig :: "byte \<Rightarrow> bool" where
  "isdig c \<longleftrightarrow> chr_0 \<le> c \<and> c \<le> chr_9"

abbreviation dval_from :: "nat \<Rightarrow> byte list \<Rightarrow> nat" where
  "dval_from a ds \<equiv> foldl (\<lambda>a d. a * 10 + unat (d - chr_0)) a ds"

lemma isdig_value: "isdig d \<Longrightarrow> unat (d - chr_0) < 10 \<and> d = chr_0 + of_nat (unat (d - chr_0))"
  by (auto simp: isdig_def unat_sub word_le_nat_alt)

lemma digit_isdig: "n < 10 \<Longrightarrow> isdig (chr_0 + of_nat n) \<and> unat (chr_0 + of_nat n - chr_0 :: byte) = n"
  by (auto simp: isdig_def word_le_nat_alt unat_word_ariths unat_of_nat)

lemma dec_digits: "\<forall>d \<in> set (dec n). isdig d"
proof (induction n rule: dec.induct)
  case (1 n)
  then show ?case by (subst dec.simps) (use digit_isdig in auto)
qed

lemma dval_dec: "dval_from 0 (dec n) = n"
proof (induction n rule: dec.induct)
  case (1 n)
  then show ?case by (subst dec.simps) (use digit_isdig in \<open>auto\<close>)
qed

lemma hd_dec: "0 < n \<Longrightarrow> hd (dec n) \<noteq> chr_0"
proof (induction n rule: dec.induct)
  case (1 n)
  show ?case
  proof (cases "n < 10")
    case True
    have "unat (chr_0 + of_nat n - chr_0 :: byte) = n" using digit_isdig [OF True] by blast
    then show ?thesis using True 1 by (subst dec.simps) auto
  next
    case False
    then show ?thesis using 1 by (subst dec.simps) auto
  qed
qed

lemma dval_from_ge: "a \<le> dval_from a ds"
proof (induction ds arbitrary: a)
  case (Cons d ds)
  have "a * 10 + unat (d - chr_0) \<le> dval_from a (d # ds)" using Cons by simp
  then show ?case by linarith
qed simp

lemma dval_pos: "ds \<noteq> [] \<Longrightarrow> \<forall>d \<in> set ds. isdig d \<Longrightarrow> hd ds \<noteq> chr_0 \<Longrightarrow> 0 < dval_from 0 ds"
proof (cases ds)
  case (Cons d es)
  assume "ds \<noteq> []" "\<forall>d \<in> set ds. isdig d" "hd ds \<noteq> chr_0"
  then have "0 < unat (d - chr_0)" using Cons by (simp add: unat_gt_0)
  then show ?thesis using dval_from_ge [of "unat (d - chr_0)" es] Cons by simp
qed simp

lemma dec_dval:
  "ds \<noteq> [] \<Longrightarrow> \<forall>d \<in> set ds. isdig d \<Longrightarrow> hd ds \<noteq> chr_0 \<Longrightarrow> dec (dval_from 0 ds) = ds"
proof (induction ds rule: rev_induct)
  case (snoc d ds)
  have d: "unat (d - chr_0) < 10" "chr_0 + of_nat (unat (d - chr_0)) = d"
    using isdig_value [of d] snoc.prems by auto
  show ?case
  proof (cases "ds = []")
    case True
    then show ?thesis using d by (subst dec.simps) simp
  next
    case False
    then have "0 < dval_from 0 ds" "dec (dval_from 0 ds) = ds"
      using snoc dval_pos [of ds] by auto
    then show ?thesis using d by (subst dec.simps) simp
  qed
qed simp

section \<open>Parsing: string2ll accepts exactly the decimal representations\<close>

lemma string2ll_loop_digits:
  "\<forall>d \<in> set ds. isdig d \<Longrightarrow> (rest = [] \<or> \<not> isdig (hd rest)) \<Longrightarrow>
   string2ll_loop (pre @ ds @ rest) (length pre) v =
     (if dval_from (unat v) ds < 2 ^ 64
      then Some (of_nat (dval_from (unat v) ds), length pre + length ds) else None)"
proof (induction ds arbitrary: pre v)
  case Nil
  have "dval_from (unat v) [] < 2 ^ 64" using unat_less_2p [of v] by simp
  then show ?case using Nil
    by (cases rest) (auto simp: string2ll_loop.simps [of _ "length pre"] isdig_def)
next
  case (Cons d ds)
  let ?s = "pre @ (d # ds) @ rest"
  have d: "isdig d" "unat (d - chr_0) < 10" using Cons.prems isdig_value by auto
  have s: "length pre < length ?s" "?s ! length pre = d" by simp_all
  have u: "unat (ucast (d - chr_0) :: u64) = unat (d - chr_0)" by simp
  show ?case
  proof (cases "unat v * 10 + unat (d - chr_0) < 2 ^ 64")
    case False
    then have "\<not> dval_from (unat v) (d # ds) < 2 ^ 64"
      using dval_from_ge [of "unat v * 10 + unat (d - chr_0)" ds] by simp
    moreover have "string2ll_loop ?s (length pre) v = None"
    proof (cases "v > ULLONG_MAX div 10")
      case True
      then show ?thesis using s d by (simp add: string2ll_loop.simps [of _ "length pre"] isdig_def)
    next
      case le: False
      then have m: "unat (v * 10) = unat v * 10"
        by (simp add: unat_word_ariths word_less_nat_alt unat_div)
      have "v * 10 > ULLONG_MAX - ucast (d - chr_0)"
        using False d u by (simp add: word_less_nat_alt m unat_sub word_le_nat_alt)
      then show ?thesis using s d le by (simp add: string2ll_loop.simps [of _ "length pre"] isdig_def)
    qed
    ultimately show ?thesis by simp
  next
    case True
    then have le: "\<not> v > ULLONG_MAX div 10"
      by (simp add: word_less_nat_alt unat_div)
    then have m: "unat (v * 10) = unat v * 10"
      by (simp add: unat_word_ariths word_less_nat_alt unat_div)
    have le2: "\<not> v * 10 > ULLONG_MAX - ucast (d - chr_0)"
      using True d u by (simp add: word_less_nat_alt m unat_sub word_le_nat_alt)
    have un: "unat (v * 10 + ucast (d - chr_0)) = unat v * 10 + unat (d - chr_0)"
      using True m u by (simp add: unat_word_ariths)
    have "string2ll_loop ?s (length pre) v = string2ll_loop ?s (length pre + 1) (v * 10 + ucast (d - chr_0))"
      using s d le le2 by (simp add: string2ll_loop.simps [of _ "length pre"] isdig_def)
    also have "\<dots> = string2ll_loop ((pre @ [d]) @ ds @ rest) (length (pre @ [d])) (v * 10 + ucast (d - chr_0))"
      by simp
    finally have "string2ll_loop ?s (length pre) v =
      string2ll_loop ((pre @ [d]) @ ds @ rest) (length (pre @ [d])) (v * 10 + ucast (d - chr_0))" .
    moreover note Cons.IH [of "pre @ [d]" "v * 10 + ucast (d - chr_0)"]
    ultimately show ?thesis using Cons.prems un by simp
  qed
qed

lemma string2ll_loop_split:
  assumes "k \<le> length s"
  defines "ds \<equiv> takeWhile isdig (drop k s)"
  shows "string2ll_loop s k v =
     (if dval_from (unat v) ds < 2 ^ 64
      then Some (of_nat (dval_from (unat v) ds), k + length ds) else None)"
proof -
  have s: "s = take k s @ ds @ dropWhile isdig (drop k s)" by (simp add: ds_def)
  have "\<forall>d \<in> set ds. isdig d" by (auto simp: ds_def dest: set_takeWhileD)
  moreover have "dropWhile isdig (drop k s) = [] \<or> \<not> isdig (hd (dropWhile isdig (drop k s)))"
    using hd_dropWhile by blast
  moreover have "length (take k s) = k" using assms by simp
  ultimately show ?thesis
    using string2ll_loop_digits [of ds "dropWhile isdig (drop k s)" "take k s" v] s by metis
qed

text \<open>The unsigned part of a number: a digit 1-9 followed by digits only.\<close>

lemma string2ll_body:
  assumes "k < length s"
  shows "(if s ! k \<ge> chr_1 \<and> s ! k \<le> chr_9 then
            (case string2ll_loop s (k + 1) (ucast (s ! k - chr_0)) of
               None \<Rightarrow> None | Some (v, plen) \<Rightarrow> if plen < length s then None else f v) else None) =
         (if (\<forall>d \<in> set (drop k s). isdig d) \<and> s ! k \<noteq> chr_0 \<and> dval_from 0 (drop k s) < 2 ^ 64
          then f (of_nat (dval_from 0 (drop k s))) else None)"
proof -
  have dk: "drop k s = s ! k # drop (Suc k) s" using assms by (simp add: Cons_nth_drop_Suc)
  have dig: "(s ! k \<ge> chr_1 \<and> s ! k \<le> chr_9) \<longleftrightarrow> isdig (s ! k) \<and> s ! k \<noteq> chr_0"
    by (auto simp: isdig_def word_le_nat_alt word_unat_eq_iff)
  let ?ds = "takeWhile isdig (drop (Suc k) s)"
  have u: "unat (ucast (s ! k - chr_0) :: u64) = unat (s ! k - chr_0)" by simp
  have all: "(Suc k + length ?ds < length s) \<longleftrightarrow> \<not> (\<forall>d \<in> set (drop (Suc k) s). isdig d)"
  proof -
    have "length ?ds = length s - Suc k \<longleftrightarrow> ?ds = drop (Suc k) s"
      by (metis length_drop takeWhile_eq_take take_all order_refl)
    moreover have "length ?ds \<le> length s - Suc k" using length_takeWhile_le [of isdig "drop (Suc k) s"] by simp
    ultimately show ?thesis using assms by (auto simp: takeWhile_eq_all_conv)
  qed
  show ?thesis
  proof (cases "isdig (s ! k) \<and> s ! k \<noteq> chr_0")
    case False
    then show ?thesis using dk dig by auto
  next
    case True
    show ?thesis
    proof (cases "\<forall>d \<in> set (drop (Suc k) s). isdig d")
      case al: True
      then have eq: "?ds = drop (Suc k) s" by (simp add: takeWhile_eq_all_conv)
      then show ?thesis using True al dig dk u all string2ll_loop_split [of "Suc k" s "ucast (s ! k - chr_0)", unfolded eq] assms
        by (auto simp: less_Suc_eq)
    next
      case False
      then show ?thesis using True dig dk all string2ll_loop_split [of "Suc k" s "ucast (s ! k - chr_0)"] assms
        by auto
    qed
  qed
qed

lemma string2ll_neg_bound: "(- (LLONG_MIN + 1) + 1 :: u64) = 0x8000000000000000"
  by simp

lemma sint_of_nat_s64: "n < 2 ^ 63 \<Longrightarrow> sint (of_nat n :: s64) = int n"
  using sint_of_int_s64_range [of "int n"] by simp

lemma sint_neg_of_nat_s64: "n \<le> 2 ^ 63 \<Longrightarrow> sint (- of_nat n :: s64) = - int n"
proof -
  assume "n \<le> 2 ^ 63"
  then have "sint (word_of_int (- int n) :: s64) = - int n"
    by (intro sint_of_int_s64_range) auto
  then show ?thesis by simp
qed

lemma string2ll_alt:
  "string2ll s =
     (if s = [] then None
      else if s = [chr_0] then Some 0
      else let neg = (hd s = chr_minus); ds = (if neg then tl s else s) in
        if ds \<noteq> [] \<and> (\<forall>d \<in> set ds. isdig d) \<and> hd ds \<noteq> chr_0 \<and>
           dval_from 0 ds \<le> (if neg then 2 ^ 63 else 2 ^ 63 - 1)
        then Some (if neg then - of_nat (dval_from 0 ds) else of_nat (dval_from 0 ds)) else None)"
proof (cases "s = [] \<or> s = [chr_0]")
  case True
  then show ?thesis by (auto simp: string2ll_def)
next
  case False
  define neg where "neg = (s ! 0 = chr_minus)"
  define k where "k = (if neg then 1 else 0 :: nat)"
  have z: "\<not> (length s = 1 \<and> s ! 0 = chr_0)" using False by (cases s) auto
  have z': "\<not> (s ! k = chr_0 \<and> length s = 1)" if "k < length s"
    using z that by (auto simp: k_def neg_def split: if_splits)
  show ?thesis
  proof (cases "k < length s")
    case no: False
    then have "neg" "length s = 1" using False by (auto simp: k_def split: if_splits) (cases s; auto)
    then show ?thesis using False by (cases s) (auto simp: string2ll_def neg_def)
  next
    case True
    have ds: "(if neg then tl s else s) = drop k s" "(hd s = chr_minus) = neg"
      using False by (auto simp: k_def neg_def hd_conv_nth drop_Suc)
    have hd: "hd (drop k s) = s ! k" "drop k s \<noteq> []" using True by (simp_all add: hd_drop_conv_nth)
    have "string2ll s = (if s ! k \<ge> chr_1 \<and> s ! k \<le> chr_9 then
            (case string2ll_loop s (k + 1) (ucast (s ! k - chr_0)) of
               None \<Rightarrow> None | Some (v, plen) \<Rightarrow> if plen < length s then None else
                 (if neg then (if v > - (LLONG_MIN + 1) + 1 then None else Some (- v))
                  else if v > LLONG_MAX then None else Some v)) else None)"
      using False z z' [OF True] True
      by (auto simp: string2ll_def Let_def neg_def [symmetric] k_def [symmetric] split: option.split)
    also have "\<dots> = (if (\<forall>d \<in> set (drop k s). isdig d) \<and> s ! k \<noteq> chr_0 \<and> dval_from 0 (drop k s) < 2 ^ 64
       then (let v = of_nat (dval_from 0 (drop k s)) in
         if neg then (if v > - (LLONG_MIN + 1) + 1 then None else Some (- v))
         else if v > LLONG_MAX then None else Some v) else None)"
      using string2ll_body [OF True, of "\<lambda>v. if neg then (if v > - (LLONG_MIN + 1) + 1 then None else Some (- v))
         else if v > LLONG_MAX then None else Some v"] by (simp only: Let_def)
    also have "\<dots> = (if (\<forall>d \<in> set (drop k s). isdig d) \<and> s ! k \<noteq> chr_0 \<and>
           dval_from 0 (drop k s) \<le> (if neg then 2 ^ 63 else 2 ^ 63 - 1)
        then Some (if neg then - of_nat (dval_from 0 (drop k s)) else of_nat (dval_from 0 (drop k s))) else None)"
      by (auto simp: Let_def word_less_nat_alt unat_of_nat)
    finally show ?thesis using False hd unfolding Let_def ds(2) ds(1) by simp
  qed
qed

lemma string2ll_iff: "string2ll s = Some v \<longleftrightarrow> s = dec_int (sint v)"
proof
  assume a: "string2ll s = Some v"
  show "s = dec_int (sint v)"
  proof (cases "s = [chr_0]")
    case True
    then show ?thesis using a by (simp add: string2ll_alt dec_int_def dec.simps)
  next
    case False
    define neg where "neg = (hd s = chr_minus)"
    define ds where "ds = (if neg then tl s else s)"
    have c: "s \<noteq> []" "ds \<noteq> []" "\<forall>d \<in> set ds. isdig d" "hd ds \<noteq> chr_0"
      "dval_from 0 ds \<le> (if neg then 2 ^ 63 else 2 ^ 63 - 1)"
      "v = (if neg then - of_nat (dval_from 0 ds) else of_nat (dval_from 0 ds))"
      using a False by (auto simp: string2ll_alt Let_def neg_def ds_def split: if_splits)
    have p: "0 < dval_from 0 ds" using dval_pos c by blast
    have e: "dec (dval_from 0 ds) = ds" using dec_dval c by blast
    have "sint v = (if neg then - int (dval_from 0 ds) else int (dval_from 0 ds))"
      using c(5,6) by (auto simp: sint_of_nat_s64 sint_neg_of_nat_s64)
    then show ?thesis using p e c(1) by (cases s) (auto simp: dec_int_def neg_def ds_def)
  qed
next
  assume s: "s = dec_int (sint v)"
  show "string2ll s = Some v"
  proof (cases "sint v = 0")
    case True
    then have "v = 0" by simp
    then show ?thesis using s by (simp add: string2ll_alt dec_int_def dec.simps)
  next
    case False
    define n where "n = nat \<bar>sint v\<bar>"
    have n: "0 < n" using False by (simp add: n_def)
    have s': "s = (if sint v < 0 then chr_minus # dec n else dec n)"
      using s by (simp add: dec_int_def n_def)
    have nm: "hd (dec n) \<noteq> chr_minus" "s \<noteq> [chr_0]" "s \<noteq> []"
      using dec_digits [of n, THEN bspec, OF hd_in_set, OF dec_not_Nil] hd_dec [OF n] s'
      by (auto simp: isdig_def)
    have b: "n \<le> (if sint v < 0 then 2 ^ 63 else 2 ^ 63 - 1)"
      using sint_greater_eq [of v] sint_less [of v] by (auto simp: n_def)
    have "(word_of_int (sint v) :: s64) = (if sint v < 0 then - of_nat n else of_nat n)"
    proof (cases "sint v < 0")
      case True
      then have "sint v = - int n" by (simp add: n_def)
      then have "(word_of_int (sint v) :: s64) = word_of_int (- int n)" by (rule arg_cong)
      with True show ?thesis by simp
    next
      case False
      then have "sint v = int n" by (simp add: n_def)
      then have "(word_of_int (sint v) :: s64) = word_of_int (int n)" by (rule arg_cong)
      with False show ?thesis by simp
    qed
    then have v: "v = (if sint v < 0 then - of_nat n else of_nat n)" by simp
    have "string2ll s = Some (if sint v < 0 then - of_nat n else of_nat n)"
      using s' nm b hd_dec [OF n] dec_digits [of n] dval_dec [of n]
      by (cases "sint v < 0") (simp_all add: string2ll_alt Let_def)
    then show ?thesis by (simp only: v [symmetric])
  qed
qed

section \<open>Matching: stringmatchlen decides the token semantics\<close>

lemma match_class_correct:
  "parse_class q = Some (its, r) \<Longrightarrow> drop i p = q \<Longrightarrow> i \<le> length p \<Longrightarrow> 0 < i \<Longrightarrow> j < length s \<Longrightarrow>
   \<exists>k. match_class nc p s i j mt = Some (k, mt \<or> in_class nc its (s ! j)) \<and> drop (k + 1) p = r \<and>
       i \<le> k + 1 \<and> k < length p"
proof (induction "length q" arbitrary: q i its mt rule: less_induct)
  case (less q)
  note sj = rdz_nth [OF less.prems(5)]
  show ?case
  proof (cases q)
    case Nil
    then have i: "i = length p" using less.prems by simp
    then have "match_class nc p s i j mt = Some (length p - 1, mt)"
      by (subst match_class.simps) simp
    then show ?thesis using less.prems i Nil by auto
  next
    case (Cons c q1)
    have i: "i < length p" "p ! i = c" "drop (Suc i) p = q1" using drop_eq_Cons [of i p c q1] less.prems(2) Cons by simp_all
    note st = match_class.simps [of nc p s i j mt] rdz_nth [OF i(1)] i(2) sj
    have ih: "\<exists>k. match_class nc p s (i + d) j mt' = Some (k, mt' \<or> in_class nc its' (s ! j)) \<and>
        drop (k + 1) p = r \<and> i \<le> k + 1 \<and> k < length p"
      if "drop (i + d) p = q'" "i + d \<le> length p" "0 < d" "parse_class q' = Some (its', r)" for d q' its' mt'
    proof -
      have "length q' < length q" using that i less.prems(2) by auto
      from less.hyps [OF this that(4,1,2) _ less.prems(5), of mt'] that(3) show ?thesis by force
    qed
    consider (esc) "c = chr_backslash" | (rb) "c = chr_rbrack"
      | (range) e q' where "c \<noteq> chr_backslash" "c \<noteq> chr_rbrack" "q1 = chr_minus # e # q'"
      | (chr) "c \<noteq> chr_backslash" "c \<noteq> chr_rbrack" "\<nexists>e q'. q1 = chr_minus # e # q'"
      by blast
    then show ?thesis
    proof cases
      case esc
      then obtain x q' its' where q: "q1 = x # q'" and pc: "parse_class q' = Some (its', r)" "its = CEsc x # its'"
        using less.prems(1) Cons by (auto split: list.splits)
      have x: "Suc i < length p" "p ! Suc i = x" "drop (Suc (Suc i)) p = q'" using drop_eq_Cons [of "Suc i" p x q'] i(3) q by simp_all
      have "match_class nc p s i j mt = match_class nc p s (i + 2) j (mt \<or> x = s ! j)"
        using esc x by (simp add: st rdz_nth)
      moreover have "drop (i + 2) p = q'" "i + 2 \<le> length p" using x by simp_all
      ultimately show ?thesis using ih [OF _ _ _ pc(1), of 2 "mt \<or> x = s ! j"] pc(2) by auto
    next
      case rb
      then have "match_class nc p s i j mt = Some (i, mt)" by (simp add: st)
      then show ?thesis using less.prems(1) Cons rb i by auto
    next
      case range
      obtain its' where pc: "parse_class q' = Some (its', r)" "its = CRange c e # its'"
        using less.prems(1) Cons range by auto
      have x: "Suc i < length p" "p ! Suc i = chr_minus" "drop (Suc (Suc i)) p = e # q'"
        using drop_eq_Cons [of "Suc i" p chr_minus "e # q'"] i(3) range(3) by simp_all
      have y: "Suc (Suc i) < length p" "p ! Suc (Suc i) = e" "drop (Suc (Suc (Suc i))) p = q'"
        using drop_eq_Cons [of "Suc (Suc i)" p e q'] x(3) by simp_all
      have "match_class nc p s i j mt = match_class nc p s (i + 3) j (mt \<or> in_range nc c e (s ! j))"
        using range x y i le_diff_conv2 [of i "length p" 3] by (simp add: st rdz_nth)
      moreover have "drop (i + 3) p = q'" "i + 3 \<le> length p" using y by (simp_all add: numeral_3_eq_3)
      ultimately show ?thesis using ih [OF _ _ _ pc(1), of 3 "mt \<or> in_range nc c e (s ! j)"] pc(2) by auto
    next
      case chr
      obtain its' where pc: "parse_class q1 = Some (its', r)" "its = CChar c # its'"
        using less.prems(1) parse_class_char [OF chr] Cons by (auto simp del: parse_class.simps)
      have nr: "\<not> (p ! Suc i = chr_minus \<and> 3 \<le> length p - i)" if "Suc i < length p"
      proof
        assume a: "p ! Suc i = chr_minus \<and> 3 \<le> length p - i"
        then have "Suc (Suc i) < length p" by linarith
        then have "drop (Suc i) p = p ! Suc i # p ! Suc (Suc i) # drop (Suc (Suc (Suc i))) p"
          using that by (simp add: Cons_nth_drop_Suc)
        then show False using chr(3) i(3) a by auto
      qed
      obtain c1 where c1: "rdz p (Suc i) = Some c1" "\<not> (c1 = chr_minus \<and> 3 \<le> length p - i)"
      proof (cases "Suc i < length p")
        case True then show ?thesis using that nr rdz_nth by blast
      next
        case False
        then have "Suc i = length p" using i by simp
        then show ?thesis using that [of chr_nul] rdz_end [of p] by simp
      qed
      have eq: "match_class nc p s i j mt = match_class nc p s (i + 1) j (mt \<or> chr_eq nc c (s ! j))"
        using chr(1,2) i(1) c1 by (auto simp: st)
      have d: "drop (i + 1) p = q1" "i + 1 \<le> length p" using i by simp_all
      show ?thesis using ih [OF d zero_less_one pc(1), of "mt \<or> chr_eq nc c (s ! j)"]
        unfolding eq pc(2) by (simp add: disj_assoc)
    qed
  qed
qed

lemma skip_stars_eq:
  "i \<le> length p \<Longrightarrow> skip_stars p i = Some (i + length (takeWhile (\<lambda>c. c = chr_star) (drop i p)))"
proof (induction "length p - i" arbitrary: i)
  case 0
  then have "i = length p" by simp
  then show ?case by (subst skip_stars.simps) simp
next
  case (Suc x)
  then have i: "i < length p" by simp
  then have d: "drop i p = p ! i # drop (Suc i) p" by (simp add: Cons_nth_drop_Suc)
  show ?case
    using Suc.hyps(1) [of "Suc i"] Suc.hyps(2) i d
    by (auto simp: skip_stars.simps [of p i] rdz_nth)
qed

lemma parse_glob_star: "parse_glob (chr_star # p) = map_option (Cons GStar) (parse_glob p)"
  by (simp add: parse_glob.simps)

lemma parse_glob_stars:
  "parse_glob (replicate n chr_star @ q) = map_option (\<lambda>ts. replicate n GStar @ ts) (parse_glob q)"
  by (induction n) (auto simp: parse_glob_star option.map_comp comp_def option.map_ident)

lemma takeWhile_star_split:
  "p = replicate (length (takeWhile (\<lambda>c. c = chr_star) p)) chr_star
     @ drop (length (takeWhile (\<lambda>c. c = chr_star) p)) p"
  by (induction p) auto

lemma gmatches_star_star: "gmatches nc (GStar # GStar # ts) s = gmatches nc (GStar # ts) s"
proof
  assume "gmatches nc (GStar # GStar # ts) s"
  then obtain k l where "k \<le> length s" "l \<le> length s - k" "gmatches nc ts (drop l (drop k s))" by auto
  then show "gmatches nc (GStar # ts) s" by (auto intro!: exI [of _ "l + k"])
next
  assume "gmatches nc (GStar # ts) s"
  then have "0 \<le> length s \<and> gmatches nc (GStar # ts) (drop 0 s)" by simp
  then show "gmatches nc (GStar # GStar # ts) s" unfolding gmatches.simps(2) [of nc "GStar # ts"] by blast
qed

lemma gmatches_stars: "gmatches nc (GStar # replicate n GStar @ ts) s = gmatches nc (GStar # ts) s"
  by (induction n) (simp_all only: replicate.simps append.simps gmatches_star_star)

lemma parse_glob_nonstar:
  "c \<noteq> chr_star \<Longrightarrow> parse_glob (c # q) = Some ts \<Longrightarrow> ts \<noteq> [] \<and> hd ts \<noteq> GStar"
  by (auto simp: parse_glob.simps(2) Let_def split: if_splits option.splits)

lemma gmatches_nonstar_Nil: "ts \<noteq> [] \<Longrightarrow> hd ts \<noteq> GStar \<Longrightarrow> \<not> gmatches nc ts []"
  by (cases ts; cases "hd ts") auto

lemma gmatches_Nil: "parse_glob p = Some ts \<Longrightarrow> gmatches nc ts [] \<longleftrightarrow> (\<forall>c \<in> set p. c = chr_star)"
proof (induction p arbitrary: ts)
  case (Cons c p)
  show ?case
  proof (cases "c = chr_star")
    case True
    then show ?thesis using Cons by (auto simp: parse_glob_star)
  next
    case False
    then show ?thesis using parse_glob_nonstar [OF False Cons.prems] gmatches_nonstar_Nil by auto
  qed
qed simp

lemma smatch_step_correct:
  assumes i: "i < length p" "p ! i \<noteq> chr_star" and j: "j < length s"
    and ts: "parse_glob (drop i p) = Some ts"
  shows "(smatch_step nc p s i j = Some (Return False) \<and> \<not> gmatches nc ts (drop j s)) \<or>
     (\<exists>k ts'. smatch_step nc p s i j = Some (Next k (Suc j)) \<and> i < k \<and> k \<le> length p \<and>
        parse_glob (drop k p) = Some ts' \<and> gmatches nc ts (drop j s) = gmatches nc ts' (drop (Suc j) s))"
proof -
  let ?c = "p ! i"
  have d: "drop i p = ?c # drop (Suc i) p" using i by (simp add: Cons_nth_drop_Suc)
  have sd: "drop j s = s ! j # drop (Suc j) s" using j by (simp add: Cons_nth_drop_Suc)
  have ad: "adv s j = Some (Suc j)" using j by (simp add: adv_def)
  note st = smatch_step_def rdz_nth [OF i(1)] rdz_nth [OF j] ad sd
  consider (q) "?c = chr_qmark" | (cl) "?c = chr_lbrack"
    | (lit) "?c \<noteq> chr_qmark" "?c \<noteq> chr_lbrack" by blast
  then show ?thesis
  proof cases
    case q
    then show ?thesis using ts d j i by (auto simp: st parse_glob.simps(2))
  next
    case cl
    define neg where "neg = (Suc i < length p \<and> p ! Suc i = chr_caret)"
    have negeq: "(drop (Suc i) p \<noteq> [] \<and> hd (drop (Suc i) p) = chr_caret) = neg"
      by (auto simp: neg_def hd_drop_conv_nth)
    define i1 where "i1 = (if neg then i + 2 else i + 1)"
    have c1: "\<exists>c1. rdz p (Suc i) = Some c1 \<and> (c1 = chr_caret) = neg"
    proof (cases "Suc i < length p")
      case True
      then show ?thesis by (simp add: rdz_nth neg_def hd_drop_conv_nth)
    next
      case False
      then have "Suc i = length p" using i by simp
      then show ?thesis by (simp add: neg_def)
    qed
    then obtain c1 where c1: "rdz p (Suc i) = Some c1" "(c1 = chr_caret) = neg" by blast
    have i1: "drop i1 p = (if neg then tl (drop (Suc i) p) else drop (Suc i) p)" "i1 \<le> length p" "0 < i1"
      using i by (auto simp: i1_def neg_def tl_drop drop_Suc)
    obtain its r ts' where pc: "parse_class (drop i1 p) = Some (its, r)"
      and pg: "parse_glob r = Some ts'" and t: "ts = GClass neg its # ts'"
    proof -
      have "(case parse_class (drop i1 p) of None \<Rightarrow> None
          | Some (its, r) \<Rightarrow> map_option (Cons (GClass neg its)) (parse_glob r)) = Some ts"
        using ts unfolding d cl i1(1) parse_glob.simps(2) Let_def negeq by simp
      then show ?thesis using that by (auto split: option.splits)
    qed
    obtain k where k: "match_class nc p s i1 j False = Some (k, in_class nc its (s ! j))"
      "drop (k + 1) p = r" "i1 \<le> k + 1" "k < length p"
      using match_class_correct [OF pc refl i1(2,3) j, of nc False] by auto
    have "smatch_step nc p s i j = (if in_class nc its (s ! j) \<noteq> neg then Some (Next (k + 1) (Suc j))
        else Some (Return False))"
      using cl c1 k(1) by (auto simp: st i1_def)
    then show ?thesis using k pg t sd by (auto simp: i1_def split: if_splits)
  next
    case lit
    show ?thesis
    proof (cases "?c = chr_backslash \<and> drop (Suc i) p \<noteq> []")
      case True
      then have l: "Suc i < length p" "length p - i \<ge> 2" by auto
      have "parse_glob (drop i p) = map_option (Cons (GLit (p ! Suc i))) (parse_glob (drop (Suc (Suc i)) p))"
        unfolding d Cons_nth_drop_Suc [OF l(1), symmetric] conjunct1 [OF True]
        by (simp add: parse_glob.simps(2))
      then obtain ts' where "parse_glob (drop (Suc (Suc i)) p) = Some ts'" "ts = GLit (p ! Suc i) # ts'"
        using ts by (auto simp: Some_eq_map_option)
      moreover have "smatch_step nc p s i j = (if chr_eq nc (p ! Suc i) (s ! j) then Some (Next (i + 2) (Suc j))
          else Some (Return False))"
        using True l lit by (simp add: st rdz_nth [OF l(1)])
      ultimately show ?thesis using l sd by (auto split: if_splits)
    next
      case False
      then have l: "\<not> (?c = chr_backslash \<and> length p - i \<ge> 2)" by auto
      have "parse_glob (drop i p) = map_option (Cons (GLit ?c)) (parse_glob (drop (Suc i) p))"
        using False lit i unfolding d by (auto simp: parse_glob.simps(2))
      then obtain ts' where "parse_glob (drop (Suc i) p) = Some ts'" "ts = GLit ?c # ts'"
        using ts by (auto simp: Some_eq_map_option)
      moreover have "smatch_step nc p s i j = (if chr_eq nc ?c (s ! j) then Some (Next (i + 1) (Suc j))
          else Some (Return False))"
        using False l lit by (auto simp: st)
      ultimately show ?thesis using i sd by (auto split: if_splits)
    qed
  qed
qed

lemma smatch_star_correct:
  assumes "\<And>j. j < length s \<Longrightarrow> smatch nc p s i j = Some (gmatches nc ts (drop j s))"
    and "j \<le> length s"
  shows "smatch_star nc p s i j = Some (\<exists>k. j \<le> k \<and> k < length s \<and> gmatches nc ts (drop k s))"
  using assms(2)
proof (induction "length s - j" arbitrary: j)
  case 0
  then have "j = length s" by simp
  then show ?case by (subst smatch_star.simps) auto
next
  case (Suc x)
  then have j: "j < length s" by simp
  have ad: "adv s j = Some (Suc j)" using j by (simp add: adv_def)
  have ih: "smatch_star nc p s i (Suc j) = Some (\<exists>k. Suc j \<le> k \<and> k < length s \<and> gmatches nc ts (drop k s))"
    using Suc j by (intro Suc.hyps(1)) auto
  show ?case
  proof (cases "gmatches nc ts (drop j s)")
    case True
    then show ?thesis using j assms(1) [OF j] by (subst smatch_star.simps) auto
  next
    case False
    then have "(\<exists>k. Suc j \<le> k \<and> k < length s \<and> gmatches nc ts (drop k s)) =
        (\<exists>k. j \<le> k \<and> k < length s \<and> gmatches nc ts (drop k s))"
      by (metis Suc_leD le_neq_implies_less Suc_leI)
    then show ?thesis using False j assms(1) [OF j] ad ih by (subst smatch_star.simps) auto
  qed
qed

lemma smatch_correct:
  "i \<le> length p \<Longrightarrow> j < length s \<Longrightarrow> parse_glob (drop i p) = Some ts \<Longrightarrow>
   smatch nc p s i j = Some (gmatches nc ts (drop j s))"
proof (induction "length p - i" arbitrary: i j ts rule: less_induct)
  case less
  show ?case
  proof (cases "i = length p")
    case True
    then show ?thesis using less.prems by (subst smatch.simps) auto
  next
    case False
    then have i: "i < length p" using less.prems by simp
    show ?thesis
    proof (cases "p ! i = chr_star")
      case True
      define n where "n = length (takeWhile (\<lambda>c. c = chr_star) (drop (Suc i) p))"
      define i1 where "i1 = Suc i + n"
      have sk: "skip_stars p (Suc i) = Some i1"
        using skip_stars_eq [of "Suc i" p] i by (simp add: i1_def n_def)
      have le: "i1 \<le> length p" using skip_stars_ge [OF sk] by simp
      have dp: "drop i p = chr_star # replicate n chr_star @ drop i1 p"
        using takeWhile_star_split [of "drop (Suc i) p"] i True
        by (simp add: n_def i1_def Cons_nth_drop_Suc [symmetric] add.commute)
      obtain ts' where ts': "parse_glob (drop i1 p) = Some ts'" "ts = GStar # replicate n GStar @ ts'"
        using less.prems(3) unfolding dp parse_glob_star parse_glob_stars by auto
      have gm: "gmatches nc ts (drop j s) = gmatches nc (GStar # ts') (drop j s)"
        unfolding ts'(2) by (rule gmatches_stars)
      have un: "smatch nc p s i j = (if i1 = length p then Some True else smatch_star nc p s i1 j)"
        using True i sk by (subst smatch.simps) (simp add: rdz_nth)
      show ?thesis
      proof (cases "i1 = length p")
        case True
        then have "ts' = []" using ts'(1) by simp
        then show ?thesis using un gm True by (auto intro!: exI [of _ "length s - j"])
      next
        case nf: False
        have "i1 < length p" using nf le by simp
        moreover have "p ! i1 \<noteq> chr_star"
        proof -
          have "hd (dropWhile (\<lambda>c. c = chr_star) (drop (Suc i) p)) \<noteq> chr_star"
            using hd_dropWhile [of "\<lambda>c. c = chr_star" "drop (Suc i) p"] calculation
            by (metis drop_drop dropWhile_eq_drop drop_eq_Nil i1_def linorder_not_le n_def add.commute)
          then show ?thesis using calculation
            by (simp add: dropWhile_eq_drop n_def [symmetric] hd_drop_conv_nth i1_def add.commute)
        qed
        ultimately have "drop i1 p = p ! i1 # drop (Suc i1) p" "p ! i1 \<noteq> chr_star"
          by (simp_all add: Cons_nth_drop_Suc)
        then have nn: "\<not> gmatches nc ts' []"
          using parse_glob_nonstar ts'(1) gmatches_nonstar_Nil by metis
        have "length p - i1 < length p - i" using i i1_def by simp
        then have "smatch nc p s i1 j' = Some (gmatches nc ts' (drop j' s))" if "j' < length s" for j'
          using less.hyps le that ts'(1) by blast
        then have "smatch_star nc p s i1 j = Some (\<exists>k. j \<le> k \<and> k < length s \<and> gmatches nc ts' (drop k s))"
          using less.prems(2) by (intro smatch_star_correct) auto
        moreover have "(\<exists>k. j \<le> k \<and> k < length s \<and> gmatches nc ts' (drop k s)) = gmatches nc (GStar # ts') (drop j s)"
        proof
          assume "\<exists>k. j \<le> k \<and> k < length s \<and> gmatches nc ts' (drop k s)"
          then obtain k where "j \<le> k" "k < length s" "gmatches nc ts' (drop k s)" by blast
          then show "gmatches nc (GStar # ts') (drop j s)" by (auto intro!: exI [of _ "k - j"])
        next
          assume "gmatches nc (GStar # ts') (drop j s)"
          then obtain k where k: "k \<le> length s - j" "gmatches nc ts' (drop (k + j) s)" by auto
          with nn have "k + j < length s" by (metis drop_all linorder_not_le)
          with k show "\<exists>k. j \<le> k \<and> k < length s \<and> gmatches nc ts' (drop k s)" by (auto intro!: exI [of _ "k + j"])
        qed
        ultimately show ?thesis using un nf gm by simp
      qed
    next
      case False
      from smatch_step_correct [OF i False less.prems(2,3), of nc]
      consider (no) "smatch_step nc p s i j = Some (Return False)" "\<not> gmatches nc ts (drop j s)"
        | (go) k ts' where "smatch_step nc p s i j = Some (Next k (Suc j))" "i < k" "k \<le> length p"
          "parse_glob (drop k p) = Some ts'" "gmatches nc ts (drop j s) = gmatches nc ts' (drop (Suc j) s)"
        by blast
      then show ?thesis
      proof cases
        case no
        then show ?thesis using i False by (subst smatch.simps) (simp add: rdz_nth)
      next
        case go
        show ?thesis
        proof (cases "Suc j = length s")
          case True
          have "(k + length (takeWhile (\<lambda>c. c = chr_star) (drop k p)) = length p) = gmatches nc ts' []"
            using gmatches_Nil [OF go(4), of nc] go(3) length_takeWhile_all [of "\<lambda>c. c = chr_star" "drop k p"]
            by auto
          then show ?thesis using i False go True skip_stars_eq [OF go(3)]
            by (subst smatch.simps) (simp add: rdz_nth)
        next
          case nf: False
          then have "smatch nc p s k (Suc j) = Some (gmatches nc ts' (drop (Suc j) s))"
            using less.prems(2) go by (intro less.hyps) auto
          then show ?thesis using i False go nf by (subst smatch.simps) (simp add: rdz_nth)
        qed
      qed
    qed
  qed
qed

lemma chr_eq_nul: "chr_eq nc c chr_nul \<longleftrightarrow> c = chr_nul"
  by (auto simp: chr_eq_def tolower_def)

lemma smatch_empty:
  assumes ts: "parse_glob p = Some ts" and nb: "chr_lbrack \<notin> set p" and nz: "chr_nul \<notin> set p"
  shows "smatch nc p [] 0 0 = Some (gmatches nc ts [])"
proof (cases p)
  case Nil
  then show ?thesis using ts by (subst smatch.simps) auto
next
  case (Cons c q)
  show ?thesis
  proof (cases "c = chr_star")
    case True
    have sk: "skip_stars p (Suc 0) = Some (Suc (length (takeWhile (\<lambda>c. c = chr_star) q)))"
      using skip_stars_eq [of "Suc 0" p] Cons by simp
    have "smatch nc p [] 0 0 =
      Some (Suc (length (takeWhile (\<lambda>c. c = chr_star) q)) = length p)"
      using sk True Cons by (subst smatch.simps, subst smatch_star.simps) (simp add: rdz_nth)
    then show ?thesis
      using gmatches_Nil [OF ts, of nc] length_takeWhile_all [of "\<lambda>c. c = chr_star" q] Cons True by auto
  next
    case False
    define k where "k = (if c = chr_backslash \<and> length p - 0 \<ge> 2 then Suc 0 else 0)"
    have k: "k < length p" using Cons by (auto simp: k_def)
    then have "p ! k \<noteq> chr_nul" using nz by (metis nth_mem)
    then have ne: "\<not> chr_eq nc (p ! k) chr_nul" by (simp add: chr_eq_nul)
    have "c \<noteq> chr_lbrack" using nb Cons by auto
    then have "smatch_step nc p [] 0 0 = Some (Return False)"
      using Cons ne k rdz_nth [OF k] rdz_nth [of 0 p] rdz_end [of "[]"]
      by (auto simp: smatch_step_def k_def split: if_splits)
    then have "smatch nc p [] 0 0 = Some False"
      using Cons False by (subst smatch.simps) (simp add: rdz_nth)
    then show ?thesis using parse_glob_nonstar [OF False] gmatches_nonstar_Nil ts Cons by auto
  qed
qed

lemma stringmatchlen_spec:
  assumes "parse_glob p = Some ts" "s \<noteq> [] \<or> (chr_lbrack \<notin> set p \<and> chr_nul \<notin> set p)"
  shows "stringmatchlen p s nc = Some (gmatches nc ts s)"
  using assms smatch_correct [of 0 p 0 s ts nc] smatch_empty [of p ts nc]
  by (cases "s = []") (auto simp: stringmatchlen_def)

lemma length_dec_int_s64: "length (dec_int (sint (v :: s64))) \<le> 20"
proof -
  have "nat \<bar>sint v\<bar> \<le> 2 ^ 63" using sint_greater_eq [of v] sint_less [of v] by auto
  then have "nat \<bar>sint v\<bar> < 10 ^ Suc 18" by simp
  from length_dec_mono_bound [OF this] show ?thesis by (auto simp: dec_int_def abs_if split: if_splits)
qed

section \<open>Properties\<close>

text \<open>
  C26: \<open>string2ll\<close> accepts a string if and only if it is the canonical decimal representation of
  a 64 bit integer (no leading zeros, no plus sign, no blanks, no minus zero, in range), and
  returns that integer. The overflow checks are exact at both ends of the range.
\<close>

theorem string2ll_exact: "string2ll s = Some v \<longleftrightarrow> s = dec_int (sint v)"
  by (rule string2ll_iff)

text \<open>
  C25: printing and reading back. A buffer of 21 bytes is enough for every 64 bit integer:
  \<open>ll2string\<close> stays inside it, writes a NUL terminated string whose length it returns, and
  \<open>string2ll\<close> recovers the integer from that string.
\<close>

theorem ll2string_string2ll:
  assumes "dstlen = length dst" "21 \<le> dstlen"
  shows "\<exists>dst' n. ll2string dst dstlen v = Some (dst', n) \<and> length dst' = dstlen \<and> n \<le> 20 \<and>
     dst' ! n = chr_nul \<and> drop (Suc n) dst' = drop (Suc n) dst \<and> string2ll (take n dst') = Some v"
proof -
  let ?d = "dec_int (sint v)"
  have l: "length ?d \<le> 20" by (rule length_dec_int_s64)
  have "ll2string dst dstlen v = Some (patch dst 0 (?d @ [chr_nul]), length ?d)"
    using ll2string_spec [of dstlen dst v] assms l by simp
  moreover have "patch dst 0 (?d @ [chr_nul]) = ?d @ chr_nul # drop (Suc (length ?d)) dst"
    by (simp add: patch_def)
  moreover have "string2ll ?d = Some v" using string2ll_iff by blast
  ultimately show ?thesis using l assms by (auto simp: nth_append)
qed

theorem ll2string_string2ll_witness:
  "\<exists>dst' n. ll2string (replicate 21 7) 21 LLONG_MIN = Some (dst', n) \<and> length dst' = 21 \<and> n \<le> 20 \<and>
     dst' ! n = chr_nul \<and> drop (Suc n) dst' = drop (Suc n) (replicate 21 7) \<and> string2ll (take n dst') = Some LLONG_MIN"
  using ll2string_string2ll [of 21 "replicate 21 7" LLONG_MIN] by simp

text \<open>
  a buffer that is too small is left untouched and the length returned is 0, for every size.
\<close>

theorem ll2string_short_buffer:
  assumes "dstlen \<le> length dst" "dstlen \<le> length (dec_int (sint v))"
  shows "ll2string dst dstlen v = Some (dst, 0)"
  using ll2string_spec [OF assms(1), of v] assms(2) by simp

theorem ll2string_short_buffer_witness:
  "ll2string [1, 2, 3] 3 (- 12) = Some ([1, 2, 3], 0)"
  by (rule ll2string_short_buffer) (simp_all add: dec_int_def dec.simps)

text \<open>
  \<open>sdigits10\<close> is the length of the decimal representation, the minus sign included.
\<close>

theorem sdigits10_length: "unat (sdigits10 v) = length (dec_int (sint v))"
proof -
  have m: "unat (digits10 w + 1) = length (dec (unat w)) + 1" for w
    using unat_digits10 [of w] length_dec_u64 [of w] by (simp add: unat_word_ariths)
  show ?thesis
    using m unat_digits10 [of v] unat_neg_sint [of v] unat_pos_sint [of v]
    by (auto simp: sdigits10_def dec_int_def word_sless_alt Let_def)
qed





end
