(* ===== verification/Bytes.thy ===== *)
theory Bytes
  imports Redis_Prelude
begin

text \<open>
  Byte blocks inside a buffer (memcpy, memmove, realloc) and the little endian layout of integers
  that the compact encodings (intset.c, ziplist.c, zipmap.c, rdb.c) share.
\<close>

section \<open>Block access\<close>

definition get_bytes :: "byte list \<Rightarrow> nat \<Rightarrow> nat \<Rightarrow> byte list option" where
  "get_bytes b off n = (if off + n \<le> length b then Some (take n (drop off b)) else None)"

definition put_bytes :: "byte list \<Rightarrow> nat \<Rightarrow> byte list \<Rightarrow> byte list option" where
  "put_bytes b off xs = (if off + length xs \<le> length b then Some (patch b off xs) else None)"

definition memmove :: "byte list \<Rightarrow> nat \<Rightarrow> nat \<Rightarrow> nat \<Rightarrow> byte list option" where
  "memmove b dst src n = do { xs \<leftarrow> get_bytes b src n; put_bytes b dst xs }"

text \<open>
  Fresh memory has unknown contents: the byte the allocator leaves at offset \<open>i\<close> is \<open>garb i\<close>,
  and every theorem holds for every \<open>garb\<close>.
\<close>

definition realloc_bytes :: "(nat \<Rightarrow> byte) \<Rightarrow> byte list \<Rightarrow> nat \<Rightarrow> byte list" where
  "realloc_bytes garb b n = take n b @ map garb [length b..<n]"

section \<open>Little endian integers\<close>

primrec le_bytes :: "nat \<Rightarrow> nat \<Rightarrow> byte list" where
  "le_bytes 0 v = []"
| "le_bytes (Suc k) v = of_nat v # le_bytes k (v div 256)"

primrec le_nat :: "byte list \<Rightarrow> nat" where
  "le_nat [] = 0"
| "le_nat (b # bs) = unat b + 256 * le_nat bs"

lemma length_le_bytes [simp]: "length (le_bytes k v) = k"
  by (induction k arbitrary: v) auto

lemma le_nat_le_bytes: "le_nat (le_bytes k v) = v mod 256 ^ k"
proof (induction k arbitrary: v)
  case (Suc k)
  have "v mod 256 ^ Suc k = v mod 256 + 256 * (v div 256 mod 256 ^ k)"
    by (simp add: mod_mult2_eq)
  then show ?case using Suc by (simp add: unat_of_nat)
qed simp

lemma le_nat_less: "le_nat bs < 256 ^ length bs"
proof (induction bs)
  case (Cons b bs)
  have "unat b < 256" using unat_less_2p [of b] by simp
  moreover have "le_nat bs + 1 \<le> 256 ^ length bs" using Cons by simp
  then have "256 * (le_nat bs + 1) \<le> 256 * 256 ^ length bs" by (rule mult_le_mono2)
  ultimately show ?case by simp
qed simp

lemma le_bytes_le_nat [simp]: "le_bytes (length bs) (le_nat bs) = bs"
proof (induction bs)
  case (Cons b bs)
  have "unat b < 256" using unat_less_2p [of b] by simp
  then have "(unat b + 256 * le_nat bs) div 256 = le_nat bs" by simp
  moreover have "(of_nat (unat b + 256 * le_nat bs) :: byte) = b"
  proof -
    have z: "(256 :: byte) = 0" by (simp add: word_unat_eq_iff)
    have "(of_nat (unat b + 256 * le_nat bs) :: byte) = b + 256 * of_nat (le_nat bs)" by simp
    then show ?thesis unfolding z by simp
  qed
  ultimately show ?case using Cons by simp
qed simp

lemma le_bytes_inj: "v < 256 ^ k \<Longrightarrow> w < 256 ^ k \<Longrightarrow> le_bytes k v = le_bytes k w \<Longrightarrow> v = w"
  by (metis le_nat_le_bytes mod_less)

section \<open>Laws of block access\<close>

lemma get_bytes_append: "get_bytes (xs @ ys @ zs) (length xs) (length ys) = Some ys"
  by (simp add: get_bytes_def)

lemma put_bytes_append: "length ys = length ys' \<Longrightarrow> put_bytes (xs @ ys @ zs) (length xs) ys' = Some (xs @ ys' @ zs)"
  by (simp add: put_bytes_def patch_def)

lemma get_bytes_length: "get_bytes b off n = Some xs \<Longrightarrow> length xs = n"
  by (auto simp: get_bytes_def split: if_splits)

lemma put_bytes_length: "put_bytes b off xs = Some b' \<Longrightarrow> length b' = length b"
  by (auto simp: put_bytes_def split: if_splits)

lemma length_realloc_bytes [simp]: "length (realloc_bytes garb b n) = n"
  by (simp add: realloc_bytes_def)

lemma realloc_bytes_grow: "length b \<le> n \<Longrightarrow> take (length b) (realloc_bytes garb b n) = b"
  by (simp add: realloc_bytes_def)

lemma realloc_bytes_shrink: "n \<le> length b \<Longrightarrow> realloc_bytes garb b n = take n b"
  by (simp add: realloc_bytes_def)

end
