(* ===== verification/Set_Interface.thy ===== *)
theory Set_Interface
  imports Redis_Prelude
begin

text \<open>
  The contract of a mutable set of integers: what a client of intset.c may rely on. The state is
  changed by \<open>add\<close> and \<open>remove\<close>, each of which also returns whether it changed the set; a state has
  a capacity, below which an insertion is guaranteed to succeed. The lemma proved here carries the
  contract of the single operations to every sequence of them.
\<close>

datatype set_op = SAdd s64 | SRem s64 | SFind s64

primrec set_run ::
  "('s \<Rightarrow> s64 \<Rightarrow> ('s \<times> bool) option) \<Rightarrow> ('s \<Rightarrow> s64 \<Rightarrow> ('s \<times> bool) option) \<Rightarrow> ('s \<Rightarrow> s64 \<Rightarrow> bool option) \<Rightarrow>
     's \<Rightarrow> set_op list \<Rightarrow> ('s \<times> bool list) option" where
  "set_run add remove contains s [] = Some (s, [])"
| "set_run add remove contains s (c # cs) = do {
     (s, r) \<leftarrow> (case c of SAdd v \<Rightarrow> add s v | SRem v \<Rightarrow> remove s v | SFind v \<Rightarrow> map_option (\<lambda>r. (s, r)) (contains s v));
     (s, rs) \<leftarrow> set_run add remove contains s cs;
     Some (s, r # rs)
   }"

text \<open>The same sequence on a mathematical set.\<close>

fun spec_run :: "int set \<Rightarrow> set_op list \<Rightarrow> int set \<times> bool list" where
  "spec_run A [] = (A, [])"
| "spec_run A (SAdd v # cs) = (let (B, rs) = spec_run (insert (sint v) A) cs in (B, (sint v \<notin> A) # rs))"
| "spec_run A (SRem v # cs) = (let (B, rs) = spec_run (A - {sint v}) cs in (B, (sint v \<in> A) # rs))"
| "spec_run A (SFind v # cs) = (let (B, rs) = spec_run A cs in (B, (sint v \<in> A) # rs))"

locale bounded_int_set =
  fixes invar :: "'s \<Rightarrow> bool"
    and elems :: "'s \<Rightarrow> int set"
    and capacity :: nat
    and add :: "'s \<Rightarrow> s64 \<Rightarrow> ('s \<times> bool) option"
    and remove :: "'s \<Rightarrow> s64 \<Rightarrow> ('s \<times> bool) option"
    and contains :: "'s \<Rightarrow> s64 \<Rightarrow> bool option"
  assumes finite_elems: "invar s \<Longrightarrow> finite (elems s)"
    and add_law: "invar s \<Longrightarrow> card (elems s) < capacity \<Longrightarrow>
      \<exists>s'. add s v = Some (s', sint v \<notin> elems s) \<and> invar s' \<and> elems s' = insert (sint v) (elems s)"
    and remove_law: "invar s \<Longrightarrow>
      \<exists>s'. remove s v = Some (s', sint v \<in> elems s) \<and> invar s' \<and> elems s' = elems s - {sint v}"
    and find_law: "invar s \<Longrightarrow> contains s v = Some (sint v \<in> elems s)"
begin

lemma run_refines:
  assumes "invar s" "card (elems s) + length cs \<le> capacity"
  shows "\<exists>s'. set_run add remove contains s cs = Some (s', snd (spec_run (elems s) cs)) \<and> invar s' \<and> elems s' = fst (spec_run (elems s) cs)"
  using assms
proof (induction cs arbitrary: s)
  case (Cons c cs)
  show ?case
  proof (cases c)
    case (SAdd v)
    obtain s1 where s1: "add s v = Some (s1, sint v \<notin> elems s)" "invar s1" "elems s1 = insert (sint v) (elems s)"
      using add_law Cons.prems by fastforce
    have "card (elems s1) \<le> Suc (card (elems s))" unfolding s1(3) by (rule card_insert_le_m1) auto
    then have "card (elems s1) + length cs \<le> capacity" using Cons.prems by simp
    from Cons.IH [OF s1(2) this] show ?thesis using SAdd s1 by (auto simp: Let_def split: prod.splits)
  next
    case (SRem v)
    obtain s1 where s1: "remove s v = Some (s1, sint v \<in> elems s)" "invar s1" "elems s1 = elems s - {sint v}"
      using remove_law Cons.prems by fastforce
    have "card (elems s1) \<le> card (elems s)" unfolding s1(3)
      using finite_elems [OF Cons.prems(1)] by (intro card_mono) auto
    then have "card (elems s1) + length cs \<le> capacity" using Cons.prems by simp
    from Cons.IH [OF s1(2) this] show ?thesis using SRem s1 by (auto simp: Let_def split: prod.splits)
  next
    case (SFind v)
    have "card (elems s) + length cs \<le> capacity" using Cons.prems by simp
    from Cons.IH [OF Cons.prems(1) this] show ?thesis
      using SFind find_law [OF Cons.prems(1)] by (auto simp: Let_def split: prod.splits)
  qed
qed simp

end

end
