(* ===== verification/Intset.thy ===== *)
theory Intset
  imports Bytes Set_Interface
begin

text \<open>
  intset.c: a sorted array of integers in one block of memory, all elements in the narrowest of
  three encodings. The blob is modelled to the byte; the accesses through casted pointers are reads
  and writes of little endian blocks at \<open>pos * size\<close> (the \<open>memrev\<close> macros make the layout little endian
  on every host). The header fields are the record fields \<open>encoding\<close> and \<open>len\<close>.
\<close>

section \<open>Model\<close>

record intset =
  encoding :: u32
  len :: u32
  contents :: "byte list"

abbreviation INTSET_ENC_INT16 :: u32 where "INTSET_ENC_INT16 \<equiv> 2"
abbreviation INTSET_ENC_INT32 :: u32 where "INTSET_ENC_INT32 \<equiv> 4"
abbreviation INTSET_ENC_INT64 :: u32 where "INTSET_ENC_INT64 \<equiv> 8"

definition intsetValueEncoding :: "s64 \<Rightarrow> u32" where
  "intsetValueEncoding v =
     (if sint v < - (2 ^ 31) \<or> sint v > 2 ^ 31 - 1 then INTSET_ENC_INT64
      else if sint v < - (2 ^ 15) \<or> sint v > 2 ^ 15 - 1 then INTSET_ENC_INT32
      else INTSET_ENC_INT16)"

definition intsetGetEncoded :: "intset \<Rightarrow> nat \<Rightarrow> u32 \<Rightarrow> s64 option" where
  "intsetGetEncoded is pos enc =
     (if enc = INTSET_ENC_INT64 then do {
        bs \<leftarrow> get_bytes (contents is) (pos * 8) 8;
        Some (of_nat (le_nat bs))
      } else if enc = INTSET_ENC_INT32 then do {
        bs \<leftarrow> get_bytes (contents is) (pos * 4) 4;
        Some (scast (of_nat (le_nat bs) :: 32 word))
      } else do {
        bs \<leftarrow> get_bytes (contents is) (pos * 2) 2;
        Some (scast (of_nat (le_nat bs) :: 16 word))
      })"

definition intsetGet_pos :: "intset \<Rightarrow> nat \<Rightarrow> s64 option" where
  "intsetGet_pos is pos = intsetGetEncoded is pos (encoding is)"

definition intsetSet :: "intset \<Rightarrow> nat \<Rightarrow> s64 \<Rightarrow> intset option" where
  "intsetSet is pos val =
     (if encoding is = INTSET_ENC_INT64 then do {
        b \<leftarrow> put_bytes (contents is) (pos * 8) (le_bytes 8 (unat val));
        Some (is\<lparr>contents := b\<rparr>)
      } else if encoding is = INTSET_ENC_INT32 then do {
        b \<leftarrow> put_bytes (contents is) (pos * 4) (le_bytes 4 (unat (ucast val :: 32 word)));
        Some (is\<lparr>contents := b\<rparr>)
      } else do {
        b \<leftarrow> put_bytes (contents is) (pos * 2) (le_bytes 2 (unat (ucast val :: 16 word)));
        Some (is\<lparr>contents := b\<rparr>)
      })"

definition intsetNew :: intset where
  "intsetNew = \<lparr>encoding = INTSET_ENC_INT16, len = 0, contents = []\<rparr>"

definition intsetResize :: "(nat \<Rightarrow> byte) \<Rightarrow> intset \<Rightarrow> u32 \<Rightarrow> intset" where
  "intsetResize garb is n = (
     let size = n * encoding is
     in is\<lparr>contents := realloc_bytes garb (contents is) (unat size)\<rparr>)"

function intsetSearch_loop ::
    "intset \<Rightarrow> s64 \<Rightarrow> int \<Rightarrow> int \<Rightarrow> int \<Rightarrow> s64 \<Rightarrow> (int \<times> int \<times> s64) option" where
  "intsetSearch_loop is val lo hi mid cur =
     (if hi \<ge> lo then do {
        let mid = (lo + hi) div 2;
        cur \<leftarrow> intsetGet_pos is (nat mid);
        if cur <s val then intsetSearch_loop is val (mid + 1) hi mid cur
        else if val <s cur then intsetSearch_loop is val lo (mid - 1) mid cur
        else Some (lo, mid, cur)
      } else Some (lo, mid, cur))"
  by pat_completeness auto
termination
  by (relation "measure (\<lambda>(is, v, lo, hi, mid, cur). nat (hi + 1 - lo))") auto

declare intsetSearch_loop.simps [simp del]

definition intsetSearch :: "intset \<Rightarrow> s64 \<Rightarrow> (bool \<times> nat) option" where
  "intsetSearch is val =
     (if len is = 0 then Some (False, 0)
      else do {
        last \<leftarrow> intsetGet_pos is (unat (len is - 1));
        if last <s val then Some (False, unat (len is))
        else do {
          first \<leftarrow> intsetGet_pos is 0;
          if val <s first then Some (False, 0)
          else do {
            (lo, mid, cur) \<leftarrow> intsetSearch_loop is val 0 (sint (len is - 1)) (- 1) (- 1);
            if val = cur then Some (True, nat mid) else Some (False, nat lo)
          }
        }
      })"

primrec intsetUpgrade_loop :: "intset \<Rightarrow> nat \<Rightarrow> nat \<Rightarrow> u32 \<Rightarrow> intset option" where
  "intsetUpgrade_loop is 0 prepend curenc = Some is"
| "intsetUpgrade_loop is (Suc k) prepend curenc = do {
     v \<leftarrow> intsetGetEncoded is k curenc;
     is \<leftarrow> intsetSet is (k + prepend) v;
     intsetUpgrade_loop is k prepend curenc
   }"

definition intsetUpgradeAndAdd :: "(nat \<Rightarrow> byte) \<Rightarrow> intset \<Rightarrow> s64 \<Rightarrow> intset option" where
  "intsetUpgradeAndAdd garb is val = do {
     let curenc = encoding is;
     let newenc = intsetValueEncoding val;
     let n = unat (len is);
     let prepend = (if val <s 0 then 1 else 0);
     let is = is\<lparr>encoding := newenc\<rparr>;
     let is = intsetResize garb is (len is + 1);
     is \<leftarrow> intsetUpgrade_loop is n prepend curenc;
     is \<leftarrow> (if prepend = 1 then intsetSet is 0 val else intsetSet is (unat (len is)) val);
     Some (is\<lparr>len := len is + 1\<rparr>)
   }"

definition intsetMoveTail :: "intset \<Rightarrow> u32 \<Rightarrow> u32 \<Rightarrow> intset option" where
  "intsetMoveTail is from to = do {
     let bytes = len is - from;
     let sz = (if encoding is = INTSET_ENC_INT64 then 8
               else if encoding is = INTSET_ENC_INT32 then 4 else 2);
     b \<leftarrow> memmove (contents is) (unat to * unat sz) (unat from * unat sz) (unat (bytes * sz));
     Some (is\<lparr>contents := b\<rparr>)
   }"

definition intsetAdd :: "(nat \<Rightarrow> byte) \<Rightarrow> intset \<Rightarrow> s64 \<Rightarrow> (intset \<times> bool) option" where
  "intsetAdd garb is val = (
     let valenc = intsetValueEncoding val
     in if valenc > encoding is then
          map_option (\<lambda>is. (is, True)) (intsetUpgradeAndAdd garb is val)
        else do {
          (found, pos) \<leftarrow> intsetSearch is val;
          if found then Some (is, False)
          else do {
            let is = intsetResize garb is (len is + 1);
            is \<leftarrow> (if pos < unat (len is) then intsetMoveTail is (of_nat pos) (of_nat pos + 1) else Some is);
            is \<leftarrow> intsetSet is pos val;
            Some (is\<lparr>len := len is + 1\<rparr>, True)
          }
        })"

definition intsetRemove :: "(nat \<Rightarrow> byte) \<Rightarrow> intset \<Rightarrow> s64 \<Rightarrow> (intset \<times> bool) option" where
  "intsetRemove garb is val = (
     let valenc = intsetValueEncoding val
     in if valenc \<le> encoding is then do {
          (found, pos) \<leftarrow> intsetSearch is val;
          if found then do {
            let n = len is;
            is \<leftarrow> (if pos < unat (n - 1) then intsetMoveTail is (of_nat pos + 1) (of_nat pos) else Some is);
            let is = intsetResize garb is (n - 1);
            Some (is\<lparr>len := n - 1\<rparr>, True)
          } else Some (is, False)
        } else Some (is, False))"

definition intsetFind :: "intset \<Rightarrow> s64 \<Rightarrow> bool option" where
  "intsetFind is val = (
     let valenc = intsetValueEncoding val
     in if valenc \<le> encoding is then map_option fst (intsetSearch is val) else Some False)"

definition intsetRandom :: "nat \<Rightarrow> intset \<Rightarrow> s64 option" where
  "intsetRandom rand is = (if len is = 0 then None else intsetGet_pos is (rand mod unat (len is)))"

definition intsetGet :: "intset \<Rightarrow> u32 \<Rightarrow> s64 option option" where
  "intsetGet is pos = (if pos < len is then map_option Some (intsetGet_pos is (unat pos)) else Some None)"

definition intsetLen :: "intset \<Rightarrow> u32" where
  "intsetLen is = len is"

definition intsetBlobLen :: "intset \<Rightarrow> nat" where
  "intsetBlobLen is = 8 + unat (len is * encoding is)"

section \<open>Representation: the sorted list a blob stands for\<close>

definition fits :: "nat \<Rightarrow> int \<Rightarrow> bool" where
  "fits e v \<longleftrightarrow> - (2 ^ (8 * e - 1)) \<le> v \<and> v < 2 ^ (8 * e - 1)"

definition ebytes :: "nat \<Rightarrow> int \<Rightarrow> byte list" where
  "ebytes e v = le_bytes e (nat (v mod 256 ^ e))"

definition blk :: "nat \<Rightarrow> int list \<Rightarrow> byte list" where
  "blk e vs = concat (map (ebytes e) vs)"

definition enc_ok :: "u32 \<Rightarrow> bool" where
  "enc_ok e \<longleftrightarrow> e = INTSET_ENC_INT16 \<or> e = INTSET_ENC_INT32 \<or> e = INTSET_ENC_INT64"

definition intset_rep :: "intset \<Rightarrow> int list \<Rightarrow> bool" where
  "intset_rep is vs \<longleftrightarrow> enc_ok (encoding is) \<and> unat (len is) = length vs \<and>
     contents is = blk (unat (encoding is)) vs \<and> (\<forall>v \<in> set vs. fits (unat (encoding is)) v)"

lemma length_ebytes [simp]: "length (ebytes e v) = e"
  by (simp add: ebytes_def)

lemma length_blk [simp]: "length (blk e vs) = length vs * e"
  by (induction vs) (auto simp: blk_def)

lemma blk_simps [simp]: "blk e [] = []" "blk e (v # vs) = ebytes e v @ blk e vs" "blk e (xs @ ys) = blk e xs @ blk e ys"
  by (simp_all add: blk_def)

lemma get_bytes_blk: "k < length vs \<Longrightarrow> get_bytes (blk e vs @ r) (k * e) e = Some (ebytes e (vs ! k))"
proof -
  assume "k < length vs"
  then have "blk e vs = blk e (take k vs) @ ebytes e (vs ! k) @ blk e (drop (Suc k) vs)"
    by (metis blk_simps(2,3) id_take_nth_drop)
  then show ?thesis
    using get_bytes_append [of "blk e (take k vs)" "ebytes e (vs ! k)" "blk e (drop (Suc k) vs) @ r"] \<open>k < length vs\<close>
    by simp
qed

lemma of_nat_mod_word: "(of_nat (nat (v mod 2 ^ LENGTH('a))) :: 'a::len word) = word_of_int v"
proof -
  have "(of_nat (nat (v mod 2 ^ LENGTH('a))) :: 'a word) = word_of_int (v mod 2 ^ LENGTH('a))"
    by (metis of_int_of_nat_eq nat_0_le pos_mod_sign zero_less_numeral zero_less_power)
  also have "\<dots> = word_of_int v" by (simp add: word_uint_eq_iff uint_word_of_int)
  finally show ?thesis .
qed

lemma intsetGetEncoded_rep:
  assumes "get_bytes (contents is) (pos * unat enc) (unat enc) = Some (ebytes (unat enc) v)"
    and "enc_ok enc" "fits (unat enc) v"
  shows "intsetGetEncoded is pos enc = Some (word_of_int v)"
proof -
  have l: "le_nat (ebytes e v) = nat (v mod 256 ^ e)" for e
    by (simp add: ebytes_def le_nat_le_bytes nat_mod_distrib)
  have w16: "(of_nat (le_nat (ebytes 2 v)) :: 16 word) = word_of_int v"
    using of_nat_mod_word [where 'a = 16, of v] unfolding l by simp
  have w32: "(of_nat (le_nat (ebytes 4 v)) :: 32 word) = word_of_int v"
    using of_nat_mod_word [where 'a = 32, of v] unfolding l by simp
  have w64: "(of_nat (le_nat (ebytes 8 v)) :: 64 word) = word_of_int v"
    using of_nat_mod_word [where 'a = 64, of v] unfolding l by simp
  consider "enc = 2" | "enc = 4" | "enc = 8" using assms(2) by (auto simp: enc_ok_def)
  then show ?thesis
  proof cases
    case 1
    have "sint (word_of_int v :: 16 word) = v"
      using assms(3) 1 by (simp add: fits_def sint_sbintrunc' signed_take_bit_int_eq_self)
    then have "scast (word_of_int v :: 16 word) = (word_of_int v :: s64)" by (simp only: scast_eq)
    then show ?thesis using assms(1) 1 by (simp add: intsetGetEncoded_def w16)
  next
    case 2
    have "sint (word_of_int v :: 32 word) = v"
      using assms(3) 2 by (simp add: fits_def sint_sbintrunc' signed_take_bit_int_eq_self)
    then have "scast (word_of_int v :: 32 word) = (word_of_int v :: s64)" by (simp only: scast_eq)
    then show ?thesis using assms(1) 2 by (simp add: intsetGetEncoded_def w32)
  next
    case 3
    then show ?thesis using assms(1) by (simp add: intsetGetEncoded_def w64)
  qed
qed

lemma unat_ucast_sint:
  assumes "LENGTH('a::len) \<le> 64"
  shows "unat (ucast (v :: s64) :: 'a word) = nat (sint v mod 2 ^ LENGTH('a))"
proof -
  have "uint (ucast v :: 'a word) = uint v mod 2 ^ LENGTH('a)"
    by (simp add: unsigned_ucast_eq take_bit_eq_mod)
  also have "\<dots> = sint v mod 2 ^ LENGTH('a)"
    unfolding uint_sint_u64 by (rule mod_mod_cancel) (rule le_imp_power_dvd [OF assms])
  finally show ?thesis by (simp add: unat_eq_nat_uint)
qed

lemma intsetSet_rep:
  assumes "enc_ok (encoding is)"
  shows "intsetSet is pos val = map_option (\<lambda>b. is\<lparr>contents := b\<rparr>)
     (put_bytes (contents is) (pos * unat (encoding is)) (ebytes (unat (encoding is)) (sint val)))"
proof -
  have b: "do { b \<leftarrow> m; Some (is\<lparr>contents := b\<rparr>) } = map_option (\<lambda>b. is\<lparr>contents := b\<rparr>) m" for m
    by (cases m) auto
  have "unat val = nat (sint val mod 2 ^ 64)"
    using uint_sint_u64 [of val] by (simp add: unat_eq_nat_uint)
  then show ?thesis
    using assms unat_ucast_sint [where 'a = 32, of val] unat_ucast_sint [where 'a = 16, of val]
    by (auto simp: enc_ok_def intsetSet_def ebytes_def b)
qed

lemma fits_s64: "fits 8 (sint (v :: s64))"
  using sint_greater_eq [of v] sint_less [of v] by (simp add: fits_def)

lemma fits_mono: "fits e v \<Longrightarrow> 0 < e \<Longrightarrow> e \<le> e' \<Longrightarrow> fits e' v"
proof -
  assume "fits e v" "0 < e" "e \<le> e'"
  moreover have "(2 :: int) ^ (8 * e - 1) \<le> 2 ^ (8 * e' - 1)" using \<open>e \<le> e'\<close> by (intro power_increasing) auto
  ultimately show ?thesis unfolding fits_def by linarith
qed

lemma fits_sint_word: "fits 8 v \<Longrightarrow> sint (word_of_int v :: s64) = v"
  by (rule sint_of_int_s64_range) (auto simp: fits_def)

lemma enc_ok_unat: "enc_ok e \<Longrightarrow> 2 \<le> unat e \<and> unat e \<le> 8"
  by (auto simp: enc_ok_def)

lemma valueEncoding_ok: "enc_ok (intsetValueEncoding v)"
  by (auto simp: intsetValueEncoding_def enc_ok_def)

lemma valueEncoding_fits: "enc_ok e \<Longrightarrow> intsetValueEncoding v \<le> e \<longleftrightarrow> fits (unat e) (sint v)"
  using fits_s64 [of v] by (auto simp: intsetValueEncoding_def enc_ok_def fits_def word_le_nat_alt)

lemma rep_get:
  assumes "intset_rep is vs" "k < length vs"
  shows "intsetGet_pos is k = Some (word_of_int (vs ! k))" and "sint (word_of_int (vs ! k) :: s64) = vs ! k"
proof -
  have f: "fits (unat (encoding is)) (vs ! k)" using assms by (auto simp: intset_rep_def)
  show "intsetGet_pos is k = Some (word_of_int (vs ! k))"
    using assms f get_bytes_blk [OF assms(2), of "unat (encoding is)" "[]"]
    by (auto simp: intsetGet_pos_def intset_rep_def intro!: intsetGetEncoded_rep)
  have "fits 8 (vs ! k)" using f assms enc_ok_unat [of "encoding is"]
    by (intro fits_mono [OF f]) (auto simp: intset_rep_def)
  then show "sint (word_of_int (vs ! k) :: s64) = vs ! k" by (rule fits_sint_word)
qed

text \<open>Binary search over a strictly sorted representation.\<close>

lemma intsetSearch_loop_spec:
  assumes "intset_rep is vs" "sorted_wrt (<) vs"
  shows "0 \<le> lo \<Longrightarrow> lo \<le> hi + 1 \<Longrightarrow> hi < int (length vs) \<Longrightarrow> (lo \<le> hi \<or> cur \<noteq> val) \<Longrightarrow>
     \<forall>i < length vs. int i < lo \<longrightarrow> vs ! i < sint val \<Longrightarrow>
     \<forall>i < length vs. hi < int i \<longrightarrow> sint val < vs ! i \<Longrightarrow>
     \<exists>lo' mid' cur'. intsetSearch_loop is val lo hi mid cur = Some (lo', mid', cur') \<and>
       (if cur' = val then 0 \<le> mid' \<and> nat mid' < length vs \<and> vs ! nat mid' = sint val
        else 0 \<le> lo' \<and> lo' \<le> int (length vs) \<and>
          (\<forall>i < length vs. if int i < lo' then vs ! i < sint val else sint val < vs ! i))"
proof (induction "nat (hi + 1 - lo)" arbitrary: lo hi mid cur rule: less_induct)
  case less
  show ?case
  proof (cases "hi \<ge> lo")
    case False
    then have "intsetSearch_loop is val lo hi mid cur = Some (lo, mid, cur)"
      by (simp add: intsetSearch_loop.simps)
    then show ?thesis using less.prems False by auto
  next
    case True
    define m where "m = (lo + hi) div 2"
    have m: "lo \<le> m" "m \<le> hi" "nat m < length vs" using True less.prems by (auto simp: m_def)
    note g = rep_get [OF assms(1) m(3)]
    define c :: s64 where "c = word_of_int (vs ! nat m)"
    have sc: "sint c = vs ! nat m" using g(2) by (simp add: c_def)
    have srt: "\<And>i j. i < j \<Longrightarrow> j < length vs \<Longrightarrow> vs ! i < vs ! j"
      using assms(2) by (simp add: sorted_wrt_iff_nth_less)
    consider (lt) "vs ! nat m < sint val" | (gt) "sint val < vs ! nat m" | (eq) "sint val = vs ! nat m"
      by linarith
    then show ?thesis
    proof cases
      case lt
      then have st: "intsetSearch_loop is val lo hi mid cur = intsetSearch_loop is val (m + 1) hi m c"
        using True g(1) sc by (simp add: intsetSearch_loop.simps [of "is" val lo] m_def [symmetric] word_sless_alt c_def)
      have "\<forall>i < length vs. int i < m + 1 \<longrightarrow> vs ! i < sint val"
      proof (intro allI impI)
        fix i assume "i < length vs" "int i < m + 1"
        then have "i = nat m \<or> i < nat m" using m less.prems(1) by auto
        then show "vs ! i < sint val" using lt srt [of i "nat m"] m(3) by auto
      qed
      moreover have "c \<noteq> val" using lt sc by auto
      ultimately show ?thesis unfolding st using less.prems m by (intro less.hyps) auto
    next
      case gt
      then have st: "intsetSearch_loop is val lo hi mid cur = intsetSearch_loop is val lo (m - 1) m c"
        using True g(1) sc by (simp add: intsetSearch_loop.simps [of "is" val lo] m_def [symmetric] word_sless_alt c_def)
      have "\<forall>i < length vs. m - 1 < int i \<longrightarrow> sint val < vs ! i"
      proof (intro allI impI)
        fix i assume "i < length vs" "m - 1 < int i"
        then have "i = nat m \<or> nat m < i" using m less.prems(1) by auto
        then show "sint val < vs ! i" using gt srt [of "nat m" i] \<open>i < length vs\<close> by auto
      qed
      moreover have "c \<noteq> val" using gt sc by auto
      ultimately show ?thesis unfolding st using less.prems m by (intro less.hyps) auto
    next
      case eq
      then have "c = val" using sc sint_inj [of c val] by simp
      then have "intsetSearch_loop is val lo hi mid cur = Some (lo, m, c)"
        using True g(1) eq sc by (simp add: intsetSearch_loop.simps [of "is" val lo] m_def [symmetric] word_sless_alt c_def [symmetric])
      then show ?thesis using \<open>c = val\<close> m eq less.prems(1) by auto
    qed
  qed
qed

lemma unat_of_nat_u32: "n < 2 ^ 32 \<Longrightarrow> unat (of_nat n :: u32) = n"
  by (simp add: unat_of_nat)

lemma take_length_append: "take (length xs) (xs @ ys) = xs"
  by simp

lemma unat_pred: "0 < unat (n :: u32) \<Longrightarrow> unat (n - 1) = unat n - 1"
  by (simp add: unat_sub word_le_nat_alt)

lemma sint_pred_u32:
  assumes "(n :: u32) \<noteq> 0" "unat n < 2 ^ 31"
  shows "sint (n - 1) = int (unat n) - 1"
proof -
  have p: "0 < unat n" using assms(1) by (simp add: unat_gt_0)
  have "unat (n - 1) = unat n - 1" by (rule unat_pred [OF p])
  then have u: "uint (n - 1) = int (unat n) - 1" using p by (simp only: uint_nat)
  have "int (unat n) < int (2 ^ 31)" using assms(2) by (rule of_nat_less_iff [THEN iffD2])
  then have l: "uint (n - 1) < 2 ^ 31" using u by simp
  have "- (2 ^ 31) \<le> uint (n - 1)" by (rule order_trans [of _ 0]) simp_all
  then have "signed_take_bit 31 (uint (n - 1)) = uint (n - 1)" using l by (rule signed_take_bit_int_eq_self)
  then show ?thesis using u by (simp add: sint_uint)
qed

lemma intsetSearch_spec:
  assumes "intset_rep is vs" "sorted_wrt (<) vs" and small: "length vs < 2 ^ 31"
  shows "\<exists>p. intsetSearch is v = Some (sint v \<in> set vs, p) \<and>
     (if sint v \<in> set vs then p < length vs \<and> vs ! p = sint v
      else p \<le> length vs \<and> (\<forall>x \<in> set (take p vs). x < sint v) \<and> (\<forall>x \<in> set (drop p vs). sint v < x))"
proof -
  have ln: "unat (len is) = length vs" using assms by (simp add: intset_rep_def)
  have srt: "\<And>i j. i < j \<Longrightarrow> j < length vs \<Longrightarrow> vs ! i < vs ! j"
    using assms(2) by (simp add: sorted_wrt_iff_nth_less)
  show ?thesis
  proof (cases "vs = []")
    case True
    then show ?thesis using ln by (simp add: intsetSearch_def unat_eq_0)
  next
    case False
    then have nz: "len is \<noteq> 0" "0 < length vs" using ln by auto
    have lst: "intsetGet_pos is (unat (len is - 1)) = Some (word_of_int (last vs))"
      "sint (word_of_int (last vs) :: s64) = last vs"
      using rep_get [OF assms(1), of "length vs - 1"] nz ln False by (auto simp: unat_pred last_conv_nth)
    have fst: "intsetGet_pos is 0 = Some (word_of_int (hd vs))" "sint (word_of_int (hd vs) :: s64) = hd vs"
      using rep_get [OF assms(1), of 0] nz False by (auto simp: hd_conv_nth)
    have le_last: "x \<le> last vs" if x: "x \<in> set vs" for x
    proof -
      obtain i where i: "i < length vs" "vs ! i = x" using x by (auto simp: in_set_conv_nth)
      show ?thesis
      proof (cases "i = length vs - 1")
        case True then show ?thesis using i False by (simp add: last_conv_nth)
      next
        case ne: False
        then have "vs ! i < vs ! (length vs - 1)" using i by (intro srt) auto
        then show ?thesis using i False by (simp add: last_conv_nth)
      qed
    qed
    have ge_hd: "hd vs \<le> x" if x: "x \<in> set vs" for x
    proof -
      obtain i where i: "i < length vs" "vs ! i = x" using x by (auto simp: in_set_conv_nth)
      then show ?thesis using srt [of 0 i] False by (cases "i = 0") (auto simp: hd_conv_nth)
    qed
    consider (hi) "last vs < sint v" | (lo) "\<not> last vs < sint v" "sint v < hd vs"
      | (mid) "\<not> last vs < sint v" "\<not> sint v < hd vs" by blast
    then show ?thesis
    proof cases
      case hi
      then have "sint v \<notin> set vs" using le_last by fastforce
      moreover have "\<forall>x \<in> set vs. x < sint v" using le_last hi by fastforce
      ultimately show ?thesis using hi lst nz ln by (simp add: intsetSearch_def word_sless_alt)
    next
      case lo
      then have "sint v \<notin> set vs" using ge_hd by fastforce
      moreover have "\<forall>x \<in> set vs. sint v < x" using ge_hd lo by fastforce
      ultimately show ?thesis using lo lst fst nz ln by (simp add: intsetSearch_def word_sless_alt)
    next
      case mid
      have "0 \<le> int (length vs) - 1" using nz by linarith
      with intsetSearch_loop_spec [OF assms(1,2), of 0 "int (length vs) - 1" "-1" v "-1"]
      obtain lo' mid' cur' where l: "intsetSearch_loop is v 0 (int (length vs) - 1) (- 1) (- 1) = Some (lo', mid', cur')"
        and r: "if cur' = v then 0 \<le> mid' \<and> nat mid' < length vs \<and> vs ! nat mid' = sint v
          else 0 \<le> lo' \<and> lo' \<le> int (length vs) \<and>
            (\<forall>i < length vs. if int i < lo' then vs ! i < sint v else sint v < vs ! i)"
        by force
      have un: "intsetSearch is v = (if v = cur' then Some (True, nat mid') else Some (False, nat lo'))"
        using mid lst fst nz ln l sint_pred_u32 [OF nz(1)] small by (simp add: intsetSearch_def word_sless_alt)
      show ?thesis
      proof (cases "cur' = v")
        case True
        then have "sint v \<in> set vs" using r by (metis nth_mem)
        then show ?thesis using un r True by auto
      next
        case False
        then have r': "0 \<le> lo'" "lo' \<le> int (length vs)"
          "\<forall>i < length vs. if int i < lo' then vs ! i < sint v else sint v < vs ! i" using r by auto
        have "sint v \<notin> set vs"
        proof
          assume "sint v \<in> set vs"
          then obtain i where "i < length vs" "vs ! i = sint v" by (metis in_set_conv_nth)
          then show False using r'(3) by (auto split: if_splits)
        qed
        moreover have "\<forall>x \<in> set (take (nat lo') vs). x < sint v"
          using r' by (auto simp: in_set_conv_nth split: if_splits)
        moreover have "\<forall>x \<in> set (drop (nat lo') vs). sint v < x"
        proof
          fix x assume "x \<in> set (drop (nat lo') vs)"
          then obtain i where i: "i < length vs - nat lo'" "x = vs ! (nat lo' + i)" by (auto simp: in_set_conv_nth)
          then have "nat lo' + i < length vs" "\<not> int (nat lo' + i) < lo'" by auto
          then show "sint v < x" using r'(3) i by auto
        qed
        ultimately show ?thesis using un r' False by auto
      qed
    qed
  qed
qed

lemma put_bytes_at:
  "off + length ys \<le> length b \<Longrightarrow> put_bytes b off ys = Some (take off b @ ys @ drop (off + length ys) b)"
  by (simp add: put_bytes_def patch_def)

lemma intsetUpgrade_loop_spec:
  assumes "enc_ok e" "enc_ok (encoding is)" "unat e \<le> unat (encoding is)" "p \<le> 1"
    and "\<forall>v \<in> set vs. fits (unat e) v"
    and "length (contents is) = (length vs + 1) * unat (encoding is)"
  shows "k \<le> length vs \<Longrightarrow>
     take (k * unat e) (contents is) = blk (unat e) (take k vs) \<Longrightarrow>
     drop ((k + p) * unat (encoding is)) (contents is) = blk (unat (encoding is)) (drop k vs) @ r \<Longrightarrow>
     length (contents is) = (length vs + 1) * unat (encoding is) \<Longrightarrow> 
     \<exists>c. intsetUpgrade_loop is k p e = Some (is\<lparr>contents := c\<rparr>) \<and> length c = length (contents is) \<and>
       drop (p * unat (encoding is)) c = blk (unat (encoding is)) vs @ r"
  using assms
proof (induction k arbitrary: "is")
  case 0
  then show ?case by (auto intro!: exI [of _ "contents is"])
next
  case (Suc k)
  let ?e = "unat e" and ?n = "unat (encoding is)"
  have e: "2 \<le> ?e" "2 \<le> ?n" using enc_ok_unat Suc.prems by auto
  have k: "k < length vs" using Suc.prems(1) by simp
  have f: "fits ?e (vs ! k)" using Suc.prems k by auto
  have "get_bytes (contents is) (k * ?e) ?e = Some (ebytes ?e (vs ! k))"
  proof -
    have "contents is = blk ?e (take (Suc k) vs) @ drop (Suc k * ?e) (contents is)"
      using Suc.prems(2) by (metis append_take_drop_id)
    moreover have "k < length (take (Suc k) vs)" using k by simp
    ultimately show ?thesis using get_bytes_blk [of k "take (Suc k) vs" ?e "drop (Suc k * ?e) (contents is)"] k by simp
  qed
  then have get: "intsetGetEncoded is k e = Some (word_of_int (vs ! k))"
    using f Suc.prems by (intro intsetGetEncoded_rep) auto
  have s: "sint (word_of_int (vs ! k) :: s64) = vs ! k"
    using f e enc_ok_unat [OF Suc.prems(5)] by (intro fits_sint_word fits_mono [OF f]) auto
  have step: "(k + p) * ?n + ?n = (Suc k + p) * ?n" by simp
  have le: "(k + p) * ?n + ?n \<le> length (contents is)"
  proof -
    have "Suc k + p \<le> length vs + 1" using k Suc.prems by linarith
    then show ?thesis unfolding Suc.prems(4) step by (rule mult_le_mono1)
  qed
  define c where "c = take ((k + p) * ?n) (contents is) @ ebytes ?n (vs ! k) @ drop ((Suc k + p) * ?n) (contents is)"
  have "put_bytes (contents is) ((k + p) * ?n) (ebytes ?n (vs ! k)) = Some c"
    unfolding c_def step [symmetric] using le put_bytes_at [of "(k + p) * ?n" "ebytes ?n (vs ! k)" "contents is"] by simp
  then have put: "intsetSet is (k + p) (word_of_int (vs ! k)) = Some (is\<lparr>contents := c\<rparr>)"
    using Suc.prems(6) s by (simp add: intsetSet_rep)
  have lk: "length (take ((k + p) * ?n) (contents is)) = (k + p) * ?n" using le by simp
  have lc: "length c = length (contents is)"
    unfolding c_def step [symmetric] using le lk by simp
  have lt: "k * ?e \<le> (k + p) * ?n" using Suc.prems by (intro mult_le_mono) auto
  have "take (k * ?e) c = take (k * ?e) (contents is)"
    unfolding c_def using lt lk by (simp add: min_def)
  also have "\<dots> = take (k * ?e) (blk ?e (take (Suc k) vs))"
  proof -
    have "take (k * ?e) (take (Suc k * ?e) (contents is)) = take (k * ?e) (contents is)" by (simp add: min_def)
    then show ?thesis unfolding Suc.prems(2) by simp
  qed
  also have "\<dots> = blk ?e (take k vs)" using k by (simp add: take_Suc_conv_app_nth)
  finally have t: "take (k * ?e) c = blk ?e (take k vs)" .
  have d: "drop ((k + p) * ?n) c = blk ?n (drop k vs) @ r"
  proof -
    have "drop k vs = vs ! k # drop (Suc k) vs" using k by (simp add: Cons_nth_drop_Suc)
    then show ?thesis unfolding c_def using Suc.prems(3) lk by simp
  qed
  have "\<exists>c'. intsetUpgrade_loop (is\<lparr>contents := c\<rparr>) k p e = Some ((is\<lparr>contents := c\<rparr>)\<lparr>contents := c'\<rparr>) \<and>
      length c' = length (contents (is\<lparr>contents := c\<rparr>)) \<and>
      drop (p * unat (encoding (is\<lparr>contents := c\<rparr>))) c' = blk (unat (encoding (is\<lparr>contents := c\<rparr>))) vs @ r"
    using Suc.prems t d lc k by (intro Suc.IH) auto
  then show ?case using get put lc by auto
qed

section \<open>Adding and removing\<close>

lemma intsetResize_grow:
  assumes "unat (len is) * unat (encoding is) + unat (encoding is) < 2 ^ 32"
  shows "intsetResize garb is (len is + 1) = is\<lparr>contents := realloc_bytes garb (contents is) ((unat (len is) + 1) * unat (encoding is))\<rparr>"
    and "unat (len is + 1) = unat (len is) + 1 \<or> encoding is = 0"
proof -
  show l: "unat (len is + 1) = unat (len is) + 1 \<or> encoding is = 0"
  proof (cases "encoding is = 0")
    case False
    then have "1 \<le> unat (encoding is)" by (simp add: unat_gt_0 Suc_le_eq)
    then have "(unat (len is) + 1) * 1 \<le> (unat (len is) + 1) * unat (encoding is)" by (intro mult_le_mono) auto
    then have "unat (len is) + 1 < 2 ^ 32" using assms by simp
    then show ?thesis by (simp add: unat_word_ariths)
  qed simp
  then have "unat ((len is + 1) * encoding is) = (unat (len is) + 1) * unat (encoding is)"
    using assms by (auto simp: unat_word_ariths)
  then show "intsetResize garb is (len is + 1) = is\<lparr>contents := realloc_bytes garb (contents is) ((unat (len is) + 1) * unat (encoding is))\<rparr>"
    by (simp add: intsetResize_def)
qed

lemma intsetUpgradeAndAdd_spec:
  assumes "intset_rep is vs" "intsetValueEncoding v > encoding is" "(length vs + 1) * 8 < 2 ^ 32"
  shows "\<exists>is'. intsetUpgradeAndAdd garb is v = Some is' \<and>
     intset_rep is' (if sint v < 0 then sint v # vs else vs @ [sint v])"
proof -
  let ?n = "unat (intsetValueEncoding v)" and ?e = "unat (encoding is)"
  define p where "p = (if v <s 0 then 1 else 0 :: nat)"
  have ok: "enc_ok (encoding is)" "enc_ok (intsetValueEncoding v)" "?e \<le> ?n"
    using assms valueEncoding_ok by (auto simp: intset_rep_def word_less_nat_alt)
  have n8: "2 \<le> ?n" "?n \<le> 8" using enc_ok_unat [OF ok(2)] by auto
  have ln: "unat (len is) = length vs" using assms by (simp add: intset_rep_def)
  have cap: "length vs * ?n + ?n < 2 ^ 32"
  proof -
    have "(length vs + 1) * ?n \<le> (length vs + 1) * 8" using n8 by (intro mult_le_mono2) auto
    then show ?thesis using assms(3) by simp
  qed
  define is1 where "is1 = (is\<lparr>encoding := intsetValueEncoding v\<rparr>)\<lparr>contents := realloc_bytes garb (contents is) ((length vs + 1) * ?n)\<rparr>"
  have r1: "intsetResize garb (is\<lparr>encoding := intsetValueEncoding v\<rparr>) (len is + 1) = is1"
    using intsetResize_grow(1) [of "is\<lparr>encoding := intsetValueEncoding v\<rparr>" garb] cap ln by (simp add: is1_def)
  have len1: "unat (len is + 1) = length vs + 1"
    using intsetResize_grow(2) [of "is\<lparr>encoding := intsetValueEncoding v\<rparr>"] cap ln n8 by auto
  have c0: "contents is = blk ?e vs" using assms by (simp add: intset_rep_def)
  have le: "length vs * ?e \<le> (length vs + 1) * ?n" using ok(3) by (intro mult_le_mono) auto
  have t: "take (length vs * ?e) (contents is1) = blk ?e (take (length vs) vs)"
    using realloc_bytes_grow [of "contents is" "(length vs + 1) * ?n" garb] c0 le by (simp add: is1_def)
  define r where "r = drop ((length vs + p) * ?n) (contents is1)"
  have "\<exists>c. intsetUpgrade_loop is1 (length vs) p (encoding is) = Some (is1\<lparr>contents := c\<rparr>) \<and>
      length c = length (contents is1) \<and>
      drop (p * unat (encoding is1)) c = blk (unat (encoding is1)) vs @ r"
    using ok assms t by (intro intsetUpgrade_loop_spec) (auto simp: is1_def p_def r_def intset_rep_def)
  then obtain c where lp: "intsetUpgrade_loop is1 (length vs) p (encoding is) = Some (is1\<lparr>contents := c\<rparr>)"
    and lc: "length c = (length vs + 1) * ?n" and dc: "drop (p * ?n) c = blk ?n vs @ r"
    by (auto simp: is1_def)
  have fv: "fits ?n (sint v)" using valueEncoding_fits [OF ok(2), of v] by simp
  have fvs: "\<forall>x \<in> set vs. fits ?n x"
  proof
    fix x assume "x \<in> set vs"
    then have "fits ?e x" using assms by (simp add: intset_rep_def)
    then show "fits ?n x" by (rule fits_mono) (use ok(3) enc_ok_unat [OF ok(1)] in linarith)+
  qed
  show ?thesis
  proof (cases "v <s 0")
    case True
    then have p: "p = 1" and neg: "sint v < 0" by (auto simp: p_def word_sless_alt)
    have "length (drop (p * ?n) c) = length (blk ?n vs @ r)" unfolding dc ..
    then have r0: "r = []" using lc p by simp
    have "put_bytes c 0 (ebytes ?n (sint v)) = Some (ebytes ?n (sint v) @ drop ?n c)"
      using put_bytes_at [of 0 "ebytes ?n (sint v)" c] lc by simp
    then have "intsetSet (is1\<lparr>contents := c\<rparr>) 0 v = Some (is1\<lparr>contents := blk ?n (sint v # vs)\<rparr>)"
      using ok(2) dc p r0 by (simp add: intsetSet_rep is1_def)
    then have "intsetUpgradeAndAdd garb is v = Some (is1\<lparr>contents := blk ?n (sint v # vs), len := len is + 1\<rparr>)"
      using r1 lp p True ln by (simp add: intsetUpgradeAndAdd_def p_def is1_def)
    moreover have "intset_rep (is1\<lparr>contents := blk ?n (sint v # vs), len := len is + 1\<rparr>) (sint v # vs)"
      using ok fv fvs len1 by (simp add: intset_rep_def is1_def)
    ultimately show ?thesis using neg by auto
  next
    case False
    then have p: "p = 0" and pos: "\<not> sint v < 0" by (auto simp: p_def word_sless_alt)
    have "length (drop (p * ?n) c) = length (blk ?n vs @ r)" unfolding dc ..
    then have cc: "c = blk ?n vs @ r" "length r = ?n" using dc p lc by auto
    have "put_bytes c (length vs * ?n) (ebytes ?n (sint v)) = Some (blk ?n vs @ ebytes ?n (sint v))"
      using put_bytes_at [of "length vs * ?n" "ebytes ?n (sint v)" c] lc cc by simp
    then have "intsetSet (is1\<lparr>contents := c\<rparr>) (length vs) v = Some (is1\<lparr>contents := blk ?n (vs @ [sint v])\<rparr>)"
      using ok(2) by (simp add: intsetSet_rep is1_def)
    then have "intsetUpgradeAndAdd garb is v = Some (is1\<lparr>contents := blk ?n (vs @ [sint v]), len := len is + 1\<rparr>)"
      using r1 lp p False ln by (simp add: intsetUpgradeAndAdd_def p_def is1_def)
    moreover have "intset_rep (is1\<lparr>contents := blk ?n (vs @ [sint v]), len := len is + 1\<rparr>) (vs @ [sint v])"
      using ok fv fvs len1 by (simp add: intset_rep_def is1_def)
    ultimately show ?thesis using pos by auto
  qed
qed

lemma intsetMoveTail_spec:
  assumes "enc_ok (encoding is)" "unat from \<le> unat (len is)" "unat (len is) * unat (encoding is) < 2 ^ 32"
  shows "intsetMoveTail is from to = map_option (\<lambda>b. is\<lparr>contents := b\<rparr>)
     (memmove (contents is) (unat to * unat (encoding is)) (unat from * unat (encoding is))
        ((unat (len is) - unat from) * unat (encoding is)))"
proof -
  let ?e = "encoding is"
  have sz: "(if ?e = INTSET_ENC_INT64 then 8 else if ?e = INTSET_ENC_INT32 then 4 else 2) = ?e"
    using assms(1) by (auto simp: enc_ok_def)
  have "unat (len is - from) = unat (len is) - unat from" using assms(2) by (simp add: unat_sub word_le_nat_alt)
  moreover have "(unat (len is) - unat from) * unat ?e \<le> unat (len is) * unat ?e" by simp
  then have "(unat (len is) - unat from) * unat ?e < 2 ^ 32" using assms(3) by linarith
  ultimately have "unat ((len is - from) * ?e) = (unat (len is) - unat from) * unat ?e"
    using assms(3) by (simp add: unat_word_ariths)
  moreover have "do { b \<leftarrow> m; Some (is\<lparr>contents := b\<rparr>) } = map_option (\<lambda>b. is\<lparr>contents := b\<rparr>) m" for m
    by (cases m) auto
  ultimately show ?thesis by (simp add: intsetMoveTail_def Let_def sz)
qed

lemma memmove_up:
  "length ys = n \<Longrightarrow> length g = e \<Longrightarrow> memmove (xs @ ys @ g) (length xs + e) (length xs) n = Some (take (length xs + e) (xs @ ys @ g) @ ys)"
  by (auto simp: memmove_def get_bytes_def put_bytes_def patch_def)

lemma memmove_down:
  "length ys = n \<Longrightarrow> length z = e \<Longrightarrow> memmove (xs @ z @ ys) (length xs) (length xs + e) n = Some (xs @ ys @ drop n (z @ ys))"
  by (auto simp: memmove_def get_bytes_def put_bytes_def patch_def)

lemma intsetAdd_spec:
  assumes "intset_rep is vs" "sorted_wrt (<) vs" "(length vs + 1) * 8 < 2 ^ 32"
  shows "\<exists>is' vs'. intsetAdd garb is v = Some (is', sint v \<notin> set vs) \<and> intset_rep is' vs' \<and> sorted_wrt (<) vs' \<and>
     set vs' = insert (sint v) (set vs)"
proof (cases "intsetValueEncoding v > encoding is")
  case True
  obtain is' where is': "intsetUpgradeAndAdd garb is v = Some is'"
    "intset_rep is' (if sint v < 0 then sint v # vs else vs @ [sint v])"
    using intsetUpgradeAndAdd_spec [OF assms(1) True assms(3)] by blast
  have out: "\<not> fits (unat (encoding is)) (sint v)"
    using True assms valueEncoding_fits [of "encoding is" v] by (auto simp: intset_rep_def)
  have fit: "\<forall>x \<in> set vs. fits (unat (encoding is)) x" using assms by (simp add: intset_rep_def)
  have "\<forall>x \<in> set vs. if sint v < 0 then sint v < x else x < sint v"
    using out fit by (fastforce simp: fits_def)
  then have "sint v \<notin> set vs" "sorted_wrt (<) (if sint v < 0 then sint v # vs else vs @ [sint v])"
    using assms(2) by (auto simp: sorted_wrt_append split: if_splits)
  then show ?thesis using True is' by (auto simp: intsetAdd_def split: if_splits)
next
  case False
  let ?e = "unat (encoding is)"
  have small: "length vs < 2 ^ 31" using assms(3) by simp
  have ok: "enc_ok (encoding is)" "2 \<le> ?e" "?e \<le> 8" using assms enc_ok_unat by (auto simp: intset_rep_def)
  obtain p where s: "intsetSearch is v = Some (sint v \<in> set vs, p)"
    and p: "if sint v \<in> set vs then p < length vs \<and> vs ! p = sint v
      else p \<le> length vs \<and> (\<forall>x \<in> set (take p vs). x < sint v) \<and> (\<forall>x \<in> set (drop p vs). sint v < x)"
    using intsetSearch_spec [OF assms(1,2) small, of v] by blast
  show ?thesis
  proof (cases "sint v \<in> set vs")
    case True
    then have "intsetAdd garb is v = Some (is, False)" using False s by (simp add: intsetAdd_def)
    then show ?thesis using True assms by auto
  next
    case nin: False
    have p': "p \<le> length vs" "\<forall>x \<in> set (take p vs). x < sint v" "\<forall>x \<in> set (drop p vs). sint v < x"
      using p nin by auto
    have ln: "unat (len is) = length vs" and c0: "contents is = blk ?e vs" using assms by (auto simp: intset_rep_def)
    have "(length vs + 1) * ?e \<le> (length vs + 1) * 8" using ok by (intro mult_le_mono2) auto
    then have cap: "length vs * ?e + ?e < 2 ^ 32" using assms(3) by simp
    define g where "g = map garb [length vs * ?e..<(length vs + 1) * ?e]"
    have lg: "length g = ?e" by (simp add: g_def)
    have re: "realloc_bytes garb (blk ?e vs) ((length vs + 1) * ?e) = blk ?e vs @ g"
      by (simp add: realloc_bytes_def g_def)
    have r1: "intsetResize garb is (len is + 1) = is\<lparr>contents := blk ?e vs @ g\<rparr>"
      using intsetResize_grow(1) [of "is" garb] cap ln c0 re by simp
    have len1: "unat (len is + 1) = length vs + 1"
      using intsetResize_grow(2) [of "is"] cap ln ok by auto
    have pw: "unat (of_nat p :: u32) = p" "p < length vs \<Longrightarrow> unat (of_nat p + 1 :: u32) = p + 1"
      using p'(1) len1 ln unat_less_2p [of "len is"] unat_less_2p [of "len is + 1"]
      by (auto simp: unat_of_nat unat_word_ariths)
    have sp: "blk ?e vs @ g = blk ?e (take p vs) @ blk ?e (drop p vs) @ g"
      by (metis append.assoc append_take_drop_id blk_simps(3))
    define hd' where "hd' = take (p * ?e + ?e) (blk ?e vs @ g)"
    have lh: "length hd' = p * ?e + ?e"
    proof -
      have "(p + 1) * ?e \<le> (length vs + 1) * ?e" using p'(1) by (intro mult_le_mono1) simp
      then have "p * ?e + ?e \<le> length (blk ?e vs @ g)" using lg by simp
      then show ?thesis unfolding hd'_def length_take by (rule min_absorb2)
    qed
    have th: "take (p * ?e) hd' = blk ?e (take p vs)"
      using p'(1) sp by (simp add: hd'_def min_def)
    have mt: "(if p < unat (len is) then intsetMoveTail (is\<lparr>contents := blk ?e vs @ g\<rparr>) (of_nat p) (of_nat p + 1)
        else Some (is\<lparr>contents := blk ?e vs @ g\<rparr>)) = Some (is\<lparr>contents := hd' @ blk ?e (drop p vs)\<rparr>)"
    proof (cases "p < unat (len is)")
      case True
      have lA: "length (blk ?e (take p vs)) = p * ?e" and lB: "length (blk ?e (drop p vs)) = (length vs - p) * ?e"
        using p'(1) by simp_all
      have "memmove (blk ?e vs @ g) (p * ?e + ?e) (p * ?e) ((length vs - p) * ?e) = Some (hd' @ blk ?e (drop p vs))"
        using memmove_up [OF lB lg, of "blk ?e (take p vs)"] unfolding lA sp [symmetric] hd'_def [symmetric] .
      then have "memmove (blk ?e vs @ g) (?e + p * ?e) (p * ?e) ((length vs - p) * ?e) = Some (hd' @ blk ?e (drop p vs))"
        by (simp only: add.commute)
      then show ?thesis
        using True cap ok(1) ln pw p'(1)
          intsetMoveTail_spec [of "is\<lparr>contents := blk ?e vs @ g\<rparr>" "of_nat p" "of_nat p + 1"]
        by simp
    next
      case F: False
      then have "p = length vs" using ln p'(1) by simp
      then show ?thesis using F lg by (simp add: hd'_def)
    qed
    have "put_bytes (hd' @ blk ?e (drop p vs)) (p * ?e) (ebytes ?e (sint v)) =
        Some (blk ?e (take p vs) @ ebytes ?e (sint v) @ blk ?e (drop p vs))"
      using put_bytes_at [of "p * ?e" "ebytes ?e (sint v)" "hd' @ blk ?e (drop p vs)"] lh th by simp
    then have st: "intsetSet (is\<lparr>contents := hd' @ blk ?e (drop p vs)\<rparr>) p v =
        Some (is\<lparr>contents := blk ?e (take p vs @ sint v # drop p vs)\<rparr>)"
      using ok by (simp add: intsetSet_rep)
    let ?vs = "take p vs @ sint v # drop p vs"
    have "intsetAdd garb is v = Some (is\<lparr>contents := blk ?e ?vs, len := len is + 1\<rparr>, True)"
      using False s nin r1 mt st by (simp add: intsetAdd_def)
    moreover have "fits ?e (sint v)" using False valueEncoding_fits [OF ok(1), of v] by (simp add: not_less)
    then have "intset_rep (is\<lparr>contents := blk ?e ?vs, len := len is + 1\<rparr>) ?vs"
      using assms ok len1 p'(1) by (auto simp: intset_rep_def dest: in_set_takeD in_set_dropD)
    moreover have "sorted_wrt (<) ?vs"
    proof -
      have "sorted_wrt (<) (take p vs @ drop p vs)" using assms(2) by simp
      then show ?thesis using p'(2,3) unfolding sorted_wrt_append by auto
    qed
    moreover have "set ?vs = insert (sint v) (set (take p vs @ drop p vs))" by (simp only: set_append set_simps) blast
    ultimately show ?thesis using nin by auto
  qed
qed

lemma intsetRemove_spec:
  assumes "intset_rep is vs" "sorted_wrt (<) vs" "length vs * 8 < 2 ^ 32"
  shows "\<exists>is' vs'. intsetRemove garb is v = Some (is', sint v \<in> set vs) \<and> intset_rep is' vs' \<and> sorted_wrt (<) vs' \<and>
     set vs' = set vs - {sint v}"
proof (cases "intsetValueEncoding v \<le> encoding is")
  case False
  then have "\<not> fits (unat (encoding is)) (sint v)" using assms valueEncoding_fits by (auto simp: intset_rep_def)
  then have "sint v \<notin> set vs" using assms by (auto simp: intset_rep_def)
  then show ?thesis using False assms by (auto simp: intsetRemove_def)
next
  case True
  let ?e = "unat (encoding is)"
  have small: "length vs < 2 ^ 31" using assms(3) by simp
  have ok: "enc_ok (encoding is)" "2 \<le> ?e" "?e \<le> 8" using assms enc_ok_unat by (auto simp: intset_rep_def)
  obtain p where s: "intsetSearch is v = Some (sint v \<in> set vs, p)"
    and p: "if sint v \<in> set vs then p < length vs \<and> vs ! p = sint v
      else p \<le> length vs \<and> (\<forall>x \<in> set (take p vs). x < sint v) \<and> (\<forall>x \<in> set (drop p vs). sint v < x)"
    using intsetSearch_spec [OF assms(1,2) small, of v] by blast
  show ?thesis
  proof (cases "sint v \<in> set vs")
    case F: False
    then show ?thesis using True s assms by (auto simp: intsetRemove_def)
  next
    case isin: True
    then have p': "p < length vs" "vs ! p = sint v" using p by auto
    have ln: "unat (len is) = length vs" and c0: "contents is = blk ?e vs" using assms by (auto simp: intset_rep_def)
    have "0 < unat (len is)" using ln p'(1) by linarith
    then have ln1: "unat (len is - 1) = length vs - 1" using unat_pred [of "len is"] ln by simp
    have c8: "length vs * 8 < 2 ^ 32" "length vs + 1 < 2 ^ 32" using assms(3) by simp_all
    have "length vs * ?e \<le> length vs * 8" using ok by (intro mult_le_mono2) auto
    then have cap: "length vs * ?e < 2 ^ 32" using c8(1) by (rule le_less_trans)
    have "p + 1 < 2 ^ 32" using p'(1) c8(2) by linarith
    then have pw: "unat (of_nat p :: u32) = p" "unat (of_nat p + 1 :: u32) = p + 1"
      using unat_of_nat_u32 [of "p + 1"] by (simp_all add: unat_of_nat_u32 add.commute)
    have vs: "vs = take p vs @ sint v # drop (Suc p) vs" using id_take_nth_drop [OF p'(1)] unfolding p'(2) .
    have sp: "blk ?e vs = blk ?e (take p vs) @ ebytes ?e (sint v) @ blk ?e (drop (Suc p) vs)"
      by (subst vs) simp
    let ?vs = "take p vs @ drop (Suc p) vs"
    have mt: "\<exists>b. (if p < unat (len is - 1) then intsetMoveTail is (of_nat p + 1) (of_nat p) else Some is)
       = Some (is\<lparr>contents := b\<rparr>) \<and> take ((length vs - 1) * ?e) b = blk ?e ?vs \<and> length b = length vs * ?e"
    proof (cases "p < unat (len is - 1)")
      case True
      define tl' where "tl' = drop ((length vs - Suc p) * ?e) (ebytes ?e (sint v) @ blk ?e (drop (Suc p) vs))"
      have lt: "length tl' = ?e" by (simp add: tl'_def)
      have "memmove (blk ?e vs) (p * ?e) ((p + 1) * ?e) ((length vs - Suc p) * ?e) =
          Some (blk ?e ?vs @ tl')"
        using memmove_down [of "blk ?e (drop (Suc p) vs)" "(length vs - Suc p) * ?e" "ebytes ?e (sint v)" ?e "blk ?e (take p vs)"]
          p'(1) sp by (simp add: add.commute min_def tl'_def)
      then have mv: "intsetMoveTail is (of_nat p + 1) (of_nat p) = Some (is\<lparr>contents := blk ?e ?vs @ tl'\<rparr>)"
        using cap ok ln pw p'(1) c0 intsetMoveTail_spec [of "is" "of_nat p + 1" "of_nat p"] by simp
      have "length ?vs = length vs - 1" using p'(1) by simp
      then have lv: "length (blk ?e ?vs) = (length vs - 1) * ?e" unfolding length_blk by simp
      have "(length vs - 1) * ?e + ?e = length vs * ?e"
        using p'(1) by (cases "length vs") auto
      then have "length (blk ?e ?vs @ tl') = length vs * ?e" using lv lt by (simp only: length_append)
      moreover have "take ((length vs - 1) * ?e) (blk ?e ?vs @ tl') = blk ?e ?vs"
        unfolding lv [symmetric] by (rule take_length_append)
      ultimately show ?thesis using mv True by (simp only: if_True) blast
    next
      case False
      then have pe: "p = length vs - 1" using p' ln1 by simp
      then have ds: "drop (Suc p) vs = []" by simp
      have "take ((length vs - 1) * ?e) (blk ?e vs) = blk ?e ?vs"
        unfolding sp ds pe [symmetric] using p'(1) by simp
      moreover have "is = is\<lparr>contents := blk ?e vs\<rparr>" using c0 by simp
      ultimately show ?thesis using False length_blk [of ?e vs] by (simp only: if_False) blast
    qed
    then obtain b where mv: "(if p < unat (len is - 1) then intsetMoveTail is (of_nat p + 1) (of_nat p) else Some is)
       = Some (is\<lparr>contents := b\<rparr>)" and tb: "take ((length vs - 1) * ?e) b = blk ?e ?vs" "length b = length vs * ?e"
      by blast
    have "unat ((len is - 1) * encoding is) = (length vs - 1) * ?e"
      using ln1 cap by (simp add: unat_word_ariths diff_mult_distrib)
    moreover have "(length vs - 1) * ?e \<le> length b" using tb(2) by simp
    ultimately have rs: "intsetResize garb (is\<lparr>contents := b\<rparr>) (len is - 1) = is\<lparr>contents := blk ?e ?vs\<rparr>"
      using tb by (simp add: intsetResize_def realloc_bytes_shrink)
    have "intsetRemove garb is v = Some (is\<lparr>contents := blk ?e ?vs, len := len is - 1\<rparr>, True)"
      using True s isin mv rs by (simp add: intsetRemove_def)
    moreover have "intset_rep (is\<lparr>contents := blk ?e ?vs, len := len is - 1\<rparr>) ?vs"
      using assms ln1 p' by (auto simp: intset_rep_def dest: in_set_takeD in_set_dropD)
    moreover have sw: "sorted_wrt (<) (take p vs @ sint v # drop (Suc p) vs)" using assms(2) vs by simp
    then have "sorted_wrt (<) ?vs" by (auto simp: sorted_wrt_append)
    moreover have "set ?vs = set vs - {sint v}"
    proof -
      have sv: "set vs = set (take p vs @ sint v # drop (Suc p) vs)" using vs by (rule arg_cong)
      show ?thesis unfolding sv using sw by (auto simp: sorted_wrt_append)
    qed
    ultimately show ?thesis using isin by auto
  qed
qed

section \<open>Executable abstraction and invariant\<close>

definition intset_elems :: "intset \<Rightarrow> int list" where
  "intset_elems is = map (\<lambda>k. case intsetGet_pos is k of Some v \<Rightarrow> sint v | None \<Rightarrow> 0) [0..<unat (len is)]"

definition intset_ok :: "intset \<Rightarrow> bool" where
  "intset_ok is \<longleftrightarrow> enc_ok (encoding is) \<and> length (contents is) = unat (len is) * unat (encoding is) \<and>
     sorted_wrt (<) (intset_elems is) \<and> unat (len is) * 8 < 2 ^ 32"

lemma rep_elems: "intset_rep is vs \<Longrightarrow> intset_elems is = vs"
  using rep_get by (intro nth_equalityI) (auto simp: intset_elems_def intset_rep_def)

lemma fits_sint: "fits (LENGTH('a) div 8) (sint (w :: 'a::len word))" if d: "8 dvd LENGTH('a)"
proof -
  have "8 * (LENGTH('a) div 8) = LENGTH('a)" using d by simp
  then show ?thesis using sint_greater_eq [of w] sint_less [of w] by (simp add: fits_def)
qed

lemma word_of_int_sint: "word_of_int (sint (w :: 'a::len word)) = w"
  by simp

lemma ebytes_sint:
  assumes "LENGTH('a::len) = 8 * length bs"
  shows "ebytes (length bs) (sint (of_nat (le_nat bs) :: 'a word)) = bs"
proof -
  let ?w = "of_nat (le_nat bs) :: 'a word"
  have p: "(256 :: int) ^ length bs = 2 ^ LENGTH('a)" "(256 :: nat) ^ length bs = 2 ^ LENGTH('a)"
    using assms by (simp_all add: power_mult)
  have "sint ?w mod 2 ^ LENGTH('a) = uint ?w"
    using arg_cong [OF word_of_int_sint [of ?w], of uint] unfolding uint_word_of_int .
  moreover have "unat ?w = le_nat bs"
    using le_nat_less [of bs] p(2) by (simp add: unat_of_nat)
  ultimately have "nat (sint ?w mod 256 ^ length bs) = le_nat bs"
    unfolding p(1) by (simp only: unat_eq_nat_uint)
  then show ?thesis by (simp add: ebytes_def)
qed

lemma sint_scast_s64:
  assumes "LENGTH('a::len) \<le> 64"
  shows "sint (scast (w :: 'a word) :: s64) = sint w"
proof -
  have "- (2 ^ 63) \<le> - (2 ^ (LENGTH('a) - 1) :: int)" "(2 ^ (LENGTH('a) - 1) :: int) \<le> 2 ^ 63"
    using assms by (simp_all only: neg_le_iff_le) (simp_all add: power_increasing del: power_numeral)
  then have "- (2 ^ 63) \<le> sint w" "sint w < 2 ^ 63"
    using sint_greater_eq [of w] sint_less [of w] by (auto intro: order_trans less_le_trans)
  then show ?thesis unfolding scast_eq by (rule sint_of_int_s64_range)
qed

lemma decode_block:
  assumes "enc_ok enc" "get_bytes (contents is) (k * unat enc) (unat enc) = Some bs"
  shows "\<exists>v. intsetGetEncoded is k enc = Some v \<and> fits (unat enc) (sint v) \<and> ebytes (unat enc) (sint v) = bs"
proof -
  have lb: "length bs = unat enc" using assms(2) by (auto simp: get_bytes_def split: if_splits)
  consider "enc = 2" | "enc = 4" | "enc = 8" using assms(1) by (auto simp: enc_ok_def)
  then show ?thesis
  proof cases
    case 1
    then show ?thesis
      using assms lb ebytes_sint [where 'a = 16, of bs] fits_sint [where 'a = 16, of "of_nat (le_nat bs)"]
        sint_scast_s64 [where 'a = 16, of "of_nat (le_nat bs)"]
      by (simp add: intsetGetEncoded_def)
  next
    case 2
    then show ?thesis
      using assms lb ebytes_sint [where 'a = 32, of bs] fits_sint [where 'a = 32, of "of_nat (le_nat bs)"]
        sint_scast_s64 [where 'a = 32, of "of_nat (le_nat bs)"]
      by (simp add: intsetGetEncoded_def)
  next
    case 3
    then show ?thesis
      using assms lb ebytes_sint [where 'a = 64, of bs] fits_sint [where 'a = 64, of "of_nat (le_nat bs)"]
      by (simp add: intsetGetEncoded_def)
  qed
qed

lemma blk_of_blocks:
  assumes "length b = length vs * e"
    and "\<And>k. k < length vs \<Longrightarrow> take e (drop (k * e) b) = ebytes e (vs ! k)"
  shows "b = blk e vs"
  using assms
proof (induction vs arbitrary: b)
  case (Cons v vs)
  have "take e b = ebytes e v" using Cons.prems(2) [of 0] by simp
  moreover have "drop e b = blk e vs"
  proof (rule Cons.IH)
    show "take e (drop (k * e) (drop e b)) = ebytes e (vs ! k)" if "k < length vs" for k
      using Cons.prems(2) [of "Suc k"] that by (simp add: add.commute)
  qed (use Cons.prems(1) in simp)
  ultimately show ?case using append_take_drop_id [of e b] by simp
qed simp

lemma elems_rep:
  assumes "enc_ok (encoding is)" "length (contents is) = unat (len is) * unat (encoding is)"
  shows "intset_rep is (intset_elems is)"
proof -
  let ?e = "unat (encoding is)"
  have ln: "length (intset_elems is) = unat (len is)" by (simp add: intset_elems_def)
  have dec: "fits ?e (intset_elems is ! k) \<and> take ?e (drop (k * ?e) (contents is)) = ebytes ?e (intset_elems is ! k)"
    if k: "k < unat (len is)" for k
  proof -
    have "(k + 1) * ?e \<le> unat (len is) * ?e" using k by (intro mult_le_mono1) simp
    then have "get_bytes (contents is) (k * ?e) ?e = Some (take ?e (drop (k * ?e) (contents is)))"
      using assms(2) by (simp add: get_bytes_def)
    then obtain v where "intsetGetEncoded is k (encoding is) = Some v" "fits ?e (sint v)"
        "ebytes ?e (sint v) = take ?e (drop (k * ?e) (contents is))"
      using decode_block [OF assms(1)] by blast
    then show ?thesis using k by (simp add: intset_elems_def intsetGet_pos_def)
  qed
  have "contents is = blk ?e (intset_elems is)"
    by (rule blk_of_blocks) (use assms(2) ln dec in auto)
  moreover have "\<forall>v \<in> set (intset_elems is). fits ?e v"
    using dec ln by (auto simp: in_set_conv_nth)
  ultimately show ?thesis using assms ln by (simp add: intset_rep_def)
qed

lemma intset_ok_rep:
  "intset_ok is \<longleftrightarrow> (\<exists>vs. intset_rep is vs \<and> sorted_wrt (<) vs \<and> length vs * 8 < 2 ^ 32)"
proof
  assume "intset_ok is"
  moreover have "length (intset_elems is) = unat (len is)" by (simp add: intset_elems_def)
  ultimately show "\<exists>vs. intset_rep is vs \<and> sorted_wrt (<) vs \<and> length vs * 8 < 2 ^ 32"
    using elems_rep unfolding intset_ok_def by metis
next
  assume "\<exists>vs. intset_rep is vs \<and> sorted_wrt (<) vs \<and> length vs * 8 < 2 ^ 32"
  then obtain vs where v: "intset_rep is vs" "sorted_wrt (<) vs" "length vs * 8 < 2 ^ 32" by blast
  then show "intset_ok is" using rep_elems [OF v(1)] by (auto simp: intset_ok_def intset_rep_def)
qed

lemma intset_okD:
  assumes "intset_ok is"
  shows "intset_rep is (intset_elems is)" "sorted_wrt (<) (intset_elems is)" "length (intset_elems is) = unat (len is)"
    "length (intset_elems is) < 2 ^ 31" "distinct (intset_elems is)"
  using assms elems_rep [of "is"] by (auto simp: intset_ok_def intset_elems_def strict_sorted_iff simp del: sorted_wrt_map)


lemma elems_sorted_list: "intset_ok is \<Longrightarrow> sorted_list_of_set (set (intset_elems is)) = intset_elems is"
  using intset_okD(2) by (simp add: sorted_list_of_set.idem_if_sorted_distinct strict_sorted_iff)

lemma intsetFind_ok: "intset_ok is \<Longrightarrow> intsetFind is v = Some (sint v \<in> set (intset_elems is))"
proof -
  assume ok: "intset_ok is"
  note d = intset_okD [OF ok]
  show ?thesis
  proof (cases "intsetValueEncoding v \<le> encoding is")
    case True
    then show ?thesis using intsetSearch_spec [OF d(1,2,4), of v] by (auto simp: intsetFind_def)
  next
    case False
    then have "\<not> fits (unat (encoding is)) (sint v)"
      using d(1) valueEncoding_fits by (auto simp: intset_rep_def)
    then have "sint v \<notin> set (intset_elems is)" using d(1) by (auto simp: intset_rep_def)
    then show ?thesis using False by (simp add: intsetFind_def)
  qed
qed

lemma intsetAdd_ok:
  assumes "intset_ok is" "unat (len is) < 2 ^ 29 - 1"
  shows "\<exists>is'. intsetAdd garb is v = Some (is', sint v \<notin> set (intset_elems is)) \<and> intset_ok is' \<and>
     set (intset_elems is') = insert (sint v) (set (intset_elems is))"
proof -
  note d = intset_okD [OF assms(1)]
  have cap: "(length (intset_elems is) + 1) * 8 < 2 ^ 32" using assms(2) d(3) by simp
  obtain is' vs' where r: "intsetAdd garb is v = Some (is', sint v \<notin> set (intset_elems is))" "intset_rep is' vs'"
      "sorted_wrt (<) vs'" "set vs' = insert (sint v) (set (intset_elems is))"
    using intsetAdd_spec [OF d(1,2) cap] by blast
  have "distinct vs'" using r(3) by (simp add: strict_sorted_iff)
  then have "length vs' = card (insert (sint v) (set (intset_elems is)))" using r(4) distinct_card by metis
  also have "\<dots> \<le> length (intset_elems is) + 1"
    using card_length [of "intset_elems is"] by (simp add: card_insert_if)
  finally have "length vs' * 8 < 2 ^ 32" using cap by simp
  then have "intset_ok is'" using r intset_ok_rep by blast
  then show ?thesis using r rep_elems by blast
qed

lemma intsetRemove_ok:
  assumes "intset_ok is"
  shows "\<exists>is'. intsetRemove garb is v = Some (is', sint v \<in> set (intset_elems is)) \<and> intset_ok is' \<and>
     set (intset_elems is') = set (intset_elems is) - {sint v}"
proof -
  note d = intset_okD [OF assms(1)]
  have cap: "length (intset_elems is) * 8 < 2 ^ 32" using assms d(3) by (simp add: intset_ok_def)
  obtain is' vs' where r: "intsetRemove garb is v = Some (is', sint v \<in> set (intset_elems is))" "intset_rep is' vs'"
      "sorted_wrt (<) vs'" "set vs' = set (intset_elems is) - {sint v}"
    using intsetRemove_spec [OF d(1,2) cap] by blast
  have "distinct vs'" using r(3) by (simp add: strict_sorted_iff)
  then have "length vs' = card (set (intset_elems is) - {sint v})" using r(4) distinct_card by metis
  also have "\<dots> \<le> length (intset_elems is)"
    by (rule order_trans [OF card_Diff1_le card_length])
  finally have "length vs' * 8 < 2 ^ 32" using cap by simp
  then have "intset_ok is'" using r intset_ok_rep by blast
  then show ?thesis using r rep_elems by blast
qed

interpretation iset: bounded_int_set intset_ok "\<lambda>is. set (intset_elems is)" "2 ^ 29 - 1"
    "intsetAdd garb" "intsetRemove garb" intsetFind for garb
proof
  fix s v
  assume ok: "intset_ok s"
  then have l: "card (set (intset_elems s)) = unat (len s)"
    using intset_okD(3,5) distinct_card by metis
  show "\<exists>s'. intsetAdd garb s v = Some (s', sint v \<notin> set (intset_elems s)) \<and> intset_ok s' \<and>
      set (intset_elems s') = insert (sint v) (set (intset_elems s))"
    if "card (set (intset_elems s)) < 2 ^ 29 - 1"
    by (rule intsetAdd_ok [OF ok]) (use that l in simp)
qed (simp_all add: intsetRemove_ok intsetFind_ok)

lemma intsetNew_ok: "intset_ok intsetNew" "intset_elems intsetNew = []"
  by (simp_all add: intset_ok_def intset_elems_def intsetNew_def enc_ok_def)

lemma intsetRandom_ok:
  assumes "intset_ok is" "len is \<noteq> 0"
  shows "\<exists>v. intsetRandom r is = Some v \<and> sint v \<in> set (intset_elems is)"
proof -
  note d = intset_okD [OF assms(1)]
  have "r mod unat (len is) < length (intset_elems is)" using assms(2) d(3) by (simp add: unat_gt_0)
  then show ?thesis using rep_get [OF d(1)] assms(2) by (simp add: intsetRandom_def)
qed

lemma intsetGet_ok:
  assumes "intset_ok is"
  shows "intsetGet is pos = Some (if unat pos < unat (len is)
     then Some (word_of_int (intset_elems is ! unat pos)) else None)"
  using intset_okD(1,3) [OF assms] rep_get(1) by (auto simp: intsetGet_def word_less_nat_alt)

section \<open>Properties\<close>

text \<open>
  C23: from the empty set, any sequence of additions, removals and membership tests (short enough
  that the set stays below the capacity \<open>2 ^ 29 - 1\<close>) runs without a memory error, returns at every
  step what the same operation on a mathematical set of integers returns, and ends in a well formed
  blob that stands for the resulting set.
\<close>

theorem intset_refines_set:
  assumes "length cs < 2 ^ 29"
  shows "\<exists>is. set_run (intsetAdd garb) (intsetRemove garb) intsetFind intsetNew cs = Some (is, snd (spec_run {} cs)) \<and>
     intset_ok is \<and> set (intset_elems is) = fst (spec_run {} cs)"
  using iset.run_refines [of intsetNew cs garb] assms intsetNew_ok by simp

theorem intset_refines_set_witness:
  "\<exists>is. set_run (intsetAdd (\<lambda>_. 7)) (intsetRemove (\<lambda>_. 7)) intsetFind intsetNew [SAdd 5, SAdd 70000, SRem 5, SFind 5]
     = Some (is, [True, True, True, False]) \<and> intset_ok is \<and> set (intset_elems is) = {70000}"
  using intset_refines_set [of "[SAdd 5, SAdd 70000, SRem 5, SFind 5]" "\<lambda>_. 7"] by (auto simp: Let_def)

text \<open>
  C27: \<open>intsetAdd\<close> is insertion into the sorted sequence, whether the value fits the current
  encoding (binary search, tail move) or every element has to be widened first: no access leaves
  the blob, the flag says whether the value is new, and the result is the strictly ascending list of
  the enlarged set.
\<close>

theorem intsetAdd_correct:
  assumes "intset_ok is" "unat (len is) < 2 ^ 29 - 1"
  shows "\<exists>is'. intsetAdd garb is v = Some (is', sint v \<notin> set (intset_elems is)) \<and> intset_ok is' \<and>
     intset_elems is' = sorted_list_of_set (insert (sint v) (set (intset_elems is)))"
  using intsetAdd_ok [OF assms] elems_sorted_list by metis

theorem intsetAdd_correct_witness:
  "\<exists>is'. intsetAdd (\<lambda>_. 9) intsetNew 40000 = Some (is', True) \<and> intset_ok is' \<and> intset_elems is' = [40000]"
  using intsetAdd_correct [of intsetNew "\<lambda>_. 9" 40000] intsetNew_ok by (simp add: intsetNew_def)

text \<open>
  \<open>intsetRemove\<close> deletes the value and nothing else, and says whether it was there.
\<close>

theorem intsetRemove_correct:
  assumes "intset_ok is"
  shows "\<exists>is'. intsetRemove garb is v = Some (is', sint v \<in> set (intset_elems is)) \<and> intset_ok is' \<and>
     intset_elems is' = sorted_list_of_set (set (intset_elems is) - {sint v})"
  using intsetRemove_ok [OF assms] elems_sorted_list by metis

theorem intsetRemove_correct_witness:
  "\<exists>is'. intsetRemove (\<lambda>_. 9) intsetNew 3 = Some (is', False) \<and> intset_ok is' \<and> intset_elems is' = []"
  using intsetRemove_correct [of intsetNew "\<lambda>_. 9" 3] intsetNew_ok by simp



text \<open>
  a random element of a non empty set is one of its elements, whatever the generator returns.
\<close>

theorem intsetRandom_member:
  assumes "intset_ok is" "len is \<noteq> 0"
  shows "\<exists>v. intsetRandom rand is = Some v \<and> intsetFind is v = Some True"
  using intsetRandom_ok [OF assms, of rand] intsetFind_ok [OF assms(1)] by auto

end
