(* ===== verification/Dict.thy ===== *)
theory Dict
  imports Redis_Prelude
begin

text \<open>
  dict.c: the hash table behind the keyspace, with chaining and incremental rehashing. A chain of
  entries is the list of its (key, value) pairs from the bucket pointer on, a table is the list of
  its buckets, and a NULL table is \<^term>\<open>None\<close>. The hash function of the dictionary type is the
  parameter \<open>hf\<close>; key comparison is equality of the model's keys. Element and bucket counts are
  natural numbers (they count objects in memory), masks and hashes are machine words, and an access
  outside a table is \<^term>\<open>None\<close>.
\<close>

section \<open>Model: state\<close>

record ('k, 'v) dictht =
  table :: "('k \<times> 'v) list list option"
  ht_size :: nat
  sizemask :: u64
  used :: nat

record ('k, 'v) dict =
  ht0 :: "('k, 'v) dictht"
  ht1 :: "('k, 'v) dictht"
  rehashidx :: int
  iterators :: nat

datatype dict_rc = DICT_OK | DICT_ERR

abbreviation (input) DICT_HT_INITIAL_SIZE :: nat where "DICT_HT_INITIAL_SIZE \<equiv> 4"
abbreviation (input) dict_force_resize_ratio :: nat where "dict_force_resize_ratio \<equiv> 5"

definition dictIsRehashing :: "('k, 'v) dict \<Rightarrow> bool" where
  "dictIsRehashing d \<longleftrightarrow> rehashidx d \<noteq> - 1"

definition dictSize :: "('k, 'v) dict \<Rightarrow> nat" where
  "dictSize d = used (ht0 d) + used (ht1 d)"

definition slots :: "('k, 'v) dictht \<Rightarrow> ('k \<times> 'v) list list" where
  "slots h = (case table h of None \<Rightarrow> [] | Some t \<Rightarrow> t)"

definition dictReset :: "('k, 'v) dictht" where
  "dictReset = \<lparr>table = None, ht_size = 0, sizemask = 0, used = 0\<rparr>"

definition dictCreate :: "('k, 'v) dict" where
  "dictCreate = \<lparr>ht0 = dictReset, ht1 = dictReset, rehashidx = - 1, iterators = 0\<rparr>"

section \<open>Model: sizing\<close>

text \<open>\<open>_dictNextPower\<close>: the variable \<open>i\<close> of the loop is \<open>2 ^ k\<close>.\<close>

function dictNextPower_loop :: "nat \<Rightarrow> nat \<Rightarrow> nat" where
  "dictNextPower_loop sz k = (if 2 ^ k \<ge> sz then 2 ^ k else dictNextPower_loop sz (Suc k))"
  by pat_completeness auto
termination
proof (relation "measure (\<lambda>(s, k). s - 2 ^ k)", goal_cases)
  case (2 sz k)
  have "(2 :: nat) ^ k < 2 ^ Suc k" by simp
  then show ?case using 2 by (simp only: in_measure case_prod_conv not_le)
qed simp

declare dictNextPower_loop.simps [simp del]

definition dictNextPower :: "nat \<Rightarrow> nat" where
  "dictNextPower sz = (if sz \<ge> 2 ^ 63 - 1 then 2 ^ 63 else dictNextPower_loop sz 2)"

text \<open>\<open>zcalloc\<close> is called with a 64 bit byte count.\<close>

definition calloc_slots :: "nat \<Rightarrow> ('k \<times> 'v) list list" where
  "calloc_slots n = replicate (n * 8 mod 2 ^ 64 div 8) []"

definition dictExpand :: "('k, 'v) dict \<Rightarrow> nat \<Rightarrow> ('k, 'v) dict \<times> dict_rc" where
  "dictExpand d sz = (
     let realsize = dictNextPower sz
     in if dictIsRehashing d \<or> used (ht0 d) > sz then (d, DICT_ERR)
        else if realsize = ht_size (ht0 d) then (d, DICT_ERR)
        else
          let n = \<lparr>table = Some (calloc_slots realsize), ht_size = realsize,
                   sizemask = of_nat realsize - 1, used = 0\<rparr>
          in if table (ht0 d) = None then (d\<lparr>ht0 := n\<rparr>, DICT_OK)
             else (d\<lparr>ht1 := n, rehashidx := 0\<rparr>, DICT_OK))"

definition dictResize :: "bool \<Rightarrow> ('k, 'v) dict \<Rightarrow> ('k, 'v) dict \<times> dict_rc" where
  "dictResize can_resize d =
     (if \<not> can_resize \<or> dictIsRehashing d then (d, DICT_ERR)
      else
        let minimal = sint (of_nat (used (ht0 d)) :: s32);
            minimal = (if minimal < int DICT_HT_INITIAL_SIZE then int DICT_HT_INITIAL_SIZE else minimal)
        in dictExpand d (nat minimal))"

definition dictExpandIfNeeded :: "bool \<Rightarrow> ('k, 'v) dict \<Rightarrow> ('k, 'v) dict \<times> dict_rc" where
  "dictExpandIfNeeded can_resize d =
     (if dictIsRehashing d then (d, DICT_OK)
      else if ht_size (ht0 d) = 0 then dictExpand d DICT_HT_INITIAL_SIZE
      else if used (ht0 d) \<ge> ht_size (ht0 d) \<and>
              (can_resize \<or> used (ht0 d) div ht_size (ht0 d) > dict_force_resize_ratio)
      then dictExpand d (used (ht0 d) * 2)
      else (d, DICT_OK))"

section \<open>Model: incremental rehashing\<close>

text \<open>
  The loop that skips empty buckets. The result is the index reached, the visits left and whether
  the budget of empty visits ran out.
\<close>

function skip_empty :: "('k \<times> 'v) list list \<Rightarrow> nat \<Rightarrow> int \<Rightarrow> (nat \<times> int \<times> bool) option" where
  "skip_empty t i empty_visits = do {
     b \<leftarrow> rd t i;
     if b = [] then
       (if empty_visits - 1 = 0 then Some (i + 1, 0, True)
        else skip_empty t (i + 1) (empty_visits - 1))
     else Some (i, empty_visits, False)
   }"
  by pat_completeness auto
termination
  by (relation "measure (\<lambda>(t, i, ev). length t - i)") (auto simp: rd_def split: if_splits)

declare skip_empty.simps [simp del]

text \<open>The loop that moves the entries of one bucket, each to the head of its new chain.\<close>

primrec move_entries ::
  "('k \<Rightarrow> u64) \<Rightarrow> ('k \<times> 'v) list \<Rightarrow> ('k, 'v) dict \<Rightarrow> ('k, 'v) dict option" where
  "move_entries hf [] d = Some d"
| "move_entries hf (de # nextde) d = do {
     let h = unat (ucast (hf (fst de) AND sizemask (ht1 d)) :: u32);
     b \<leftarrow> rd (slots (ht1 d)) h;
     t \<leftarrow> wr (slots (ht1 d)) h (de # b);
     move_entries hf nextde
       (d\<lparr>ht0 := (ht0 d)\<lparr>used := used (ht0 d) - 1\<rparr>,
          ht1 := (ht1 d)\<lparr>table := Some t, used := used (ht1 d) + 1\<rparr>\<rparr>)
   }"

fun rehash_loop ::
  "('k \<Rightarrow> u64) \<Rightarrow> nat \<Rightarrow> int \<Rightarrow> ('k, 'v) dict \<Rightarrow> (('k, 'v) dict \<times> bool) option" where
  "rehash_loop hf 0 ev d = Some (d, False)"
| "rehash_loop hf (Suc n) ev d =
     (if used (ht0 d) = 0 then Some (d, False)
      else if \<not> int (ht_size (ht0 d)) > rehashidx d then None
      else do {
        (i, ev, stop) \<leftarrow> skip_empty (slots (ht0 d)) (nat (rehashidx d)) ev;
        if stop then Some (d\<lparr>rehashidx := int i\<rparr>, True)
        else do {
          b \<leftarrow> rd (slots (ht0 d)) i;
          d \<leftarrow> move_entries hf b d;
          t \<leftarrow> wr (slots (ht0 d)) i [];
          rehash_loop hf n ev (d\<lparr>ht0 := (ht0 d)\<lparr>table := Some t\<rparr>, rehashidx := int i + 1\<rparr>)
        }
      })"

definition dictRehash :: "('k \<Rightarrow> u64) \<Rightarrow> ('k, 'v) dict \<Rightarrow> nat \<Rightarrow> (('k, 'v) dict \<times> bool) option" where
  "dictRehash hf d n =
     (if \<not> dictIsRehashing d then Some (d, False)
      else do {
        (d, stop) \<leftarrow> rehash_loop hf n (int n * 10) d;
        if stop then Some (d, True)
        else if used (ht0 d) = 0 then Some (d\<lparr>ht0 := ht1 d, ht1 := dictReset, rehashidx := - 1\<rparr>, False)
        else Some (d, True)
      })"

definition dictRehashStep :: "('k \<Rightarrow> u64) \<Rightarrow> ('k, 'v) dict \<Rightarrow> ('k, 'v) dict option" where
  "dictRehashStep hf d = (if iterators d = 0 then map_option fst (dictRehash hf d 1) else Some d)"

section \<open>Model: lookup, insertion and deletion\<close>

text \<open>
  A reference to an entry, as the C code passes a \<open>dictEntry *\<close>: the table it is in, its bucket and
  its position in the chain.
\<close>

type_synonym entry_ref = "bool \<times> nat \<times> nat"

definition hash_idx :: "('k \<Rightarrow> u64) \<Rightarrow> 'k \<Rightarrow> u64 \<Rightarrow> nat" where
  "hash_idx hf k m = unat ((ucast (ucast (hf k) :: u32) :: u64) AND m)"

primrec chain_find :: "'k \<Rightarrow> ('k \<times> 'v) list \<Rightarrow> nat option" where
  "chain_find k [] = None"
| "chain_find k (he # rest) = (if k = fst he then Some 0 else map_option Suc (chain_find k rest))"

definition table_find ::
  "('k \<Rightarrow> u64) \<Rightarrow> ('k, 'v) dict \<Rightarrow> 'k \<Rightarrow> entry_ref option option" where
  "table_find hf d k = do {
     let idx = hash_idx hf k (sizemask (ht0 d));
     b \<leftarrow> rd (slots (ht0 d)) idx;
     case chain_find k b of
       Some p \<Rightarrow> Some (Some (False, idx, p))
     | None \<Rightarrow>
         if \<not> dictIsRehashing d then Some None
         else do {
           let idx = hash_idx hf k (sizemask (ht1 d));
           b \<leftarrow> rd (slots (ht1 d)) idx;
           Some (map_option (\<lambda>p. (True, idx, p)) (chain_find k b))
         }
   }"

definition dictFind ::
  "('k \<Rightarrow> u64) \<Rightarrow> ('k, 'v) dict \<Rightarrow> 'k \<Rightarrow> (('k, 'v) dict \<times> entry_ref option) option" where
  "dictFind hf d k =
     (if used (ht0 d) + used (ht1 d) = 0 then Some (d, None)
      else do {
        d \<leftarrow> (if dictIsRehashing d then dictRehashStep hf d else Some d);
        r \<leftarrow> table_find hf d k;
        Some (d, r)
      })"

definition dictGetVal :: "('k, 'v) dict \<Rightarrow> entry_ref \<Rightarrow> 'v option" where
  "dictGetVal d r = (case r of (t, idx, p) \<Rightarrow> do {
     b \<leftarrow> rd (slots (if t then ht1 d else ht0 d)) idx;
     e \<leftarrow> rd b p;
     Some (snd e)
   })"

definition dictSetVal :: "('k, 'v) dict \<Rightarrow> entry_ref \<Rightarrow> 'v \<Rightarrow> ('k, 'v) dict option" where
  "dictSetVal d r v = (case r of (t, idx, p) \<Rightarrow> do {
     b \<leftarrow> rd (slots (if t then ht1 d else ht0 d)) idx;
     e \<leftarrow> rd b p;
     let tbl = (slots (if t then ht1 d else ht0 d))[idx := b[p := (fst e, v)]];
     Some (if t then d\<lparr>ht1 := (ht1 d)\<lparr>table := Some tbl\<rparr>\<rparr> else d\<lparr>ht0 := (ht0 d)\<lparr>table := Some tbl\<rparr>\<rparr>)
   })"

definition dictFetchValue ::
  "('k \<Rightarrow> u64) \<Rightarrow> ('k, 'v) dict \<Rightarrow> 'k \<Rightarrow> (('k, 'v) dict \<times> 'v option) option" where
  "dictFetchValue hf d k = do {
     (d, he) \<leftarrow> dictFind hf d k;
     case he of None \<Rightarrow> Some (d, None)
     | Some r \<Rightarrow> do { v \<leftarrow> dictGetVal d r; Some (d, Some v) }
   }"

text \<open>
  \<open>_dictKeyIndex\<close> returns the bucket index as a C \<open>int\<close>, where -1 stands for an existing key.
\<close>

definition dictKeyIndex ::
  "('k \<Rightarrow> u64) \<Rightarrow> bool \<Rightarrow> ('k, 'v) dict \<Rightarrow> 'k \<Rightarrow> (('k, 'v) dict \<times> s32 \<times> entry_ref option) option" where
  "dictKeyIndex hf can_resize d k = (
     let (d, rc) = dictExpandIfNeeded can_resize d
     in if rc = DICT_ERR then Some (d, - 1, None)
        else do {
          r \<leftarrow> table_find hf d k;
          case r of
            Some he \<Rightarrow> Some (d, - 1, Some he)
          | None \<Rightarrow> Some (d, of_nat (hash_idx hf k (sizemask (if dictIsRehashing d then ht1 d else ht0 d))), None)
        })"

text \<open>
  \<open>dictAddRaw\<close> leaves the value of the new entry to the caller; until then it is what the allocator
  left there (\<open>garb\<close>). The result is the new entry, or the existing one.
\<close>

definition dictAddRaw ::
  "('k \<Rightarrow> u64) \<Rightarrow> bool \<Rightarrow> 'v \<Rightarrow> ('k, 'v) dict \<Rightarrow> 'k \<Rightarrow>
     (('k, 'v) dict \<times> entry_ref option \<times> entry_ref option) option" where
  "dictAddRaw hf can_resize garb d k = do {
     d \<leftarrow> (if dictIsRehashing d then dictRehashStep hf d else Some d);
     (d, index, existing) \<leftarrow> dictKeyIndex hf can_resize d k;
     if index = - 1 then Some (d, None, existing)
     else if index <s 0 then None
     else do {
       let t = dictIsRehashing d;
       let ht = (if t then ht1 d else ht0 d);
       b \<leftarrow> rd (slots ht) (unat index);
       tbl \<leftarrow> wr (slots ht) (unat index) ((k, garb) # b);
       let ht = ht\<lparr>table := Some tbl, used := used ht + 1\<rparr>;
       Some (if t then d\<lparr>ht1 := ht\<rparr> else d\<lparr>ht0 := ht\<rparr>, Some (t, unat index, 0), existing)
     }
   }"

definition dictAdd ::
  "('k \<Rightarrow> u64) \<Rightarrow> bool \<Rightarrow> 'v \<Rightarrow> ('k, 'v) dict \<Rightarrow> 'k \<Rightarrow> 'v \<Rightarrow> (('k, 'v) dict \<times> dict_rc) option" where
  "dictAdd hf can_resize garb d k v = do {
     (d, entry, _) \<leftarrow> dictAddRaw hf can_resize garb d k;
     case entry of None \<Rightarrow> Some (d, DICT_ERR)
     | Some e \<Rightarrow> do { d \<leftarrow> dictSetVal d e v; Some (d, DICT_OK) }
   }"

text \<open>\<open>dictReplace\<close> dereferences \<open>existing\<close>, which is NULL when the expansion failed.\<close>

definition dictReplace ::
  "('k \<Rightarrow> u64) \<Rightarrow> bool \<Rightarrow> 'v \<Rightarrow> ('k, 'v) dict \<Rightarrow> 'k \<Rightarrow> 'v \<Rightarrow> (('k, 'v) dict \<times> bool) option" where
  "dictReplace hf can_resize garb d k v = do {
     (d, entry, existing) \<leftarrow> dictAddRaw hf can_resize garb d k;
     case entry of
       Some e \<Rightarrow> do { d \<leftarrow> dictSetVal d e v; Some (d, True) }
     | None \<Rightarrow> do { e \<leftarrow> existing; d \<leftarrow> dictSetVal d e v; Some (d, False) }
   }"

definition dictAddOrFind ::
  "('k \<Rightarrow> u64) \<Rightarrow> bool \<Rightarrow> 'v \<Rightarrow> ('k, 'v) dict \<Rightarrow> 'k \<Rightarrow> (('k, 'v) dict \<times> entry_ref option) option" where
  "dictAddOrFind hf can_resize garb d k = do {
     (d, entry, existing) \<leftarrow> dictAddRaw hf can_resize garb d k;
     Some (d, if entry \<noteq> None then entry else existing)
   }"

primrec chain_remove :: "'k \<Rightarrow> ('k \<times> 'v) list \<Rightarrow> (('k \<times> 'v) \<times> ('k \<times> 'v) list) option" where
  "chain_remove k [] = None"
| "chain_remove k (he # rest) =
     (if k = fst he then Some (he, rest) else map_option (\<lambda>(e, r). (e, he # r)) (chain_remove k rest))"

definition ht_remove ::
  "('k \<Rightarrow> u64) \<Rightarrow> ('k, 'v) dictht \<Rightarrow> 'k \<Rightarrow> (('k, 'v) dictht \<times> ('k \<times> 'v) option) option" where
  "ht_remove hf h k = do {
     let idx = hash_idx hf k (sizemask h);
     b \<leftarrow> rd (slots h) idx;
     case chain_remove k b of
       None \<Rightarrow> Some (h, None)
     | Some (he, b') \<Rightarrow> Some (h\<lparr>table := Some ((slots h)[idx := b']), used := used h - 1\<rparr>, Some he)
   }"

definition dictGenericDelete ::
  "('k \<Rightarrow> u64) \<Rightarrow> ('k, 'v) dict \<Rightarrow> 'k \<Rightarrow> (('k, 'v) dict \<times> ('k \<times> 'v) option) option" where
  "dictGenericDelete hf d k =
     (if used (ht0 d) = 0 \<and> used (ht1 d) = 0 then Some (d, None)
      else do {
        d \<leftarrow> (if dictIsRehashing d then dictRehashStep hf d else Some d);
        (h, he) \<leftarrow> ht_remove hf (ht0 d) k;
        case he of
          Some e \<Rightarrow> Some (d\<lparr>ht0 := h\<rparr>, Some e)
        | None \<Rightarrow>
            if \<not> dictIsRehashing d then Some (d, None)
            else do { (h, he) \<leftarrow> ht_remove hf (ht1 d) k; Some (d\<lparr>ht1 := h\<rparr>, he) }
      })"

definition dictDelete :: "('k \<Rightarrow> u64) \<Rightarrow> ('k, 'v) dict \<Rightarrow> 'k \<Rightarrow> (('k, 'v) dict \<times> dict_rc) option" where
  "dictDelete hf d k = do {
     (d, he) \<leftarrow> dictGenericDelete hf d k;
     Some (d, if he \<noteq> None then DICT_OK else DICT_ERR)
   }"

definition dictUnlink ::
  "('k \<Rightarrow> u64) \<Rightarrow> ('k, 'v) dict \<Rightarrow> 'k \<Rightarrow> (('k, 'v) dict \<times> ('k \<times> 'v) option) option" where
  "dictUnlink hf d k = dictGenericDelete hf d k"

text \<open>
  \<open>_dictClear\<close> frees the entries bucket by bucket until \<open>used\<close> reaches zero; the result is the
  table after \<open>_dictReset\<close> and the list of the entries it freed.
\<close>

fun dictClear_loop :: "('k \<times> 'v) list list \<Rightarrow> nat \<Rightarrow> ('k \<times> 'v) list" where
  "dictClear_loop [] u = []"
| "dictClear_loop (b # bs) u = (if u > 0 then b @ dictClear_loop bs (u - length b) else [])"

definition dictClear :: "('k, 'v) dictht \<Rightarrow> ('k, 'v) dictht \<times> ('k \<times> 'v) list" where
  "dictClear h = (dictReset, dictClear_loop (take (ht_size h) (slots h)) (used h))"

definition dictEmpty :: "('k, 'v) dict \<Rightarrow> ('k, 'v) dict \<times> ('k \<times> 'v) list" where
  "dictEmpty d = (
     let (h0, f0) = dictClear (ht0 d);
         (h1, f1) = dictClear (ht1 d)
     in (d\<lparr>ht0 := h0, ht1 := h1, rehashidx := - 1, iterators := 0\<rparr>, f0 @ f1))"

end
