(* ===== verification/Map_Interface.thy ===== *)
theory Map_Interface
  imports Redis_Prelude
begin

text \<open>
  The contract of a mutable finite map, as the keyspace relies on it: insertion that refuses an
  existing key, insertion that overwrites, deletion and lookup, each of which may also reorganise
  the representation. The lemma carries the laws of the single operations to every sequence of them.
\<close>

datatype ('k, 'v) map_op = MAdd 'k 'v | MReplace 'k 'v | MDelete 'k | MFetch 'k

datatype 'v map_res = Done bool | Got "'v option"

primrec map_run ::
  "('s \<Rightarrow> 'k \<Rightarrow> 'v \<Rightarrow> ('s \<times> bool) option) \<Rightarrow> ('s \<Rightarrow> 'k \<Rightarrow> 'v \<Rightarrow> ('s \<times> bool) option) \<Rightarrow> ('s \<Rightarrow> 'k \<Rightarrow> ('s \<times> bool) option) \<Rightarrow>
     ('s \<Rightarrow> 'k \<Rightarrow> ('s \<times> 'v option) option) \<Rightarrow> 's \<Rightarrow> ('k, 'v) map_op list \<Rightarrow> ('s \<times> 'v map_res list) option" where
  "map_run add repl del fetch s [] = Some (s, [])"
| "map_run add repl del fetch s (c # cs) = do {
     (s, r) \<leftarrow> (case c of
         MAdd k v \<Rightarrow> map_option (\<lambda>(s, b). (s, Done b)) (add s k v)
       | MReplace k v \<Rightarrow> map_option (\<lambda>(s, b). (s, Done b)) (repl s k v)
       | MDelete k \<Rightarrow> map_option (\<lambda>(s, b). (s, Done b)) (del s k)
       | MFetch k \<Rightarrow> map_option (\<lambda>(s, v). (s, Got v)) (fetch s k));
     (s, rs) \<leftarrow> map_run add repl del fetch s cs;
     Some (s, r # rs)
   }"

text \<open>The same sequence on a mathematical map.\<close>

fun map_spec :: "('k \<rightharpoonup> 'v) \<Rightarrow> ('k, 'v) map_op \<Rightarrow> ('k \<rightharpoonup> 'v) \<times> 'v map_res" where
  "map_spec m (MAdd k v) = (if m k = None then (m(k \<mapsto> v), Done True) else (m, Done False))"
| "map_spec m (MReplace k v) = (m(k \<mapsto> v), Done (m k = None))"
| "map_spec m (MDelete k) = (m(k := None), Done (m k \<noteq> None))"
| "map_spec m (MFetch k) = (m, Got (m k))"

primrec map_spec_run :: "('k \<rightharpoonup> 'v) \<Rightarrow> ('k, 'v) map_op list \<Rightarrow> ('k \<rightharpoonup> 'v) \<times> 'v map_res list" where
  "map_spec_run m [] = (m, [])"
| "map_spec_run m (c # cs) = (let (m, r) = map_spec m c; (m, rs) = map_spec_run m cs in (m, r # rs))"

locale bounded_map =
  fixes invar :: "'s \<Rightarrow> bool"
    and abs_map :: "'s \<Rightarrow> 'k \<rightharpoonup> 'v"
    and count :: "'s \<Rightarrow> nat"
    and capacity :: nat
    and add :: "'s \<Rightarrow> 'k \<Rightarrow> 'v \<Rightarrow> ('s \<times> bool) option"
    and repl :: "'s \<Rightarrow> 'k \<Rightarrow> 'v \<Rightarrow> ('s \<times> bool) option"
    and del :: "'s \<Rightarrow> 'k \<Rightarrow> ('s \<times> bool) option"
    and fetch :: "'s \<Rightarrow> 'k \<Rightarrow> ('s \<times> 'v option) option"
  assumes add_law: "invar s \<Longrightarrow> count s < capacity \<Longrightarrow>
      \<exists>s'. add s k v = Some (s', abs_map s k = None) \<and> invar s' \<and> count s' \<le> count s + 1 \<and>
        abs_map s' = (if abs_map s k = None then (abs_map s)(k \<mapsto> v) else abs_map s)"
    and repl_law: "invar s \<Longrightarrow> count s < capacity \<Longrightarrow>
      \<exists>s'. repl s k v = Some (s', abs_map s k = None) \<and> invar s' \<and> count s' \<le> count s + 1 \<and> abs_map s' = (abs_map s)(k \<mapsto> v)"
    and del_law: "invar s \<Longrightarrow>
      \<exists>s'. del s k = Some (s', abs_map s k \<noteq> None) \<and> invar s' \<and> count s' \<le> count s \<and> abs_map s' = (abs_map s)(k := None)"
    and fetch_law: "invar s \<Longrightarrow>
      \<exists>s'. fetch s k = Some (s', abs_map s k) \<and> invar s' \<and> count s' \<le> count s \<and> abs_map s' = abs_map s"
begin

lemma step_refines:
  assumes "invar s" "count s < capacity"
  shows "\<exists>s'. (case c of
         MAdd k v \<Rightarrow> map_option (\<lambda>(s, b). (s, Done b)) (add s k v)
       | MReplace k v \<Rightarrow> map_option (\<lambda>(s, b). (s, Done b)) (repl s k v)
       | MDelete k \<Rightarrow> map_option (\<lambda>(s, b). (s, Done b)) (del s k)
       | MFetch k \<Rightarrow> map_option (\<lambda>(s, v). (s, Got v)) (fetch s k)) = Some (s', snd (map_spec (abs_map s) c)) \<and>
     invar s' \<and> count s' \<le> count s + 1 \<and> abs_map s' = fst (map_spec (abs_map s) c)"
proof (cases c)
  case (MAdd k v)
  then show ?thesis using add_law [OF assms, of k v] by auto
next
  case (MReplace k v)
  then show ?thesis using repl_law [OF assms, of k v] by auto
next
  case (MDelete k)
  then show ?thesis using del_law [OF assms(1), of k] by fastforce
next
  case (MFetch k)
  then show ?thesis using fetch_law [OF assms(1), of k] by fastforce
qed

lemma run_refines:
  assumes "invar s" "count s + length cs \<le> capacity"
  shows "\<exists>s'. map_run add repl del fetch s cs = Some (s', snd (map_spec_run (abs_map s) cs)) \<and> invar s' \<and>
     abs_map s' = fst (map_spec_run (abs_map s) cs)"
  using assms
proof (induction cs arbitrary: s)
  case (Cons c cs)
  then have "count s < capacity" by simp
  from step_refines [OF Cons.prems(1) this, of c] obtain s1 where
    s1: "(case c of
         MAdd k v \<Rightarrow> map_option (\<lambda>(s, b). (s, Done b)) (add s k v)
       | MReplace k v \<Rightarrow> map_option (\<lambda>(s, b). (s, Done b)) (repl s k v)
       | MDelete k \<Rightarrow> map_option (\<lambda>(s, b). (s, Done b)) (del s k)
       | MFetch k \<Rightarrow> map_option (\<lambda>(s, v). (s, Got v)) (fetch s k)) = Some (s1, snd (map_spec (abs_map s) c))"
    "invar s1" "count s1 \<le> count s + 1" "abs_map s1 = fst (map_spec (abs_map s) c)" by blast
  have "count s1 + length cs \<le> capacity" using s1(3) Cons.prems(2) by simp
  from Cons.IH [OF s1(2) this] show ?case
    using s1(1,4) by (auto simp: Let_def split: prod.splits)
qed simp

end

end
