(* ===== verification/Dict_Map.thy ===== *)
theory Dict_Map
  imports Dict Map_Interface "HOL-Library.Multiset"
begin

text \<open>
  The hash table of dict.c is a finite map: the well-formedness invariant, its preservation by every
  operation, the map a table stands for, and the refinement of the map contract, in every stage of the
  incremental rehashing.
\<close>

section \<open>Invariant and abstraction\<close>

definition ht_ok :: "('k \<Rightarrow> u64) \<Rightarrow> ('k, 'v) dictht \<Rightarrow> bool" where
  "ht_ok hf h \<longleftrightarrow>
     (if table h = None then h = dictReset
      else \<exists>e \<le> 31. 2 \<le> e \<and> ht_size h = 2 ^ e \<and> length (slots h) = 2 ^ e \<and> sizemask h = 2 ^ e - 1 \<and>
        used h = length (concat (slots h)) \<and>
        (\<forall>i < length (slots h). \<forall>x \<in> set (slots h ! i). hash_idx hf (fst x) (sizemask h) = i))"

definition entries :: "('k, 'v) dict \<Rightarrow> ('k \<times> 'v) list" where
  "entries d = concat (slots (ht0 d)) @ concat (slots (ht1 d))"

definition rehash_ok :: "('k, 'v) dict \<Rightarrow> bool" where
  "rehash_ok d \<longleftrightarrow>
     (if dictIsRehashing d
      then 0 \<le> rehashidx d \<and> rehashidx d \<le> int (ht_size (ht0 d)) \<and> table (ht0 d) \<noteq> None \<and> table (ht1 d) \<noteq> None \<and>
        (\<forall>i < nat (rehashidx d). slots (ht0 d) ! i = [])
      else ht1 d = dictReset)"

definition dict_ok :: "('k \<Rightarrow> u64) \<Rightarrow> ('k, 'v) dict \<Rightarrow> bool" where
  "dict_ok hf d \<longleftrightarrow> ht_ok hf (ht0 d) \<and> ht_ok hf (ht1 d) \<and> rehash_ok d \<and> distinct (map fst (entries d))"

definition dict_map :: "('k, 'v) dict \<Rightarrow> 'k \<rightharpoonup> 'v" where
  "dict_map d = map_of (entries d)"

section \<open>Buckets and masks\<close>

lemma slots_simps [simp]:
  "slots (h\<lparr>table := Some t\<rparr>) = t" "slots (h\<lparr>used := u\<rparr>) = slots h" "slots dictReset = []"
  "slots (h\<lparr>table := Some t, used := u\<rparr>) = t"
  "slots \<lparr>table = Some t, ht_size = n, sizemask = m, used = u\<rparr> = t"
  by (simp_all add: slots_def dictReset_def)

lemma hash_idx_mask: "hash_idx hf k (2 ^ e - 1) = unat (ucast (hf k) :: u32) mod 2 ^ e" if "e \<le> 31"
proof -
  have "(2 ^ e - 1 :: u64) = mask e" by (simp add: mask_eq_exp_minus_1)
  then have "(ucast (ucast (hf k) :: u32) :: u64) AND (2 ^ e - 1) = take_bit e (ucast (ucast (hf k) :: u32))"
    by (simp only: take_bit_eq_mask)
  moreover have "unat (take_bit e (ucast (ucast (hf k) :: u32) :: u64)) = take_bit e (unat (ucast (hf k) :: u32))"
    by (simp add: unsigned_take_bit_eq unsigned_ucast_eq take_bit_nat_eq_self_iff)
  ultimately show ?thesis by (simp add: hash_idx_def take_bit_eq_mod)
qed


lemma hash_idx_less: "e \<le> 31 \<Longrightarrow> hash_idx hf k (2 ^ e - 1) < 2 ^ e"
  by (simp add: hash_idx_mask)

lemma rehash_idx: "unat (ucast (hf k AND m) :: u32) = hash_idx hf k m"
proof -
  have "(ucast (ucast (hf k AND m) :: u32) :: u64) = ucast (ucast (hf k) :: u32) AND m"
    by (rule bit_word_eqI) (auto simp: bit_simps)
  then have "unat (ucast (ucast (hf k AND m) :: u32) :: u64) = hash_idx hf k m" by (simp add: hash_idx_def)
  moreover have "unat (ucast (w :: u32) :: u64) = unat w" for w
    using unat_less_2p [of w] by (simp add: unsigned_ucast_eq take_bit_nat_eq_self)
  ultimately show ?thesis by simp
qed

lemma mset_concat_update:
  "i < length t \<Longrightarrow> mset (concat (t[i := b])) + mset (t ! i) = mset (concat t) + mset b"
proof (induction t arbitrary: i)
  case (Cons a t)
  then show ?case by (cases i) (auto simp: ac_simps)
qed simp

lemma mset_concat_cons:
  "i < length t \<Longrightarrow> mset (concat (t[i := x # t ! i])) = add_mset x (mset (concat t))"
  using mset_concat_update [of i t "x # t ! i"] by (simp del: mset_concat)

lemma ht_okE:
  assumes "ht_ok hf h" "table h \<noteq> None"
  obtains e where "2 \<le> e" "e \<le> 31" "ht_size h = 2 ^ e" "length (slots h) = 2 ^ e" "sizemask h = 2 ^ e - 1"
    "used h = length (concat (slots h))"
    "\<forall>i < length (slots h). \<forall>x \<in> set (slots h ! i). hash_idx hf (fst x) (sizemask h) = i"
proof -
  note x = assms(1) [unfolded ht_ok_def if_not_P [OF assms(2)]]
  from x show thesis by (elim exE conjE) (rule that)
qed

lemma ht_ok_idx: "ht_ok hf h \<Longrightarrow> table h \<noteq> None \<Longrightarrow> hash_idx hf k (sizemask h) < length (slots h)"
  by (erule (1) ht_okE) (simp only: hash_idx_less)

lemma ht_ok_home:
  "ht_ok hf h \<Longrightarrow> table h \<noteq> None \<Longrightarrow> i < length (slots h) \<Longrightarrow> x \<in> set (slots h ! i) \<Longrightarrow>
     hash_idx hf (fst x) (sizemask h) = i"
  by (erule (1) ht_okE) blast

lemma ht_ok_size: "ht_ok hf h \<Longrightarrow> length (slots h) = ht_size h"
  by (cases "table h = None") (simp add: ht_ok_def dictReset_def slots_def, erule (1) ht_okE, simp only:)

lemma ht_ok_used: "ht_ok hf h \<Longrightarrow> used h = length (concat (slots h))"
proof (cases "table h = None")
  case True
  moreover assume "ht_ok hf h"
  ultimately show ?thesis by (simp add: ht_ok_def dictReset_def slots_def)
next
  case False
  assume "ht_ok hf h"
  then show ?thesis using False by (rule ht_okE)
qed

text \<open>A table with one bucket replaced.\<close>

lemma ht_ok_update:
  assumes ok: "ht_ok hf h" and t: "table h \<noteq> None" and i: "i < length (slots h)"
    and b: "\<And>x. x \<in> set b \<Longrightarrow> hash_idx hf (fst x) (sizemask h) = i"
    and u: "u + length (slots h ! i) = used h + length b"
  shows "ht_ok hf (h\<lparr>table := Some ((slots h)[i := b]), used := u\<rparr>)"
proof -
  obtain e where e: "2 \<le> e" "e \<le> 31" "ht_size h = 2 ^ e" "length (slots h) = 2 ^ e" "sizemask h = 2 ^ e - 1"
    "used h = length (concat (slots h))"
    "\<forall>i < length (slots h). \<forall>x \<in> set (slots h ! i). hash_idx hf (fst x) (sizemask h) = i"
    by (rule ht_okE [OF ok t])
  have "size (mset (concat ((slots h)[i := b]))) + size (mset (slots h ! i)) = size (mset (concat (slots h))) + size (mset b)"
    using mset_concat_update [OF i, of b] by (metis size_union)
  then have "u = length (concat ((slots h)[i := b]))" using u e(6) by (simp only: size_mset)
  moreover have "\<forall>j < length (slots h). \<forall>x \<in> set ((slots h)[i := b] ! j). hash_idx hf (fst x) (sizemask h) = j"
    using b e(7) i by (auto simp: nth_list_update)
  ultimately show ?thesis using e(1-5) unfolding ht_ok_def
    by (auto simp del: length_concat)
qed

section \<open>Rehashing preserves the entries\<close>

lemma move_entries_spec:
  assumes "ht_ok hf (ht1 d)" "table (ht1 d) \<noteq> None"
  shows "\<exists>h. move_entries hf b d = Some (d\<lparr>ht0 := (ht0 d)\<lparr>used := used (ht0 d) - length b\<rparr>, ht1 := h\<rparr>) \<and>
     ht_ok hf h \<and> table h \<noteq> None \<and> mset (concat (slots h)) = mset (concat (slots (ht1 d))) + mset b"
  using assms
proof (induction b arbitrary: d)
  case Nil
  then show ?case by (auto intro!: exI [of _ "ht1 d"])
next
  case (Cons x b)
  let ?h = "ht1 d" and ?i = "hash_idx hf (fst x) (sizemask (ht1 d))"
  have i: "?i < length (slots ?h)" by (rule ht_ok_idx [OF Cons.prems])
  let ?h1 = "?h\<lparr>table := Some ((slots ?h)[?i := x # slots ?h ! ?i]), used := used ?h + 1\<rparr>"
  let ?d = "d\<lparr>ht0 := (ht0 d)\<lparr>used := used (ht0 d) - 1\<rparr>, ht1 := ?h1\<rparr>"
  have ok: "ht_ok hf ?h1"
  proof (rule ht_ok_update [OF Cons.prems i])
    fix y assume "y \<in> set (x # slots ?h ! ?i)"
    then show "hash_idx hf (fst y) (sizemask ?h) = ?i" using ht_ok_home [OF Cons.prems i, of y] by auto
  qed simp
  have st: "move_entries hf (x # b) d = move_entries hf b ?d"
    using i by (simp add: rehash_idx Let_def)
  have sl: "slots (ht1 ?d) = (slots ?h)[?i := x # slots ?h ! ?i]" by simp
  have "ht_ok hf (ht1 ?d)" "table (ht1 ?d) \<noteq> None" using ok by simp_all
  from Cons.IH [OF this]
  obtain h where h: "move_entries hf b ?d = Some (?d\<lparr>ht0 := (ht0 ?d)\<lparr>used := used (ht0 ?d) - length b\<rparr>, ht1 := h\<rparr>)"
      "ht_ok hf h" "table h \<noteq> None" "mset (concat (slots h)) = mset (concat (slots (ht1 ?d))) + mset b"
    by blast
  have "mset (concat (slots h)) = mset (concat (slots ?h)) + mset (x # b)"
    unfolding h(4) sl mset_concat_cons [OF i] by (simp del: mset_concat)
  moreover have "move_entries hf b ?d = Some (d\<lparr>ht0 := (ht0 d)\<lparr>used := used (ht0 d) - length (x # b)\<rparr>, ht1 := h\<rparr>)"
    unfolding h(1) by simp
  ultimately show ?case unfolding st using h(2,3) by blast
qed

lemma skip_empty_spec:
  assumes "j < length t" "t ! j \<noteq> []" "i \<le> j"
  shows "\<exists>k ev' stop. skip_empty t i ev = Some (k, ev', stop) \<and> i \<le> k \<and> k \<le> length t \<and>
     (\<forall>m. i \<le> m \<and> m < k \<longrightarrow> t ! m = []) \<and> (if stop then i < k else k < length t \<and> t ! k \<noteq> [])"
  using assms
proof (induction "length t - i" arbitrary: i ev rule: less_induct)
  case less
  show ?case
  proof (cases "t ! i = []")
    case False
    then have "skip_empty t i ev = Some (i, ev, False)" using less.prems by (subst skip_empty.simps) simp
    then show ?thesis using False less.prems by (intro exI [of _ i] exI [of _ ev] exI [of _ False]) auto
  next
    case True
    then have ij: "i < j" using less.prems by (cases "i = j") auto
    show ?thesis
    proof (cases "ev - 1 = 0")
      case ev: True
      have "skip_empty t i ev = Some (i + 1, 0, True)"
        using True ev less.prems by (subst skip_empty.simps) simp
      moreover have "\<forall>m. i \<le> m \<and> m < i + 1 \<longrightarrow> t ! m = []" using True less_Suc_eq by auto
      ultimately show ?thesis using less.prems by (intro exI [of _ "i + 1"] exI [of _ 0] exI [of _ True]) simp
    next
      case ev: False
      have "skip_empty t i ev = skip_empty t (i + 1) (ev - 1)"
        using True ev less.prems by (subst skip_empty.simps) simp
      moreover have lt: "length t - (i + 1) < length t - i" "i + 1 \<le> j" using ij less.prems(1) by linarith+
      from less.hyps [OF lt(1) less.prems(1,2) lt(2), of "ev - 1"]
      obtain k ev' stop where k: "skip_empty t (i + 1) (ev - 1) = Some (k, ev', stop)" "i + 1 \<le> k" "k \<le> length t"
          "\<forall>m. i + 1 \<le> m \<and> m < k \<longrightarrow> t ! m = []" "if stop then i + 1 < k else k < length t \<and> t ! k \<noteq> []"
        by blast
      moreover have "\<forall>m. i \<le> m \<and> m < k \<longrightarrow> t ! m = []"
      proof (intro allI impI)
        fix m assume m: "i \<le> m \<and> m < k"
        show "t ! m = []" using k(4) True m by (cases "m = i") auto
      qed
      moreover have "if stop then i < k else k < length t \<and> t ! k \<noteq> []" using k(5) by (auto split: if_splits)
      ultimately show ?thesis using k(1-3) by (intro exI [of _ k] exI [of _ ev'] exI [of _ stop]) simp
    qed
  qed
qed

lemma ex_nonempty_bucket:
  assumes "concat t \<noteq> []" "\<forall>m < i. t ! m = []"
  shows "\<exists>j. i \<le> j \<and> j < length t \<and> t ! j \<noteq> []"
proof -
  from assms(1) obtain b where "b \<in> set t" "b \<noteq> []" by auto
  then obtain j where "j < length t" "t ! j \<noteq> []" by (auto simp: in_set_conv_nth)
  then show ?thesis using assms(2) not_less by blast
qed

text \<open>What a number of rehashing steps keeps, and how far they get.\<close>

definition same_entries :: "('k, 'v) dict \<Rightarrow> ('k, 'v) dict \<Rightarrow> bool" where
  "same_entries d d' \<longleftrightarrow> mset (entries d') = mset (entries d) \<and> iterators d' = iterators d"

lemma mset_entries: "mset (entries d) = mset (concat (slots (ht0 d))) + mset (concat (slots (ht1 d)))"
  by (simp add: entries_def)

lemma same_entries_distinct: "same_entries d d' \<Longrightarrow> distinct (map fst (entries d)) \<Longrightarrow> distinct (map fst (entries d'))"
proof -
  assume "same_entries d d'"
  then have "mset (map fst (entries d')) = mset (map fst (entries d))" by (simp add: same_entries_def)
  then have "distinct (map fst (entries d')) = distinct (map fst (entries d))" by (rule mset_eq_imp_distinct_iff)
  then show "distinct (map fst (entries d)) \<Longrightarrow> distinct (map fst (entries d'))" by simp
qed

text \<open>One bucket moved, as one turn of the loop does it.\<close>

lemma rehash_bucket:
  assumes ok: "dict_ok hf d" and rh: "dictIsRehashing d"
    and i: "nat (rehashidx d) \<le> i" "i < length (slots (ht0 d))" "\<forall>m. nat (rehashidx d) \<le> m \<and> m < i \<longrightarrow> slots (ht0 d) ! m = []"
  shows "\<exists>h. move_entries hf (slots (ht0 d) ! i) d =
        Some (d\<lparr>ht0 := (ht0 d)\<lparr>used := used (ht0 d) - length (slots (ht0 d) ! i)\<rparr>, ht1 := h\<rparr>) \<and>
     (let d' = d\<lparr>ht0 := (ht0 d)\<lparr>table := Some ((slots (ht0 d))[i := []]), used := used (ht0 d) - length (slots (ht0 d) ! i)\<rparr>,
                 ht1 := h, rehashidx := int i + 1\<rparr>
      in dict_ok hf d' \<and> dictIsRehashing d' \<and> same_entries d d')"
proof -
  let ?b = "slots (ht0 d) ! i"
  have o: "ht_ok hf (ht0 d)" "ht_ok hf (ht1 d)" "table (ht0 d) \<noteq> None" "table (ht1 d) \<noteq> None" "0 \<le> rehashidx d"
    "\<forall>m < nat (rehashidx d). slots (ht0 d) ! m = []"
    using ok rh by (auto simp: dict_ok_def rehash_ok_def)
  obtain h where h: "move_entries hf ?b d = Some (d\<lparr>ht0 := (ht0 d)\<lparr>used := used (ht0 d) - length ?b\<rparr>, ht1 := h\<rparr>)"
      "ht_ok hf h" "table h \<noteq> None" "mset (concat (slots h)) = mset (concat (slots (ht1 d))) + mset ?b"
    using move_entries_spec [OF o(2,4), of ?b] by blast
  define d' where "d' = d\<lparr>ht0 := (ht0 d)\<lparr>table := Some ((slots (ht0 d))[i := []]), used := used (ht0 d) - length ?b\<rparr>,
                 ht1 := h, rehashidx := int i + 1\<rparr>"
  have mu: "mset (concat ((slots (ht0 d))[i := []])) + mset ?b = mset (concat (slots (ht0 d)))"
    using mset_concat_update [OF i(2), of "[]"] by (simp del: mset_concat)
  then have "size (mset (concat ((slots (ht0 d))[i := []]))) + size (mset ?b) = size (mset (concat (slots (ht0 d))))"
    by (metis size_union)
  then have le: "length ?b \<le> used (ht0 d)" using ht_ok_used [OF o(1)] by (simp only: size_mset)
  have "ht_ok hf (ht0 d')" unfolding d'_def using ht_ok_update [OF o(1,3) i(2), of "[]" "used (ht0 d) - length ?b"] le by simp
  moreover have "ht_ok hf (ht1 d')" using h(2) by (simp add: d'_def)
  moreover have se: "same_entries d d'"
    unfolding same_entries_def mset_entries using mu h(4) by (simp add: d'_def ac_simps del: mset_concat)
  moreover have "rehash_ok d'"
  proof -
    have "\<forall>m < nat (int i + 1). (slots (ht0 d))[i := []] ! m = []"
      using o(6) i by (auto simp: nth_list_update less_Suc_eq nat_add_distrib not_less) (metis not_less)
    then show ?thesis using i(2) ht_ok_size [OF o(1)] h(3) by (simp add: rehash_ok_def d'_def dictIsRehashing_def)
  qed
  moreover have "distinct (map fst (entries d'))" using same_entries_distinct [OF se] ok by (simp add: dict_ok_def)
  ultimately have "dict_ok hf d'" by (simp only: dict_ok_def)
  moreover have "dictIsRehashing d'" by (simp add: d'_def dictIsRehashing_def)
  ultimately show ?thesis using se by (intro exI [of _ h]) (simp only: h(1) Let_def d'_def [symmetric])
qed

lemma same_entries_trans: "same_entries d d' \<Longrightarrow> same_entries d' d'' \<Longrightarrow> same_entries d d''"
  by (simp add: same_entries_def)

lemma same_entries_refl [simp]: "same_entries d d"
  by (simp add: same_entries_def)

lemma rehashing_used:
  assumes "dict_ok hf d" "dictIsRehashing d" "used (ht0 d) \<noteq> 0"
  shows "\<exists>j. nat (rehashidx d) \<le> j \<and> j < length (slots (ht0 d)) \<and> slots (ht0 d) ! j \<noteq> []"
proof (rule ex_nonempty_bucket)
  have "ht_ok hf (ht0 d)" using assms(1) by (simp only: dict_ok_def)
  from ht_ok_used [OF this] assms(3) have "length (concat (slots (ht0 d))) \<noteq> 0" by metis
  then show "concat (slots (ht0 d)) \<noteq> []" by blast
  show "\<forall>m<nat (rehashidx d). slots (ht0 d) ! m = []" using assms(1,2) by (simp add: dict_ok_def rehash_ok_def)
qed

lemma rehash_update_swap:
  "d\<lparr>ht1 := h, ht0 := (ht0 d)\<lparr>used := u, table := t\<rparr>, rehashidx := r\<rparr> =
   d\<lparr>ht0 := (ht0 d)\<lparr>table := t, used := u\<rparr>, ht1 := h, rehashidx := r\<rparr>"
  by (intro dict.equality dictht.equality) simp_all

lemma rehash_loop_spec:
  assumes "dict_ok hf d" "dictIsRehashing d"
  shows "\<exists>d' stop. rehash_loop hf n ev d = Some (d', stop) \<and> dict_ok hf d' \<and> dictIsRehashing d' \<and> same_entries d d' \<and>
     ht_size (ht0 d') = ht_size (ht0 d) \<and> rehashidx d \<le> rehashidx d' \<and>
     (0 < n \<and> used (ht0 d) \<noteq> 0 \<longrightarrow> rehashidx d < rehashidx d')"
  using assms
proof (induction n arbitrary: d ev)
  case 0
  then show ?case by (intro exI [of _ d] exI [of _ False]) simp
next
  case (Suc n)
  show ?case
  proof (cases "used (ht0 d) = 0")
    case True
    then show ?thesis using Suc.prems by (intro exI [of _ d] exI [of _ False]) simp
  next
    case False
    let ?r = "nat (rehashidx d)" and ?t = "slots (ht0 d)"
    obtain j where j: "?r \<le> j" "j < length ?t" "?t ! j \<noteq> []" using rehashing_used [OF Suc.prems False] by blast
    have o: "0 \<le> rehashidx d" "ht_ok hf (ht0 d)" using Suc.prems by (simp_all add: dict_ok_def rehash_ok_def)
    have lt: "rehashidx d < int (ht_size (ht0 d))" using j ht_ok_size [OF o(2)] o(1) by linarith
    obtain i ev' stop where s: "skip_empty ?t ?r ev = Some (i, ev', stop)" "?r \<le> i" "i \<le> length ?t"
        "\<forall>m. ?r \<le> m \<and> m < i \<longrightarrow> ?t ! m = []" "if stop then ?r < i else i < length ?t \<and> ?t ! i \<noteq> []"
      using skip_empty_spec [OF j(2,3,1)] by blast
    show ?thesis
    proof (cases stop)
      case True
      let ?d = "d\<lparr>rehashidx := int i\<rparr>"
      have "rehash_loop hf (Suc n) ev d = Some (?d, True)" using False lt s(1) True by simp
      moreover have "\<forall>m < nat (int i). ?t ! m = []"
        using s(4) Suc.prems by (auto simp: dict_ok_def rehash_ok_def) (metis not_less)
      then have "rehash_ok ?d" using Suc.prems s(3) ht_ok_size [OF o(2)] by (simp add: dict_ok_def rehash_ok_def dictIsRehashing_def)
      then have "dict_ok hf ?d" using Suc.prems by (simp add: dict_ok_def entries_def)
      moreover have "same_entries d ?d" by (simp add: same_entries_def entries_def)
      moreover have "rehashidx d < int i" using s(5) True o(1) by simp
      ultimately show ?thesis
        by (intro exI [of _ ?d] exI [of _ True]) (simp add: dictIsRehashing_def)
    next
      case ns: False
      then have i: "i < length ?t" using s(5) by simp
      from rehash_bucket [OF Suc.prems s(2) i s(4)]
      obtain h where h: "move_entries hf (?t ! i) d = Some (d\<lparr>ht0 := (ht0 d)\<lparr>used := used (ht0 d) - length (?t ! i)\<rparr>, ht1 := h\<rparr>)"
        and d1: "let d' = d\<lparr>ht0 := (ht0 d)\<lparr>table := Some (?t[i := []]), used := used (ht0 d) - length (?t ! i)\<rparr>,
                 ht1 := h, rehashidx := int i + 1\<rparr>
          in dict_ok hf d' \<and> dictIsRehashing d' \<and> same_entries d d'" by blast
      define d1 where "d1 = d\<lparr>ht0 := (ht0 d)\<lparr>table := Some (?t[i := []]), used := used (ht0 d) - length (?t ! i)\<rparr>,
                 ht1 := h, rehashidx := int i + 1\<rparr>"
      have p: "dict_ok hf d1" "dictIsRehashing d1" "same_entries d d1" using d1 by (simp_all only: Let_def d1_def [symmetric])
      have "rehash_loop hf (Suc n) ev d = rehash_loop hf n ev' d1"
        using False lt s(1) ns i h by (simp add: d1_def rehash_update_swap)
      moreover from Suc.IH [OF p(1,2), of ev']
      obtain d' stop' where r: "rehash_loop hf n ev' d1 = Some (d', stop')" "dict_ok hf d'" "dictIsRehashing d'"
        "same_entries d1 d'" "ht_size (ht0 d') = ht_size (ht0 d1)" "rehashidx d1 \<le> rehashidx d'" by blast
      moreover have "same_entries d d'" using p(3) r(4) by (rule same_entries_trans)
      moreover have "ht_size (ht0 d1) = ht_size (ht0 d)" "rehashidx d < rehashidx d1"
        using s(2) o(1) by (simp_all add: d1_def)
      ultimately show ?thesis by (intro exI [of _ d'] exI [of _ stop']) simp
    qed
  qed
qed

text \<open>The number of buckets left to visit, zero when no rehashing is in progress.\<close>

definition rehash_left :: "('k, 'v) dict \<Rightarrow> nat" where
  "rehash_left d = (if dictIsRehashing d then Suc (ht_size (ht0 d) - nat (rehashidx d)) else 0)"

lemma dictRehash_spec:
  assumes "dict_ok hf d"
  shows "\<exists>d' more. dictRehash hf d n = Some (d', more) \<and> dict_ok hf d' \<and> same_entries d d' \<and>
     (more = dictIsRehashing d') \<and> (0 < n \<and> dictIsRehashing d \<longrightarrow> rehash_left d' < rehash_left d) \<and>
     (dictIsRehashing d' \<longrightarrow> dictIsRehashing d)"
proof (cases "dictIsRehashing d")
  case False
  then show ?thesis using assms by (simp add: dictRehash_def)
next
  case True
  from rehash_loop_spec [OF assms True, of n "int n * 10"]
  obtain d' stop where r: "rehash_loop hf n (int n * 10) d = Some (d', stop)" "dict_ok hf d'" "dictIsRehashing d'"
    "same_entries d d'" "ht_size (ht0 d') = ht_size (ht0 d)" "rehashidx d \<le> rehashidx d'"
    "0 < n \<and> used (ht0 d) \<noteq> 0 \<longrightarrow> rehashidx d < rehashidx d'" by blast
  have o: "ht_ok hf (ht0 d')" "ht_ok hf (ht1 d')" "rehashidx d' \<le> int (ht_size (ht0 d'))" "0 \<le> rehashidx d"
    using r(2,3) assms True by (simp_all add: dict_ok_def rehash_ok_def)
  show ?thesis
  proof (cases "used (ht0 d') = 0 \<and> \<not> stop")
    case fin: True
    let ?d = "d'\<lparr>ht0 := ht1 d', ht1 := dictReset, rehashidx := - 1\<rparr>"
    have e: "concat (slots (ht0 d')) = []" using ht_ok_used [OF o(1)] fin by simp
    have se: "same_entries d' ?d" by (simp add: same_entries_def entries_def e del: concat_eq_Nil_conv)
    have "distinct (map fst (entries ?d))" by (rule same_entries_distinct [OF se]) (use r(2) in \<open>simp only: dict_ok_def\<close>)
    then have "dict_ok hf ?d" using o(2)
      by (simp add: dict_ok_def rehash_ok_def dictIsRehashing_def ht_ok_def [of hf dictReset]) (simp add: dictReset_def)
    moreover have "dictRehash hf d n = Some (?d, False)" using True r(1) fin by (simp add: dictRehash_def)
    moreover have "\<not> dictIsRehashing ?d" by (simp add: dictIsRehashing_def)
    moreover have "rehash_left ?d < rehash_left d" using True calculation(3) by (simp add: rehash_left_def)
    ultimately show ?thesis using same_entries_trans [OF r(4) se] by blast
  next
    case more: False
    then have "dictRehash hf d n = Some (d', True)" using True r(1) by (auto simp: dictRehash_def)
    moreover have "rehash_left d' < rehash_left d" if "0 < n"
    proof -
      have "used (ht0 d) \<noteq> 0"
      proof
        assume z: "used (ht0 d) = 0"
        then have "rehash_loop hf n (int n * 10) d = Some (d, False)" using \<open>0 < n\<close> by (cases n) auto
        then show False using r(1) more z by simp
      qed
      then have "rehashidx d < rehashidx d'" using r(7) that by blast
      then show ?thesis using True r(3,5) o(3,4) by (simp add: rehash_left_def)
    qed
    ultimately show ?thesis using r(2,3,4) True by blast
  qed
qed

lemma dictRehashStep_spec:
  assumes "dict_ok hf d"
  shows "\<exists>d'. dictRehashStep hf d = Some d' \<and> dict_ok hf d' \<and> same_entries d d'"
proof (cases "iterators d = 0")
  case True
  obtain d' more where "dictRehash hf d 1 = Some (d', more)" "dict_ok hf d'" "same_entries d d'"
    using dictRehash_spec [OF assms, of 1] by blast
  then show ?thesis using True by (simp add: dictRehashStep_def)
next
  case False
  then show ?thesis using assms by (simp add: dictRehashStep_def)
qed

section \<open>The map a table stands for\<close>

lemma map_of_mset: "distinct (map fst xs) \<Longrightarrow> mset xs = mset ys \<Longrightarrow> map_of xs = map_of ys"
proof -
  assume d: "distinct (map fst xs)" and m: "mset xs = mset ys"
  then have "mset (map fst ys) = mset (map fst xs)" by simp
  then have "distinct (map fst ys)" using d mset_eq_imp_distinct_iff by blast
  moreover have "set xs = set ys" using m by (rule mset_eq_setD)
  ultimately show ?thesis using d by (simp add: map_of_inject_set)
qed

lemma distinct_fst_mset: "mset xs = mset ys \<Longrightarrow> distinct (map fst xs) = distinct (map fst ys)"
  by (rule mset_eq_imp_distinct_iff) simp

lemma dict_map_cons:
  assumes "distinct (map fst (entries d'))" "mset (entries d') = add_mset (k, v) (mset xs)"
  shows "dict_map d' = (map_of xs)(k \<mapsto> v)"
proof -
  have "map_of (entries d') = map_of ((k, v) # xs)" using assms by (intro map_of_mset) simp_all
  then show ?thesis by (simp add: dict_map_def)
qed

lemma same_entries_map: "dict_ok hf d \<Longrightarrow> same_entries d d' \<Longrightarrow> dict_map d' = dict_map d"
  unfolding dict_map_def same_entries_def dict_ok_def by (rule sym) (blast intro: map_of_mset [OF _ sym])

lemma dict_map_iff: "dict_ok hf d \<Longrightarrow> dict_map d k = Some v \<longleftrightarrow> (k, v) \<in> set (entries d)"
  unfolding dict_map_def dict_ok_def by (simp add: map_of_eq_Some_iff)

lemma dict_map_None: "dict_map d k = None \<longleftrightarrow> k \<notin> fst ` set (entries d)"
  by (simp add: dict_map_def map_of_eq_None_iff)

lemma size_entries: "dict_ok hf d \<Longrightarrow> length (entries d) = dictSize d"
  using ht_ok_used [of hf "ht0 d"] ht_ok_used [of hf "ht1 d"]
  unfolding entries_def dictSize_def dict_ok_def by (simp only: length_append)

lemma same_entries_size: "dict_ok hf d \<Longrightarrow> dict_ok hf d' \<Longrightarrow> same_entries d d' \<Longrightarrow> dictSize d' = dictSize d"
proof -
  assume a: "dict_ok hf d" "dict_ok hf d'" "same_entries d d'"
  then have "size (mset (entries d')) = size (mset (entries d))" by (simp add: same_entries_def)
  then show ?thesis using size_entries [OF a(1)] size_entries [OF a(2)] by simp
qed

section \<open>Finding an entry\<close>

lemma chain_find_Some: "chain_find k b = Some p \<Longrightarrow> p < length b \<and> fst (b ! p) = k"
  by (induction b arbitrary: p) (auto split: if_splits)

lemma chain_find_None: "chain_find k b = None \<longleftrightarrow> k \<notin> fst ` set b"
  by (induction b) auto

lemma key_in_bucket:
  assumes "ht_ok hf h" "table h \<noteq> None"
  shows "k \<in> fst ` set (concat (slots h)) \<longleftrightarrow> k \<in> fst ` set (slots h ! hash_idx hf k (sizemask h))"
proof
  assume "k \<in> fst ` set (concat (slots h))"
  then obtain b x where "b \<in> set (slots h)" "x \<in> set b" "k = fst x" by auto
  then obtain i where i: "i < length (slots h)" "x \<in> set (slots h ! i)" by (auto simp: in_set_conv_nth)
  then have "hash_idx hf k (sizemask h) = i" using ht_ok_home [OF assms i] \<open>k = fst x\<close> by simp
  then show "k \<in> fst ` set (slots h ! hash_idx hf k (sizemask h))" using i(2) \<open>k = fst x\<close> by auto
next
  have "slots h ! hash_idx hf k (sizemask h) \<in> set (slots h)" using ht_ok_idx [OF assms] by (rule nth_mem)
  moreover assume "k \<in> fst ` set (slots h ! hash_idx hf k (sizemask h))"
  ultimately show "k \<in> fst ` set (concat (slots h))" by auto
qed

definition valid_ref :: "('k, 'v) dict \<Rightarrow> entry_ref \<Rightarrow> 'k \<Rightarrow> bool" where
  "valid_ref d r k \<longleftrightarrow> (case r of (t, i, p) \<Rightarrow>
     let h = (if t then ht1 d else ht0 d)
     in table h \<noteq> None \<and> i < length (slots h) \<and> p < length (slots h ! i) \<and> fst (slots h ! i ! p) = k)"

lemma valid_ref_entry:
  assumes "valid_ref d (t, i, p) k"
  shows "slots (if t then ht1 d else ht0 d) ! i ! p \<in> set (entries d)"
  using assms by (auto simp: valid_ref_def Let_def entries_def intro!: nth_mem bexI [of _ "slots _ ! i"] split: if_splits)

lemma table_find_spec:
  assumes ok: "dict_ok hf d" and t: "table (ht0 d) \<noteq> None"
  shows "\<exists>r. table_find hf d k = Some r \<and>
     (case r of None \<Rightarrow> dict_map d k = None | Some ref \<Rightarrow> valid_ref d ref k)"
proof -
  have o: "ht_ok hf (ht0 d)" "ht_ok hf (ht1 d)" "rehash_ok d" using ok by (simp_all only: dict_ok_def)
  let ?i = "hash_idx hf k (sizemask (ht0 d))"
  have i: "?i < length (slots (ht0 d))" by (rule ht_ok_idx [OF o(1) t])
  show ?thesis
  proof (cases "chain_find k (slots (ht0 d) ! ?i)")
    case (Some p)
    then have "valid_ref d (False, ?i, p) k" using chain_find_Some i t by (fastforce simp: valid_ref_def)
    then show ?thesis using i Some by (simp add: table_find_def)
  next
    case None
    then have n0: "k \<notin> fst ` set (concat (slots (ht0 d)))"
      using key_in_bucket [OF o(1) t] chain_find_None by metis
    show ?thesis
    proof (cases "dictIsRehashing d")
      case False
      then have "slots (ht1 d) = []" using o(3) by (simp add: rehash_ok_def)
      then have "dict_map d k = None" using n0 unfolding dict_map_None entries_def by simp
      then show ?thesis using None i False by (simp add: table_find_def)
    next
      case True
      then have t1: "table (ht1 d) \<noteq> None" using o(3) by (simp add: rehash_ok_def)
      let ?j = "hash_idx hf k (sizemask (ht1 d))"
      have j: "?j < length (slots (ht1 d))" by (rule ht_ok_idx [OF o(2) t1])
      show ?thesis
      proof (cases "chain_find k (slots (ht1 d) ! ?j)")
        case (Some p)
        then have "valid_ref d (True, ?j, p) k" using chain_find_Some j t1 by (fastforce simp: valid_ref_def)
        then show ?thesis using i j None True Some by (simp add: table_find_def)
      next
        case N1: None
        then have "k \<notin> fst ` set (concat (slots (ht1 d)))"
          using key_in_bucket [OF o(2) t1] chain_find_None by metis
        then have "dict_map d k = None" using n0 unfolding dict_map_None entries_def by auto
        then show ?thesis using i j None True N1 by (simp add: table_find_def)
      qed
    qed
  qed
qed

lemma dictGetVal_spec:
  assumes "dict_ok hf d" "valid_ref d r k"
  shows "\<exists>v. dictGetVal d r = Some v \<and> dict_map d k = Some v"
proof -
  obtain t i p where r: "r = (t, i, p)" by (cases r)
  let ?e = "slots (if t then ht1 d else ht0 d) ! i ! p"
  have "?e \<in> set (entries d)" using valid_ref_entry assms(2) r by metis
  moreover have "fst ?e = k" using assms(2) r by (simp add: valid_ref_def Let_def)
  ultimately have "(k, snd ?e) \<in> set (entries d)" by (metis prod.collapse)
  then have "dict_map d k = Some (snd ?e)" using dict_map_iff [OF assms(1)] by blast
  moreover have "dictGetVal d r = Some (snd ?e)" using assms(2) r by (simp add: dictGetVal_def valid_ref_def Let_def split del: if_split)
  ultimately show ?thesis by blast
qed

section \<open>Changing a table\<close>

text \<open>Replacing the bucket a key hashes to, in one of the two tables.\<close>

definition upd_ht :: "bool \<Rightarrow> ('k, 'v) dictht \<Rightarrow> ('k, 'v) dict \<Rightarrow> ('k, 'v) dict" where
  "upd_ht t h d = (if t then d\<lparr>ht1 := h\<rparr> else d\<lparr>ht0 := h\<rparr>)"

abbreviation the_ht :: "bool \<Rightarrow> ('k, 'v) dict \<Rightarrow> ('k, 'v) dictht" where
  "the_ht t d \<equiv> (if t then ht1 d else ht0 d)"

lemma ht_bucket_update:
  assumes ok: "dict_ok hf d" and t: "table (the_ht t d) \<noteq> None" "t \<longrightarrow> dictIsRehashing d"
    and i: "i < length (slots (the_ht t d))"
    and low: "\<not> t \<longrightarrow> int i < rehashidx d \<longrightarrow> b = []"
    and b: "\<And>x. x \<in> set b \<Longrightarrow> hash_idx hf (fst x) (sizemask (the_ht t d)) = i"
    and u: "u + length (slots (the_ht t d) ! i) = used (the_ht t d) + length b"
    and d': "d' = upd_ht t ((the_ht t d)\<lparr>table := Some ((slots (the_ht t d))[i := b]), used := u\<rparr>) d"
    and dist: "distinct (map fst (entries d'))"
  shows "dict_ok hf d'"
    and "mset (entries d') + mset (slots (the_ht t d) ! i) = mset (entries d) + mset b"
    and "dictIsRehashing d' = dictIsRehashing d" "iterators d' = iterators d"
proof -
  have o: "ht_ok hf (ht0 d)" "ht_ok hf (ht1 d)" "rehash_ok d" using ok by (simp_all only: dict_ok_def)
  have oh: "ht_ok hf (the_ht t d)" using o by simp
  note h' = ht_ok_update [OF oh t(1) i b u]
  have "rehash_ok d'"
  proof (cases t)
    case True
    then show ?thesis using o(3) t(2) by (simp add: d' upd_ht_def rehash_ok_def dictIsRehashing_def)
  next
    case False
    then have "(slots (ht0 d))[i := b] ! m = []" if "m < nat (rehashidx d)" "dictIsRehashing d" for m
      using that o(3) low i by (cases "m = i") (auto simp: rehash_ok_def nth_list_update)
    then show ?thesis using False o(3) by (auto simp: d' upd_ht_def rehash_ok_def dictIsRehashing_def)
  qed
  then show "dict_ok hf d'" using h' o dist by (cases t) (simp_all add: dict_ok_def d' upd_ht_def)
  show "mset (entries d') + mset (slots (the_ht t d) ! i) = mset (entries d) + mset b"
    using mset_concat_update [OF i, of b] unfolding mset_entries
    by (cases t) (simp_all add: d' upd_ht_def ac_simps del: mset_concat)
  show "dictIsRehashing d' = dictIsRehashing d" "iterators d' = iterators d"
    by (simp_all add: d' upd_ht_def dictIsRehashing_def)
qed

lemma mset_list_update: "p < length b \<Longrightarrow> add_mset (b ! p) (mset (b[p := x])) = add_mset x (mset b)"
  by (simp add: mset_update)

lemma mset_swap:
  assumes "A + B = C + D" "add_mset x D = add_mset y B"
  shows "add_mset x A = add_mset y C"
proof -
  have "add_mset x A + B = add_mset x (A + B)" by simp
  also have "\<dots> = C + add_mset x D" unfolding assms(1) by simp
  also have "\<dots> = add_mset y C + B" unfolding assms(2) by simp
  finally show ?thesis by (rule add_right_imp_eq)
qed

lemma dictSetVal_spec:
  assumes ok: "dict_ok hf d" and r: "valid_ref d r k"
  shows "\<exists>d'. dictSetVal d r v = Some d' \<and> dict_ok hf d' \<and> dict_map d' = (dict_map d)(k \<mapsto> v) \<and> dictSize d' = dictSize d"
proof -
  obtain t i p where rr: "r = (t, i, p)" by (cases r)
  let ?h = "the_ht t d" let ?b = "slots ?h ! i"
  have v: "table ?h \<noteq> None" "i < length (slots ?h)" "p < length ?b" "fst (?b ! p) = k"
    using r rr by (simp_all add: valid_ref_def Let_def split del: if_split)
  define b where "b = ?b[p := (k, v)]"
  define d' where "d' = upd_ht t (?h\<lparr>table := Some ((slots ?h)[i := b]), used := used ?h\<rparr>) d"
  have o: "ht_ok hf ?h" "rehash_ok d" "distinct (map fst (entries d))" using ok by (simp_all add: dict_ok_def)
  have tr: "t \<longrightarrow> dictIsRehashing d"
    using o(2) v(1) by (auto simp: rehash_ok_def dictReset_def split: if_splits)
  have low: "\<not> t \<longrightarrow> int i < rehashidx d \<longrightarrow> b = []"
  proof (intro impI)
    assume a: "\<not> t" "int i < rehashidx d"
    then have "dictIsRehashing d" by (simp add: dictIsRehashing_def)
    then have "?b = []" using a o(2) by (simp add: rehash_ok_def)
    then show "b = []" using v(3) by simp
  qed
  have home: "hash_idx hf (fst x) (sizemask ?h) = i" if "x \<in> set b" for x
  proof -
    have "x \<in> insert (k, v) (set ?b)" using that set_update_subset_insert unfolding b_def by fast
    then have "fst x \<in> fst ` set ?b" using v(3,4) by (metis image_eqI insertE fst_conv nth_mem)
    then show ?thesis using ht_ok_home [OF o(1) v(1,2)] by auto
  qed
  have me: "mset (entries d') + mset ?b = mset (entries d) + mset b"
    using mset_concat_update [OF v(2), of b] unfolding mset_entries
    by (cases t) (simp_all add: d'_def upd_ht_def ac_simps del: mset_concat)
  have mb: "add_mset (?b ! p) (mset b) = add_mset (k, v) (mset ?b)" unfolding b_def by (rule mset_list_update [OF v(3)])
  have e: "add_mset (?b ! p) (mset (entries d')) = add_mset (k, v) (mset (entries d))"
    by (rule mset_swap [OF me mb])
  have "?b ! p \<in># mset (entries d)" using valid_ref_entry [of d t i p k] r rr by simp
  then obtain xs where xs: "mset (entries d) = add_mset (?b ! p) (mset xs)"
    by (metis ex_mset mset_add)
  then have "add_mset (?b ! p) (mset (entries d')) = add_mset (?b ! p) (add_mset (k, v) (mset xs))"
    using e by (simp add: add_mset_commute)
  then have e': "mset (entries d') = add_mset (k, v) (mset xs)" by simp
  have bp: "?b ! p = (k, snd (?b ! p))" using v(4) by (simp add: prod_eq_iff)
  have "mset (map fst (entries d')) = mset (map fst (entries d))" using xs e' v(4) by simp
  then have dist: "distinct (map fst (entries d'))" using o(3) mset_eq_imp_distinct_iff by blast
  have "dict_map d = (map_of xs)(k \<mapsto> snd (?b ! p))"
    by (rule dict_map_cons [OF o(3)]) (unfold bp [symmetric], rule xs)
  then have "dict_map d' = (dict_map d)(k \<mapsto> v)" using dict_map_cons [OF dist e'] by simp
  moreover have "dict_ok hf d'"
    by (rule ht_bucket_update(1) [OF ok v(1) tr v(2) low home _ d'_def dist]) (simp_all add: b_def)
  moreover have "dictSetVal d r v = Some d'"
    using v rr by (cases t) (simp_all add: dictSetVal_def Let_def d'_def upd_ht_def b_def)
  moreover have "dictSize d' = dictSize d" by (cases t) (simp_all add: dictSize_def d'_def upd_ht_def)
  ultimately show ?thesis by blast
qed

section \<open>Sizing\<close>

lemma dictNextPower_loop_spec:
  assumes "k \<le> 31" "sz \<le> 2 ^ 31"
  shows "\<exists>e. k \<le> e \<and> e \<le> 31 \<and> dictNextPower_loop sz k = 2 ^ e \<and> sz \<le> 2 ^ e"
  using assms
proof (induction "31 - k" arbitrary: k)
  case 0
  then have "k = 31" by simp
  then have "dictNextPower_loop sz k = 2 ^ k" using 0 by (subst dictNextPower_loop.simps) simp
  then show ?case using \<open>k = 31\<close> 0 by auto
next
  case (Suc n)
  show ?case
  proof (cases "sz \<le> 2 ^ k")
    case True
    then have "dictNextPower_loop sz k = 2 ^ k" by (subst dictNextPower_loop.simps) simp
    then show ?thesis using True Suc.prems by auto
  next
    case False
    then have "dictNextPower_loop sz k = dictNextPower_loop sz (Suc k)" by (subst dictNextPower_loop.simps) simp
    moreover have "n = 31 - Suc k" "Suc k \<le> 31" using Suc.hyps(2) by linarith+
    ultimately show ?thesis using Suc.hyps(1) [of "Suc k"] Suc.prems by (metis Suc_leD)
  qed
qed

lemma dictNextPower_spec:
  assumes "sz \<le> 2 ^ 31"
  shows "\<exists>e. 2 \<le> e \<and> e \<le> 31 \<and> dictNextPower sz = 2 ^ e \<and> sz \<le> 2 ^ e"
proof -
  have "\<not> sz \<ge> 2 ^ 63 - 1" using assms by simp
  then show ?thesis using dictNextPower_loop_spec [of 2 sz] assms by (simp add: dictNextPower_def)
qed

lemma calloc_slots_pow: "e \<le> 31 \<Longrightarrow> calloc_slots (2 ^ e) = replicate (2 ^ e) []"
proof -
  assume "e \<le> 31"
  then have "(2 :: nat) ^ e \<le> 2 ^ 31" by (intro power_increasing) auto
  then have "2 ^ e * 8 mod 2 ^ 64 = (2 :: nat) ^ e * 8" by (intro mod_less) simp
  then show ?thesis by (simp add: calloc_slots_def)
qed

lemma concat_replicate_Nil [simp]: "concat (replicate n []) = []"
  by (induction n) auto

lemma ht_ok_new:
  assumes "2 \<le> e" "e \<le> 31"
  shows "ht_ok hf \<lparr>table = Some (calloc_slots (2 ^ e)), ht_size = 2 ^ e, sizemask = of_nat (2 ^ e) - 1, used = 0\<rparr>"
  using assms unfolding ht_ok_def by (auto simp: calloc_slots_pow)

lemma entries_new: "slots \<lparr>table = Some (calloc_slots n), ht_size = n, sizemask = m, used = 0\<rparr> = calloc_slots n"
    "concat (calloc_slots n) = []"
  by (simp_all add: calloc_slots_def)

lemma dictExpand_spec:
  assumes ok: "dict_ok hf d" and sz: "sz \<le> 2 ^ 31"
  shows "\<exists>d' rc. dictExpand d sz = (d', rc) \<and> dict_ok hf d' \<and> same_entries d d' \<and>
     (rc = DICT_OK \<longrightarrow> table (ht0 d') \<noteq> None) \<and>
     (rc = DICT_OK \<longleftrightarrow> \<not> dictIsRehashing d \<and> used (ht0 d) \<le> sz \<and> dictNextPower sz \<noteq> ht_size (ht0 d))"
proof -
  obtain e where e: "2 \<le> e" "e \<le> 31" "dictNextPower sz = 2 ^ e" "sz \<le> 2 ^ e" using dictNextPower_spec [OF sz] by blast
  have o: "ht_ok hf (ht0 d)" "ht_ok hf (ht1 d)" "rehash_ok d" "distinct (map fst (entries d))"
    using ok by (simp_all only: dict_ok_def)
  let ?n = "\<lparr>table = Some (calloc_slots (2 ^ e)), ht_size = 2 ^ e, sizemask = of_nat (2 ^ e) - 1, used = 0\<rparr>"
  note n = ht_ok_new [OF e(1,2), of hf]
  show ?thesis
  proof (cases "dictIsRehashing d \<or> used (ht0 d) > sz \<or> 2 ^ e = ht_size (ht0 d)")
    case True
    then have "dictExpand d sz = (d, DICT_ERR)" using e(3) by (auto simp: dictExpand_def Let_def)
    then show ?thesis using ok True e(3) by auto
  next
    case False
    then have nr: "\<not> dictIsRehashing d" by blast
    then have h1: "ht1 d = dictReset" using o(3) by (simp add: rehash_ok_def)
    show ?thesis
    proof (cases "table (ht0 d) = None")
      case True
      then have h0: "ht0 d = dictReset" using o(1) by (simp add: ht_ok_def)
      let ?d = "d\<lparr>ht0 := ?n\<rparr>"
      have en: "entries ?d = entries d" unfolding entries_def by (simp add: entries_new(2) h0 del: concat_eq_Nil_conv)
      have "dict_ok hf ?d" using n o(2,3,4) nr unfolding dict_ok_def en by (simp add: rehash_ok_def dictIsRehashing_def)
      moreover have "same_entries d ?d" unfolding same_entries_def en by simp
      moreover have "dictExpand d sz = (?d, DICT_OK)" using False True e(3) by (simp add: dictExpand_def Let_def)
      ultimately show ?thesis using False e(3) by (intro exI [of _ ?d] exI [of _ DICT_OK]) simp
    next
      case F: False
      let ?d = "d\<lparr>ht1 := ?n, rehashidx := 0\<rparr>"
      have en: "entries ?d = entries d" unfolding entries_def by (simp add: entries_new(2) h1 del: concat_eq_Nil_conv)
      have "dict_ok hf ?d" using n o(1,4) F unfolding dict_ok_def en by (simp add: rehash_ok_def dictIsRehashing_def)
      moreover have "same_entries d ?d" unfolding same_entries_def en by simp
      moreover have "dictExpand d sz = (?d, DICT_OK)" using False F e(3) by (auto simp: dictExpand_def Let_def)
      ultimately show ?thesis using False F e(3) by (intro exI [of _ ?d] exI [of _ DICT_OK]) simp
    qed
  qed
qed

lemma dictExpandIfNeeded_spec:
  assumes ok: "dict_ok hf d" and sz: "dictSize d \<le> 2 ^ 30"
  shows "\<exists>d'. dictExpandIfNeeded cr d = (d', DICT_OK) \<and> dict_ok hf d' \<and> same_entries d d' \<and> table (ht0 d') \<noteq> None"
proof -
  have o: "ht_ok hf (ht0 d)" "rehash_ok d" using ok by (simp_all only: dict_ok_def)
  have u: "used (ht0 d) \<le> 2 ^ 30" using sz by (simp add: dictSize_def)
  have tz: "table (ht0 d) = None \<longleftrightarrow> ht_size (ht0 d) = 0"
  proof (cases "table (ht0 d) = None")
    case True then show ?thesis using o(1) by (simp add: ht_ok_def dictReset_def)
  next
    case False
    obtain e where "ht_size (ht0 d) = 2 ^ e" by (rule ht_okE [OF o(1) False])
    then show ?thesis using False by simp
  qed
  show ?thesis
  proof (cases "dictIsRehashing d")
    case True
    then show ?thesis using ok o(2) by (simp add: dictExpandIfNeeded_def rehash_ok_def)
  next
    case nr: False
    show ?thesis
    proof (cases "ht_size (ht0 d) = 0")
      case True
      then have "used (ht0 d) = 0" using tz o(1) by (simp add: ht_ok_def dictReset_def)
      moreover have "dictNextPower 4 \<noteq> 0" using dictNextPower_spec [of 4] by auto
      ultimately show ?thesis using dictExpand_spec [OF ok, of 4] nr True by (auto simp: dictExpandIfNeeded_def)
    next
      case nz: False
      then have t: "table (ht0 d) \<noteq> None" using tz by simp
      show ?thesis
      proof (cases "used (ht0 d) \<ge> ht_size (ht0 d) \<and> (cr \<or> used (ht0 d) div ht_size (ht0 d) > dict_force_resize_ratio)")
        case True
        have s: "used (ht0 d) * 2 \<le> 2 ^ 31" using u by simp
        have "ht_size (ht0 d) < dictNextPower (used (ht0 d) * 2)"
        proof -
          have "ht_size (ht0 d) < used (ht0 d) * 2" using True nz by linarith
          moreover obtain e where "dictNextPower (used (ht0 d) * 2) = 2 ^ e" "used (ht0 d) * 2 \<le> 2 ^ e"
            using dictNextPower_spec [OF s] by blast
          ultimately show ?thesis by linarith
        qed
        moreover have "dictExpandIfNeeded cr d = dictExpand d (used (ht0 d) * 2)"
          using nr nz True by (simp add: dictExpandIfNeeded_def)
        ultimately show ?thesis using dictExpand_spec [OF ok s] nr by auto
      next
        case False
        then have "dictExpandIfNeeded cr d = (d, DICT_OK)" using nr nz by (auto simp: dictExpandIfNeeded_def)
        then show ?thesis using ok t by simp
      qed
    qed
  qed
qed

lemma sint_u32_nonneg: "unat (w :: 32 word) < 2 ^ 31 \<Longrightarrow> sint w = int (unat w)"
proof -
  assume "unat w < 2 ^ 31"
  then have "int (unat w) < int (2 ^ 31)" by (rule of_nat_less_iff [THEN iffD2])
  then have l: "uint w < 2 ^ 31" by (simp only: uint_nat) simp
  have "- (2 ^ 31) \<le> uint w" by (rule order_trans [of _ 0]) simp_all
  then have "signed_take_bit 31 (uint w) = uint w" using l by (rule signed_take_bit_int_eq_self)
  then show ?thesis by (simp add: sint_uint)
qed

section \<open>Insertion\<close>

lemma maybe_rehash_spec:
  assumes "dict_ok hf d"
  shows "\<exists>d'. (if dictIsRehashing d then dictRehashStep hf d else Some d) = Some d' \<and> dict_ok hf d' \<and> same_entries d d'"
  using dictRehashStep_spec [OF assms] assms by (cases "dictIsRehashing d") auto

lemma dictKeyIndex_spec:
  assumes ok: "dict_ok hf d" and sz: "dictSize d \<le> 2 ^ 30"
  shows "\<exists>d' idx ex. dictKeyIndex hf cr d k = Some (d', idx, ex) \<and> dict_ok hf d' \<and> same_entries d d' \<and>
     (case ex of Some r \<Rightarrow> idx = - 1 \<and> valid_ref d' r k
      | None \<Rightarrow> dict_map d' k = None \<and> table (the_ht (dictIsRehashing d') d') \<noteq> None \<and>
          idx \<noteq> - 1 \<and> \<not> idx <s 0 \<and> unat idx = hash_idx hf k (sizemask (the_ht (dictIsRehashing d') d')))"
proof -
  obtain d1 where d1: "dictExpandIfNeeded cr d = (d1, DICT_OK)" "dict_ok hf d1" "same_entries d d1" "table (ht0 d1) \<noteq> None"
    using dictExpandIfNeeded_spec [OF assms] by blast
  obtain r where r: "table_find hf d1 k = Some r" "case r of None \<Rightarrow> dict_map d1 k = None | Some ref \<Rightarrow> valid_ref d1 ref k"
    using table_find_spec [OF d1(2,4)] by blast
  show ?thesis
  proof (cases r)
    case (Some ref)
    then show ?thesis using d1 r by (simp add: dictKeyIndex_def)
  next
    case None
    let ?t = "dictIsRehashing d1"
    let ?i = "hash_idx hf k (sizemask (the_ht ?t d1))"
    have o: "ht_ok hf (the_ht ?t d1)" "rehash_ok d1" using d1(2) by (simp_all add: dict_ok_def)
    have t: "table (the_ht ?t d1) \<noteq> None" using o(2) d1(4) by (auto simp: rehash_ok_def split: if_splits)
    obtain e where e: "e \<le> 31" "length (slots (the_ht ?t d1)) = 2 ^ e" by (rule ht_okE [OF o(1) t])
    have "(2 :: nat) ^ e \<le> 2 ^ 31" using e(1) by (intro power_increasing) auto
    then have i: "?i < 2 ^ 31" using ht_ok_idx [OF o(1) t, of k] e(2) by linarith
    define w :: s32 where "w = of_nat ?i"
    have uw: "unat w = ?i" using i by (simp add: w_def unat_of_nat)
    have "\<not> w <s 0" using sint_u32_nonneg [of w] uw i by (simp only: word_sless_alt) simp
    moreover have "w \<noteq> - 1"
    proof
      assume "w = - 1"
      then have "sint w = - 1" by simp
      moreover have "sint w = int (unat w)" using uw i by (intro sint_u32_nonneg) simp
      moreover have "0 \<le> int (unat w)" by (rule of_nat_0_le_iff)
      ultimately show False by linarith
    qed
    ultimately show ?thesis using d1 r None uw t by (simp add: dictKeyIndex_def w_def)
  qed
qed

lemma dictAddRaw_spec:
  assumes ok: "dict_ok hf d" and sz: "dictSize d \<le> 2 ^ 30"
  shows "(\<exists>d' e. dict_map d k = None \<and> dictAddRaw hf cr g d k = Some (d', Some e, None) \<and> dict_ok hf d' \<and>
       dict_map d' = (dict_map d)(k \<mapsto> g) \<and> valid_ref d' e k \<and> dictSize d' = dictSize d + 1) \<or>
     (\<exists>d' e. dict_map d k \<noteq> None \<and> dictAddRaw hf cr g d k = Some (d', None, Some e) \<and> dict_ok hf d' \<and>
       dict_map d' = dict_map d \<and> valid_ref d' e k \<and> dictSize d' = dictSize d)"
proof -
  obtain d1 where d1: "(if dictIsRehashing d then dictRehashStep hf d else Some d) = Some d1" "dict_ok hf d1" "same_entries d d1"
    using maybe_rehash_spec [OF ok] by blast
  have s1: "dictSize d1 = dictSize d" using same_entries_size [OF ok d1(2,3)] .
  then have "dictSize d1 \<le> 2 ^ 30" using sz by simp
  from dictKeyIndex_spec [OF d1(2) this, of cr k]
  obtain d2 idx ex where d2: "dictKeyIndex hf cr d1 k = Some (d2, idx, ex)" "dict_ok hf d2" "same_entries d1 d2"
    and ex: "case ex of Some r \<Rightarrow> idx = - 1 \<and> valid_ref d2 r k
      | None \<Rightarrow> dict_map d2 k = None \<and> table (the_ht (dictIsRehashing d2) d2) \<noteq> None \<and>
          idx \<noteq> - 1 \<and> \<not> idx <s 0 \<and> unat idx = hash_idx hf k (sizemask (the_ht (dictIsRehashing d2) d2))" by blast
  have m2: "dict_map d2 = dict_map d" using same_entries_map [OF d1(2) d2(3)] same_entries_map [OF ok d1(3)] by simp
  have s2: "dictSize d2 = dictSize d" using same_entries_size [OF d1(2) d2(2,3)] s1 by simp
  show ?thesis
  proof (cases ex)
    case (Some r)
    then have r: "idx = - 1" "valid_ref d2 r k" using ex by simp_all
    have "dict_map d k \<noteq> None" using dictGetVal_spec [OF d2(2) r(2)] m2 by auto
    moreover have "dictAddRaw hf cr g d k = Some (d2, None, Some r)"
      using d1(1) d2(1) Some r(1) unfolding dictAddRaw_def by simp
    ultimately show ?thesis using d2(2) m2 s2 r(2) by blast
  next
    case None
    let ?t = "dictIsRehashing d2"
    let ?h = "the_ht ?t d2"
    have x: "dict_map d2 k = None" "table ?h \<noteq> None" "idx \<noteq> - 1" "\<not> idx <s 0" "unat idx = hash_idx hf k (sizemask ?h)"
      using ex None by simp_all
    have o: "ht_ok hf ?h" "rehash_ok d2" "distinct (map fst (entries d2))" using d2(2) by (simp_all add: dict_ok_def)
    have i: "unat idx < length (slots ?h)" unfolding x(5) by (rule ht_ok_idx [OF o(1) x(2)])
    let ?b = "slots ?h ! unat idx"
    define d3 where "d3 = upd_ht ?t (?h\<lparr>table := Some ((slots ?h)[unat idx := (k, g) # ?b]), used := used ?h + 1\<rparr>) d2"
    have me: "mset (entries d3) = add_mset (k, g) (mset (entries d2))"
      using mset_concat_cons [OF i, of "(k, g)"] unfolding mset_entries
      by (cases ?t) (simp_all add: d3_def upd_ht_def ac_simps del: mset_concat)
    have "mset (map fst (entries d3)) = mset (map fst ((k, g) # entries d2))" using me by simp
    then have dist: "distinct (map fst (entries d3))"
      using mset_eq_imp_distinct_iff o(3) x(1) unfolding dict_map_None by fastforce
    have home: "hash_idx hf (fst y) (sizemask ?h) = unat idx" if "y \<in> set ((k, g) # ?b)" for y
      using that x(5) ht_ok_home [OF o(1) x(2) i, of y] by auto
    have tr: "?t \<longrightarrow> dictIsRehashing d2" by simp
    have low: "\<not> ?t \<longrightarrow> int (unat idx) < rehashidx d2 \<longrightarrow> (k, g) # ?b = []"
    proof (intro impI)
      assume "\<not> ?t" "int (unat idx) < rehashidx d2"
      then have "int (unat idx) < - 1" by (simp only: dictIsRehashing_def not_not)
      moreover have "0 \<le> int (unat idx)" by (rule of_nat_0_le_iff)
      ultimately show "(k, g) # ?b = []" by linarith
    qed
    have "dict_ok hf d3"
      by (rule ht_bucket_update(1) [OF d2(2) x(2) tr i low home _ d3_def dist]) simp_all
    moreover have "dict_map d3 = (dict_map d2)(k \<mapsto> g)"
      using dict_map_cons [OF dist me] by (simp add: dict_map_def)
    moreover have "valid_ref d3 (?t, unat idx, 0) k"
      using i by (cases ?t) (simp_all add: valid_ref_def d3_def upd_ht_def)
    moreover have "dictAddRaw hf cr g d k = Some (d3, Some (?t, unat idx, 0), None)"
    proof (cases ?t)
      case True
      then show ?thesis using d1(1) d2(1) None x(3,4) i unfolding dictAddRaw_def by (simp add: d3_def upd_ht_def Let_def)
    next
      case False
      then show ?thesis using d1(1) d2(1) None x(3,4) i unfolding dictAddRaw_def by (simp add: d3_def upd_ht_def Let_def)
    qed
    moreover have "dictSize d3 = dictSize d + 1" using s2 by (cases ?t) (simp_all add: dictSize_def d3_def upd_ht_def)
    ultimately show ?thesis using m2 x(1) by auto
  qed
qed

lemma dictAdd_spec:
  assumes ok: "dict_ok hf d" and sz: "dictSize d \<le> 2 ^ 30"
  shows "\<exists>d'. dictAdd hf cr g d k v = Some (d', if dict_map d k = None then DICT_OK else DICT_ERR) \<and> dict_ok hf d' \<and>
     dict_map d' = (if dict_map d k = None then (dict_map d)(k \<mapsto> v) else dict_map d) \<and>
     dictSize d' = dictSize d + (if dict_map d k = None then 1 else 0)"
  using dictAddRaw_spec [OF assms, of k cr g]
proof (elim disjE exE conjE)
  fix d1 e
  assume a: "dict_map d k = None" "dictAddRaw hf cr g d k = Some (d1, Some e, None)" "dict_ok hf d1"
    "dict_map d1 = (dict_map d)(k \<mapsto> g)" "valid_ref d1 e k" "dictSize d1 = dictSize d + 1"
  obtain d2 where "dictSetVal d1 e v = Some d2" "dict_ok hf d2" "dict_map d2 = (dict_map d1)(k \<mapsto> v)" "dictSize d2 = dictSize d1"
    using dictSetVal_spec [OF a(3,5)] by blast
  then show ?thesis using a by (simp add: dictAdd_def)
next
  fix d1 e
  assume "dict_map d k \<noteq> None" "dictAddRaw hf cr g d k = Some (d1, None, Some e)" "dict_ok hf d1"
    "dict_map d1 = dict_map d" "dictSize d1 = dictSize d"
  then show ?thesis by (auto simp: dictAdd_def)
qed

lemma dictReplace_spec:
  assumes ok: "dict_ok hf d" and sz: "dictSize d \<le> 2 ^ 30"
  shows "\<exists>d'. dictReplace hf cr g d k v = Some (d', dict_map d k = None) \<and> dict_ok hf d' \<and>
     dict_map d' = (dict_map d)(k \<mapsto> v) \<and> dictSize d' = dictSize d + (if dict_map d k = None then 1 else 0)"
  using dictAddRaw_spec [OF assms, of k cr g]
proof (elim disjE exE conjE)
  fix d1 e
  assume a: "dict_map d k = None" "dictAddRaw hf cr g d k = Some (d1, Some e, None)" "dict_ok hf d1"
    "dict_map d1 = (dict_map d)(k \<mapsto> g)" "valid_ref d1 e k" "dictSize d1 = dictSize d + 1"
  obtain d2 where "dictSetVal d1 e v = Some d2" "dict_ok hf d2" "dict_map d2 = (dict_map d1)(k \<mapsto> v)" "dictSize d2 = dictSize d1"
    using dictSetVal_spec [OF a(3,5)] by blast
  then show ?thesis using a by (simp add: dictReplace_def)
next
  fix d1 e
  assume a: "dict_map d k \<noteq> None" "dictAddRaw hf cr g d k = Some (d1, None, Some e)" "dict_ok hf d1"
    "dict_map d1 = dict_map d" "valid_ref d1 e k" "dictSize d1 = dictSize d"
  obtain d2 where "dictSetVal d1 e v = Some d2" "dict_ok hf d2" "dict_map d2 = (dict_map d1)(k \<mapsto> v)" "dictSize d2 = dictSize d1"
    using dictSetVal_spec [OF a(3,5)] by blast
  then show ?thesis using a by (auto simp: dictReplace_def)
qed

section \<open>Lookup and deletion\<close>

lemma dictSize_pos_table:
  assumes "dict_ok hf d" "dictSize d \<noteq> 0"
  shows "table (ht0 d) \<noteq> None"
proof
  assume n: "table (ht0 d) = None"
  have o: "ht_ok hf (ht0 d)" "rehash_ok d" using assms(1) by (simp_all only: dict_ok_def)
  have "used (ht0 d) = 0" using n o(1) by (simp add: ht_ok_def dictReset_def)
  moreover have "ht1 d = dictReset" using n o(2) by (simp add: rehash_ok_def split: if_splits)
  ultimately show False using assms(2) by (simp add: dictSize_def dictReset_def)
qed

lemma dictSize_0_map:
  assumes "dict_ok hf d" "dictSize d = 0"
  shows "dict_map d = Map.empty"
  using size_entries [OF assms(1)] assms(2) by (simp add: dict_map_def)

lemma dictFind_spec:
  assumes "dict_ok hf d"
  shows "\<exists>d' r. dictFind hf d k = Some (d', r) \<and> dict_ok hf d' \<and> dict_map d' = dict_map d \<and> dictSize d' = dictSize d \<and>
     (case r of None \<Rightarrow> dict_map d k = None | Some ref \<Rightarrow> valid_ref d' ref k)"
proof (cases "dictSize d = 0")
  case True
  then show ?thesis using assms dictSize_0_map [OF assms] by (simp add: dictFind_def dictSize_def)
next
  case False
  obtain d1 where d1: "(if dictIsRehashing d then dictRehashStep hf d else Some d) = Some d1" "dict_ok hf d1" "same_entries d d1"
    using maybe_rehash_spec [OF assms] by blast
  have s: "dictSize d1 = dictSize d" and m: "dict_map d1 = dict_map d"
    using same_entries_size [OF assms d1(2,3)] same_entries_map [OF assms d1(3)] by simp_all
  have "table (ht0 d1) \<noteq> None" using dictSize_pos_table [OF d1(2)] s False by simp
  from table_find_spec [OF d1(2) this]
  obtain r where "table_find hf d1 k = Some r" "case r of None \<Rightarrow> dict_map d1 k = None | Some ref \<Rightarrow> valid_ref d1 ref k" by blast
  then show ?thesis using d1 s m False unfolding dictFind_def dictSize_def [symmetric]
    by (intro exI [of _ d1] exI [of _ r]) (auto split: option.splits)
qed

lemma dictFetchValue_spec:
  assumes "dict_ok hf d"
  shows "\<exists>d'. dictFetchValue hf d k = Some (d', dict_map d k) \<and> dict_ok hf d' \<and> dict_map d' = dict_map d \<and> dictSize d' = dictSize d"
proof -
  obtain d' r where r: "dictFind hf d k = Some (d', r)" "dict_ok hf d'" "dict_map d' = dict_map d" "dictSize d' = dictSize d"
     "case r of None \<Rightarrow> dict_map d k = None | Some ref \<Rightarrow> valid_ref d' ref k"
    using dictFind_spec [OF assms] by blast
  show ?thesis
  proof (cases r)
    case None
    then show ?thesis using r by (simp add: dictFetchValue_def)
  next
    case (Some ref)
    then show ?thesis using r dictGetVal_spec [OF r(2), of ref k] by (auto simp: dictFetchValue_def)
  qed
qed

lemma chain_remove_None: "chain_remove k b = None \<longleftrightarrow> k \<notin> fst ` set b"
  by (induction b) (auto split: if_splits)

lemma chain_remove_Some:
  "chain_remove k b = Some (he, b') \<Longrightarrow> fst he = k \<and> mset b = add_mset he (mset b') \<and> set b' \<subseteq> set b \<and> length b = Suc (length b')"
  by (induction b arbitrary: b') (auto split: if_splits)

text \<open>Deletion in one table.\<close>

lemma ht_remove_spec:
  assumes ok: "dict_ok hf d" and t: "table (the_ht t d) \<noteq> None" "t \<longrightarrow> dictIsRehashing d"
  shows "\<exists>h he. ht_remove hf (the_ht t d) k = Some (h, he) \<and>
    (case he of None \<Rightarrow> h = the_ht t d \<and> k \<notin> fst ` set (concat (slots (the_ht t d)))
     | Some e \<Rightarrow> fst e = k \<and> dict_ok hf (upd_ht t h d) \<and> dict_map (upd_ht t h d) = (dict_map d)(k := None) \<and>
         dict_map d k = Some (snd e) \<and> dictSize d = Suc (dictSize (upd_ht t h d)))"
proof -
  let ?h = "the_ht t d" let ?i = "hash_idx hf k (sizemask ?h)" let ?b = "slots ?h ! ?i"
  have o: "ht_ok hf ?h" "rehash_ok d" "distinct (map fst (entries d))" using ok by (simp_all add: dict_ok_def)
  have i: "?i < length (slots ?h)" by (rule ht_ok_idx [OF o(1) t(1)])
  show ?thesis
  proof (cases "chain_remove k ?b")
    case None
    then have "k \<notin> fst ` set (concat (slots ?h))" using key_in_bucket [OF o(1) t(1)] chain_remove_None by metis
    then show ?thesis using None i by (simp add: ht_remove_def split del: if_split)
  next
    case (Some eb)
    obtain e b' where eb: "eb = (e, b')" by (cases eb)
    then have c: "fst e = k" "mset ?b = add_mset e (mset b')" "set b' \<subseteq> set ?b" "length ?b = Suc (length b')"
      using chain_remove_Some Some by metis+
    define h' where "h' = ?h\<lparr>table := Some ((slots ?h)[?i := b']), used := used ?h - 1\<rparr>"
    have r: "ht_remove hf ?h k = Some (h', Some e)" using i Some eb by (simp add: ht_remove_def h'_def split del: if_split)
    let ?d = "upd_ht t h' d"
    have "mset (entries ?d) + mset ?b = mset (entries d) + mset b'"
      using mset_concat_update [OF i, of b'] unfolding mset_entries
      by (cases t) (simp_all add: h'_def upd_ht_def ac_simps del: mset_concat)
    then have "add_mset e (mset (entries ?d)) + mset b' = mset (entries d) + mset b'" using c(2) by simp
    then have me: "mset (entries d) = add_mset e (mset (entries ?d))" by (metis add_right_imp_eq)
    have "mset (map fst (entries d)) = mset (map fst (e # entries ?d))" using me by simp
    then have "distinct (map fst (e # entries ?d))" using o(3) mset_eq_imp_distinct_iff by metis
    then have dist: "distinct (map fst (entries ?d))" "k \<notin> fst ` set (entries ?d)" using c(1) by simp_all
    have ub: "length ?b \<le> used ?h"
    proof -
      have "mset ?b \<subseteq># mset (concat (slots ?h))" using i
        by (metis concat_append concat.simps(2) id_take_nth_drop mset_append mset_subset_eq_add_left subset_mset.add_increasing2 subset_mset.zero_le union_commute)
      then have "size (mset ?b) \<le> size (mset (concat (slots ?h)))" by (rule size_mset_mono)
      then show ?thesis using ht_ok_used [OF o(1)] by (simp only: size_mset)
    qed
    have u: "used ?h - 1 + length ?b = used ?h + length b'" using c(4) ub by linarith
    have low: "\<not> t \<longrightarrow> int ?i < rehashidx d \<longrightarrow> b' = []"
    proof (intro impI)
      assume a: "\<not> t" "int ?i < rehashidx d"
      then have "dictIsRehashing d" by (auto simp: dictIsRehashing_def)
      then have "?b = []" using a o(2) by (simp add: rehash_ok_def)
      then show "b' = []" using c(4) by simp
    qed
    have home: "hash_idx hf (fst x) (sizemask ?h) = ?i" if "x \<in> set b'" for x
      using that c(3) ht_ok_home [OF o(1) t(1) i, of x] by blast
    have "dict_ok hf ?d"
      by (rule ht_bucket_update(1) [OF ok t(1,2) i low home u _ dist(1)]) (simp_all add: h'_def)
    moreover have m: "dict_map d = (map_of (entries ?d))(k \<mapsto> snd e)"
      using dict_map_cons [OF o(3), of k "snd e" "entries ?d"] me c(1) by (metis prod.collapse)
    moreover have "map_of (entries ?d) k = None" using dist(2) by (simp add: map_of_eq_None_iff)
    then have "dict_map ?d = (dict_map d)(k := None)" unfolding m by (simp add: dict_map_def fun_upd_idem)
    moreover have "dictSize d = Suc (dictSize ?d)"
      using ub c(4) by (cases t) (simp_all add: dictSize_def upd_ht_def h'_def)
    ultimately show ?thesis using r c(1) by (intro exI [of _ h'] exI [of _ "Some e"]) simp
  qed
qed

lemma dictGenericDelete_spec:
  assumes "dict_ok hf d"
  shows "\<exists>d'. dictGenericDelete hf d k = Some (d', map_option (\<lambda>v. (k, v)) (dict_map d k)) \<and> dict_ok hf d' \<and>
     dict_map d' = (dict_map d)(k := None) \<and> dictSize d' + (if dict_map d k = None then 0 else 1) = dictSize d"
proof (cases "dictSize d = 0")
  case True
  then show ?thesis using assms dictSize_0_map [OF assms] by (simp add: dictGenericDelete_def dictSize_def)
next
  case False
  then have nz: "\<not> (used (ht0 d) = 0 \<and> used (ht1 d) = 0)" by (simp add: dictSize_def)
  obtain d1 where d1: "(if dictIsRehashing d then dictRehashStep hf d else Some d) = Some d1" "dict_ok hf d1" "same_entries d d1"
    using maybe_rehash_spec [OF assms] by blast
  have s: "dictSize d1 = dictSize d" and m: "dict_map d1 = dict_map d"
    using same_entries_size [OF assms d1(2,3)] same_entries_map [OF assms d1(3)] by simp_all
  have t0: "table (ht0 d1) \<noteq> None" using dictSize_pos_table [OF d1(2)] s False by simp
  obtain h he where r0: "ht_remove hf (ht0 d1) k = Some (h, he)"
    "case he of None \<Rightarrow> h = ht0 d1 \<and> k \<notin> fst ` set (concat (slots (ht0 d1)))
     | Some e \<Rightarrow> fst e = k \<and> dict_ok hf (upd_ht False h d1) \<and> dict_map (upd_ht False h d1) = (dict_map d1)(k := None) \<and>
         dict_map d1 k = Some (snd e) \<and> dictSize d1 = Suc (dictSize (upd_ht False h d1))"
    using ht_remove_spec [OF d1(2), of False k, unfolded if_False] t0 by blast
  have un: "dictGenericDelete hf d k = (case he of
          Some e \<Rightarrow> Some (d1\<lparr>ht0 := h\<rparr>, Some e)
        | None \<Rightarrow>
            if \<not> dictIsRehashing d1 then Some (d1, None)
            else do { (h, he) \<leftarrow> ht_remove hf (ht1 d1) k; Some (d1\<lparr>ht1 := h\<rparr>, he) })"
    unfolding dictGenericDelete_def if_not_P [OF nz] d1(1) using r0(1) by simp
  show ?thesis
  proof (cases he)
    case (Some e)
    then have e: "e = (k, snd e)" using r0(2) by (simp add: prod_eq_iff)
    show ?thesis unfolding un using Some r0(2) s m e by (auto simp: upd_ht_def)
  next
    case None
    then have n0: "k \<notin> fst ` set (concat (slots (ht0 d1)))" using r0(2) by simp
    have o: "rehash_ok d1" using d1(2) by (simp only: dict_ok_def)
    show ?thesis
    proof (cases "dictIsRehashing d1")
      case nr: False
      then have "slots (ht1 d1) = []" using o by (simp add: rehash_ok_def)
      then have "dict_map d1 k = None" using n0 unfolding dict_map_None entries_def by simp
      then show ?thesis unfolding un using None nr d1(2) m s by (simp add: fun_upd_idem)
    next
      case rh: True
      then have t1: "table (ht1 d1) \<noteq> None" using o by (simp add: rehash_ok_def)
      obtain h2 he2 where r1: "ht_remove hf (ht1 d1) k = Some (h2, he2)"
        "case he2 of None \<Rightarrow> h2 = ht1 d1 \<and> k \<notin> fst ` set (concat (slots (ht1 d1)))
         | Some e \<Rightarrow> fst e = k \<and> dict_ok hf (upd_ht True h2 d1) \<and> dict_map (upd_ht True h2 d1) = (dict_map d1)(k := None) \<and>
             dict_map d1 k = Some (snd e) \<and> dictSize d1 = Suc (dictSize (upd_ht True h2 d1))"
        using ht_remove_spec [OF d1(2), of True k, unfolded if_True] t1 rh by blast
      show ?thesis
      proof (cases he2)
        case N2: None
        then have "dict_map d1 k = None" using n0 r1(2) unfolding dict_map_None entries_def by auto
        then show ?thesis unfolding un using None rh r1 N2 d1(2) m s by (simp add: fun_upd_idem)
      next
        case S2: (Some e)
        then have e: "e = (k, snd e)" using r1(2) by (simp add: prod_eq_iff)
        show ?thesis unfolding un using None rh r1 S2 s m e by (auto simp: upd_ht_def)
      qed
    qed
  qed
qed

lemma dictCreate_ok: "dict_ok hf dictCreate" "dict_map dictCreate = Map.empty" "dictSize dictCreate = 0"
proof -
  have "ht_ok hf dictReset" by (simp add: ht_ok_def) (simp add: dictReset_def)
  then show "dict_ok hf dictCreate"
    by (simp add: dict_ok_def dictCreate_def rehash_ok_def dictIsRehashing_def entries_def)
  show "dict_map dictCreate = Map.empty" by (simp add: dict_map_def entries_def dictCreate_def)
  show "dictSize dictCreate = 0" by (simp add: dictSize_def dictCreate_def dictReset_def)
qed

text \<open>The operations with the result codes read as success flags.\<close>

definition dict_add_op ::
  "('k \<Rightarrow> u64) \<Rightarrow> bool \<Rightarrow> 'v \<Rightarrow> ('k, 'v) dict \<Rightarrow> 'k \<Rightarrow> 'v \<Rightarrow> (('k, 'v) dict \<times> bool) option" where
  "dict_add_op hf cr g d k v = map_option (\<lambda>(d, rc). (d, rc = DICT_OK)) (dictAdd hf cr g d k v)"

definition dict_del_op :: "('k \<Rightarrow> u64) \<Rightarrow> ('k, 'v) dict \<Rightarrow> 'k \<Rightarrow> (('k, 'v) dict \<times> bool) option" where
  "dict_del_op hf d k = map_option (\<lambda>(d, rc). (d, rc = DICT_OK)) (dictDelete hf d k)"

lemma dictDelete_spec:
  assumes "dict_ok hf d"
  shows "\<exists>d'. dictDelete hf d k = Some (d', if dict_map d k \<noteq> None then DICT_OK else DICT_ERR) \<and> dict_ok hf d' \<and>
     dict_map d' = (dict_map d)(k := None) \<and> dictSize d' + (if dict_map d k = None then 0 else 1) = dictSize d"
  using dictGenericDelete_spec [OF assms, of k] by (auto simp: dictDelete_def)

interpretation dct: bounded_map "dict_ok hf" dict_map dictSize "2 ^ 30"
    "dict_add_op hf cr g" "dictReplace hf cr g" "dict_del_op hf" "dictFetchValue hf" for hf cr g
proof
  fix s :: "('a, 'b) dict" and k v
  assume ok: "dict_ok hf s"
  show "\<exists>s'. dict_add_op hf cr g s k v = Some (s', dict_map s k = None) \<and> dict_ok hf s' \<and> dictSize s' \<le> dictSize s + 1 \<and>
      dict_map s' = (if dict_map s k = None then (dict_map s)(k \<mapsto> v) else dict_map s)"
    if "dictSize s < 2 ^ 30"
    using dictAdd_spec [OF ok, of cr g k v] that by (auto simp: dict_add_op_def split: if_splits)
  show "\<exists>s'. dictReplace hf cr g s k v = Some (s', dict_map s k = None) \<and> dict_ok hf s' \<and> dictSize s' \<le> dictSize s + 1 \<and>
      dict_map s' = (dict_map s)(k \<mapsto> v)"
    if "dictSize s < 2 ^ 30"
    using dictReplace_spec [OF ok, of cr g k v] that by (auto split: if_splits)
  show "\<exists>s'. dict_del_op hf s k = Some (s', dict_map s k \<noteq> None) \<and> dict_ok hf s' \<and> dictSize s' \<le> dictSize s \<and>
      dict_map s' = (dict_map s)(k := None)"
    using dictDelete_spec [OF ok, of k] by (auto simp: dict_del_op_def split: if_splits)
  show "\<exists>s'. dictFetchValue hf s k = Some (s', dict_map s k) \<and> dict_ok hf s' \<and> dictSize s' \<le> dictSize s \<and>
      dict_map s' = dict_map s"
    using dictFetchValue_spec [OF ok, of k] by auto
qed

section \<open>Clearing and shrinking\<close>

lemma dictClear_loop_all: "length (concat bs) = u \<Longrightarrow> dictClear_loop bs u = concat bs"
proof (induction bs arbitrary: u)
  case (Cons b bs)
  show ?case
  proof (cases "u = 0")
    case True
    then have "concat (b # bs) = []" using Cons.prems by blast
    then show ?thesis using True by (simp del: concat_eq_Nil_conv)
  next
    case False
    then show ?thesis using Cons.IH [of "u - length b"] Cons.prems by (simp del: length_concat)
  qed
qed simp

lemma dictClear_spec: "ht_ok hf h \<Longrightarrow> dictClear h = (dictReset, concat (slots h))"
  using dictClear_loop_all [OF sym [OF ht_ok_used]] ht_ok_size [of hf h] by (simp add: dictClear_def)

lemma dictEmpty_spec:
  assumes "dict_ok hf d"
  shows "dictEmpty d = (d\<lparr>ht0 := dictReset, ht1 := dictReset, rehashidx := - 1, iterators := 0\<rparr>, entries d)"
  using assms dictClear_spec [of hf "ht0 d"] dictClear_spec [of hf "ht1 d"]
  by (simp add: dictEmpty_def dict_ok_def entries_def)

lemma dictResize_spec:
  assumes ok: "dict_ok hf d"
  shows "\<exists>d' rc. dictResize cr d = (d', rc) \<and> dict_ok hf d' \<and> dict_map d' = dict_map d"
proof -
  have b: "sint (w :: 32 word) < 2 ^ 31" for w using sint_less [of w] by simp
  define m where "m = (if sint (of_nat (used (ht0 d)) :: s32) < 4 then 4 else sint (of_nat (used (ht0 d)) :: s32))"
  have "m < 2 ^ 31" using b [of "of_nat (used (ht0 d))"] by (simp add: m_def)
  then have "nat m \<le> 2 ^ 31" by simp
  from dictExpand_spec [OF ok this] obtain d' rc where "dictExpand d (nat m) = (d', rc)" "dict_ok hf d'" "same_entries d d'" by blast
  then have e: "dict_map d' = dict_map d" using same_entries_map [OF ok] by blast
  show ?thesis
  proof (cases "\<not> cr \<or> dictIsRehashing d")
    case True
    then have "dictResize cr d = (d, DICT_ERR)" by (auto simp: dictResize_def)
    then show ?thesis using ok by simp
  next
    case False
    then have "dictResize cr d = dictExpand d (nat m)" by (simp add: dictResize_def m_def Let_def)
    then show ?thesis using \<open>dictExpand d (nat m) = (d', rc)\<close> \<open>dict_ok hf d'\<close> e by auto
  qed
qed

section \<open>Properties\<close>

text \<open>
  C5: Whatever the hash function, whether resizing is enabled or not, and in whatever stage the
  incremental rehashing is, a sequence of insertions, overwrites, deletions and lookups from the empty
  dictionary (at most \<open>2 ^ 30\<close> operations) runs inside its tables, answers every call as a finite map does,
  and ends with the representation of that map.
\<close>

theorem dict_refines_map:
  assumes "length cs \<le> 2 ^ 30"
  shows "\<exists>d. map_run (dict_add_op hf cr g) (dictReplace hf cr g) (dict_del_op hf) (dictFetchValue hf) dictCreate cs
       = Some (d, snd (map_spec_run Map.empty cs)) \<and> dict_ok hf d \<and> dict_map d = fst (map_spec_run Map.empty cs)"
  using dct.run_refines [OF dictCreate_ok(1), of cs hf cr g] assms unfolding dictCreate_ok(2,3) by simp

theorem dict_refines_map_witness:
  "\<exists>d. map_run (dict_add_op (\<lambda>_. 3) True 0) (dictReplace (\<lambda>_. 3) True 0) (dict_del_op (\<lambda>_. 3)) (dictFetchValue (\<lambda>_. 3)) dictCreate
      [MAdd (1::int) (10::int), MAdd 2 20, MAdd 1 11, MReplace 2 21, MDelete 1, MFetch 2, MFetch 1]
    = Some (d, [Done True, Done True, Done False, Done False, Done True, Got (Some 21), Got None])"
  using dict_refines_map [of "[MAdd (1::int) (10::int), MAdd 2 20, MAdd 1 11, MReplace 2 21, MDelete 1, MFetch 2, MFetch 1]" "\<lambda>_. 3" True 0]
  by (auto simp: Let_def)

text \<open>
  C18: Incremental rehashing neither loses nor duplicates an entry: after \<open>n\<close> steps the same pairs are
  stored, the dictionary is well formed, and the flag says whether buckets are left.
\<close>

theorem dictRehash_keeps_entries:
  assumes "dict_ok hf d"
  shows "\<exists>d' more. dictRehash hf d n = Some (d', more) \<and> dict_ok hf d' \<and> mset (entries d') = mset (entries d) \<and>
     dict_map d' = dict_map d \<and> more = dictIsRehashing d'"
  using dictRehash_spec [OF assms, of n] same_entries_map [OF assms] unfolding same_entries_def by blast

text \<open>\<open>dictRehash\<close> called \<open>k\<close> times with \<open>n\<close> steps.\<close>

primrec rehash_times :: "('k \<Rightarrow> u64) \<Rightarrow> nat \<Rightarrow> nat \<Rightarrow> ('k, 'v) dict \<Rightarrow> ('k, 'v) dict option" where
  "rehash_times hf n 0 d = Some d"
| "rehash_times hf n (Suc k) d = do { (d, _) \<leftarrow> dictRehash hf d n; rehash_times hf n k d }"

lemma rehash_times_ends:
  "dict_ok hf d \<Longrightarrow> 0 < n \<Longrightarrow> rehash_left d \<le> k \<Longrightarrow>
     \<exists>d'. rehash_times hf n k d = Some d' \<and> dict_ok hf d' \<and> \<not> dictIsRehashing d' \<and> dict_map d' = dict_map d"
proof (induction k arbitrary: d)
  case 0
  then show ?case by (simp add: rehash_left_def split: if_splits)
next
  case (Suc k)
  obtain d' more where r: "dictRehash hf d n = Some (d', more)" "dict_ok hf d'" "same_entries d d'"
    "0 < n \<and> dictIsRehashing d \<longrightarrow> rehash_left d' < rehash_left d" "dictIsRehashing d' \<longrightarrow> dictIsRehashing d"
    using dictRehash_spec [OF Suc.prems(1), of n] by blast
  have "rehash_left d' \<le> k"
  proof (cases "dictIsRehashing d")
    case True then show ?thesis using r(4) Suc.prems(2,3) by linarith
  next
    case False then show ?thesis using r(5) by (simp add: rehash_left_def)
  qed
  from Suc.IH [OF r(2) Suc.prems(2) this] show ?case
    using r(1) same_entries_map [OF Suc.prems(1) r(3)] by auto
qed

text \<open>
  C19: Rehashing ends: calling \<open>dictRehash\<close> with a positive step count as often as there are buckets in the old
  table, plus one, completes it, with nothing else happening in between.
\<close>

theorem dictRehash_completes:
  assumes "dict_ok hf d" "0 < n"
  shows "\<exists>d'. rehash_times hf n (ht_size (ht0 d) + 1) d = Some d' \<and> dict_ok hf d' \<and> \<not> dictIsRehashing d' \<and>
     dict_map d' = dict_map d"
  by (rule rehash_times_ends [OF assms]) (simp add: rehash_left_def)

text \<open>A dictionary in the middle of growing from 4 to 8 buckets.\<close>

definition dict_example :: "(int, int) dict" where
  "dict_example = \<lparr>ht0 = \<lparr>table = Some [[], [(5, 50)], [], []], ht_size = 4, sizemask = 3, used = 1\<rparr>,
     ht1 = \<lparr>table = Some [[], [], [], [], [], [], [], []], ht_size = 8, sizemask = 7, used = 0\<rparr>, rehashidx = 0, iterators = 0\<rparr>"

lemma dict_example_ok: "dict_ok (\<lambda>_. 1) dict_example"
proof -
  have "ht_ok (\<lambda>_. 1) (ht0 dict_example)" unfolding ht_ok_def dict_example_def
    by (auto simp: slots_def hash_idx_def less_Suc_eq numeral_eq_Suc intro!: exI [of _ 2])
  moreover have "ht_ok (\<lambda>_. 1) (ht1 dict_example)" unfolding ht_ok_def dict_example_def
    by (auto simp: slots_def hash_idx_def less_Suc_eq numeral_eq_Suc intro!: exI [of _ 3])
  ultimately show ?thesis
    by (simp add: dict_ok_def rehash_ok_def dictIsRehashing_def entries_def) (simp add: dict_example_def slots_def)
qed

lemma dict_example_map: "dict_map dict_example = [5 \<mapsto> 50]" "mset (entries dict_example) = {#(5, 50)#}" "ht_size (ht0 dict_example) + 1 = 5"
  by (simp_all add: dict_map_def entries_def dict_example_def slots_def)

theorem dictRehash_completes_witness:
  "\<exists>d'. rehash_times (\<lambda>_. 1) 1 5 dict_example = Some d' \<and> dict_ok (\<lambda>_. 1) d' \<and> \<not> dictIsRehashing d' \<and>
     dict_map d' = [5 \<mapsto> 50]"
  using dictRehash_completes [OF dict_example_ok zero_less_one] unfolding dict_example_map by blast

theorem dictRehash_keeps_entries_witness:
  "\<exists>d' more. dictRehash (\<lambda>_. 1) dict_example 1 = Some (d', more) \<and> dict_ok (\<lambda>_. 1) d' \<and>
     mset (entries d') = {#(5, 50)#} \<and> dict_map d' = [5 \<mapsto> 50] \<and> more = dictIsRehashing d'"
  using dictRehash_keeps_entries [OF dict_example_ok, of 1] unfolding dict_example_map by blast

end
