(* ===== verification/Dict_Scan.thy ===== *)
theory Dict_Scan
  imports Dict_Map
begin

text \<open>
  \<open>dictScan\<close>: the stateless iteration behind SCAN. The cursor is incremented on its reversed bits, so
  that a scan survives the table growing between two calls.
\<close>

section \<open>Model\<close>

text \<open>The bit reversal: the block size \<open>s\<close> is halved until it is zero.\<close>

function rev_loop :: "nat \<Rightarrow> u64 \<Rightarrow> u64 \<Rightarrow> u64" where
  "rev_loop s msk v = (
     let s = s div 2
     in if s > 0 then
          let msk = msk XOR push_bit s msk;
              v = (drop_bit s v AND msk) OR (push_bit s v AND NOT msk)
          in rev_loop s msk v
        else v)"
  by pat_completeness auto
termination
  by (relation "measure fst") auto

declare rev_loop.simps [simp del]

definition revbits :: "u64 \<Rightarrow> u64" where
  "revbits v = rev_loop 64 (NOT 0) v"

text \<open>
  The loop over the expansions of the cursor in the larger table. The masks are arbitrary words here, so
  that it ends is something to prove.
\<close>

partial_function (option) scan_loop ::
  "('k \<times> 'v) list list \<Rightarrow> u64 \<Rightarrow> u64 \<Rightarrow> u64 \<Rightarrow> (u64 \<times> ('k \<times> 'v) list) option" where
  "scan_loop t1 m0 m1 v = do {
     de \<leftarrow> rd t1 (unat (v AND m1));
     let v = (((v OR m0) + 1) AND NOT m0) OR (v AND m0);
     if v AND (m0 XOR m1) \<noteq> 0 then do {
       (w, es) \<leftarrow> scan_loop t1 m0 m1 v;
       Some (w, de @ es)
     } else Some (v, de)
   }"

definition dictScan :: "('k, 'v) dict \<Rightarrow> u64 \<Rightarrow> (u64 \<times> ('k \<times> 'v) list) option" where
  "dictScan d v =
     (if dictSize d = 0 then Some (0, [])
      else do {
        (v, m0, es) \<leftarrow>
          (if \<not> dictIsRehashing d then do {
             let m0 = sizemask (ht0 d);
             de \<leftarrow> rd (slots (ht0 d)) (unat (v AND m0));
             Some (v, m0, de)
           } else do {
             let (t0, t1) = (if ht_size (ht0 d) > ht_size (ht1 d) then (ht1 d, ht0 d) else (ht0 d, ht1 d));
             let m0 = sizemask t0;
             let m1 = sizemask t1;
             de \<leftarrow> rd (slots t0) (unat (v AND m0));
             (v, es) \<leftarrow> scan_loop (slots t1) m0 m1 v;
             Some (v, m0, de @ es)
           });
        let v = v OR NOT m0;
        let v = revbits (revbits v + 1);
        Some (v, es)
      })"

text \<open>
  A complete scan by a client: the dictionary may be a different one at every call. The result is
  the last cursor and everything that was emitted.
\<close>

primrec scan_all :: "('k, 'v) dict list \<Rightarrow> u64 \<Rightarrow> (u64 \<times> ('k \<times> 'v) list) option" where
  "scan_all [] v = Some (v, [])"
| "scan_all (d # ds) v = do {
     (v, es) \<leftarrow> dictScan d v;
     (w, es') \<leftarrow> scan_all ds v;
     Some (w, es @ es')
   }"

section \<open>Bit reversal\<close>

text \<open>
  The mask for blocks of \<open>s\<close> bits selects the even blocks; one turn of the loop swaps neighbouring blocks,
  and the turns for \<open>s = 2 ^ (k - 1), \<dots>, 2, 1\<close> mirror every group of \<open>2 ^ k\<close> bits.
\<close>

definition flip :: "nat \<Rightarrow> nat \<Rightarrow> nat" where
  "flip k i = i div 2 ^ k * 2 ^ k + (2 ^ k - 1 - i mod 2 ^ k)"

lemma flip_div: "flip k i div 2 ^ k = i div 2 ^ k"
proof -
  have "2 ^ k - 1 - i mod 2 ^ k < (2 :: nat) ^ k" by (simp add: less_imp_diff_less)
  then show ?thesis unfolding flip_def by simp
qed

lemma flip_Suc: "flip (Suc k) i = (if even (i div 2 ^ k) then flip k i + 2 ^ k else flip k i - 2 ^ k)"
proof -
  define q r where "q = i div 2 ^ k" and "r = i mod 2 ^ k"
  have r: "r < 2 ^ k" by (simp add: r_def)
  have d: "i div 2 ^ Suc k = q div 2" by (simp add: q_def div_mult2_eq [symmetric] mult.commute)
  have m: "i mod 2 ^ Suc k = q mod 2 * 2 ^ k + r"
    using mod_mult2_eq [of i "2 ^ k" 2] by (simp add: q_def r_def mult.commute)
  show ?thesis
  proof (cases "even q")
    case True
    then obtain p where "q = 2 * p" by (elim evenE)
    then show ?thesis unfolding flip_def d m q_def [symmetric] r_def [symmetric] using r by simp
  next
    case False
    then obtain p where "q = 2 * p + 1" by (elim oddE)
    then show ?thesis unfolding flip_def d m q_def [symmetric] r_def [symmetric] using r by simp
  qed
qed

definition blockmask :: "nat \<Rightarrow> u64 \<Rightarrow> bool" where
  "blockmask s m \<longleftrightarrow> (\<forall>i < 64. bit m i = even (i div s))"

lemma blockmask_step:
  assumes "blockmask (2 * s) m" "0 < s"
  shows "blockmask s (m XOR push_bit s m)"
  unfolding blockmask_def
proof (intro allI impI)
  fix i :: nat assume i: "i < 64"
  define q r where "q = i div (2 * s)" and "r = i mod (2 * s)"
  have ir: "i = q * (2 * s) + r" unfolding q_def r_def by (rule div_mult_mod_eq [symmetric])
  have rs: "r < 2 * s" using assms(2) by (simp add: r_def)
  note ir = ir rs
  have b: "bit (m XOR push_bit s m) i = (even q \<noteq> (s \<le> i \<and> even ((i - s) div (2 * s))))"
    using assms(1) i by (auto simp: bit_simps blockmask_def q_def)
  show "bit (m XOR push_bit s m) i = even (i div s)"
  proof (cases "r < s")
    case True
    have "i div s = 2 * q"
    proof -
      have "i = s * (2 * q) + r" using ir(1) by simp
      then show ?thesis using True by simp
    qed
    moreover have "(s \<le> i \<and> even ((i - s) div (2 * s))) = odd q"
    proof (cases q)
      case 0 then show ?thesis using True ir by simp
    next
      case (Suc p)
      have "i - s = (2 * s) * p + (s + r)" using ir(1) Suc by simp
      moreover have "s + r < 2 * s" using True by simp
      ultimately have "(i - s) div (2 * s) = p" by simp
      moreover have "s \<le> i" using ir(1) Suc by simp
      ultimately show ?thesis using Suc by simp
    qed
    ultimately show ?thesis using b by simp
  next
    case False
    then have f: "i = s * (2 * q + 1) + (r - s)" "r - s < s" using ir by (simp_all add: algebra_simps)
    have "i div s = 2 * q + 1" by (rule div_nat_eqI) (use ir False in \<open>simp_all add: algebra_simps\<close>)
    moreover have "i - s = (2 * s) * q + (r - s)" "s \<le> i" using ir False by (simp_all add: mult.commute mult.left_commute)
    then have "(i - s) div (2 * s) = q" using f(2) by simp
    ultimately show ?thesis using b \<open>s \<le> i\<close> by simp
  qed
qed

lemma rev_loop_bits:
  "k \<le> 6 \<Longrightarrow> blockmask (2 ^ k) m \<Longrightarrow> i < 64 \<Longrightarrow> bit (rev_loop (2 ^ k) m v) i = bit v (flip k i)"
proof (induction k arbitrary: m v)
  case 0
  then show ?case by (subst rev_loop.simps) (simp add: flip_def)
next
  case (Suc k)
  define m' where "m' = m XOR push_bit (2 ^ k) m"
  have bm: "blockmask (2 ^ k) m'" using Suc.prems(2) by (auto simp: m'_def intro: blockmask_step)
  define v' where "v' = (drop_bit (2 ^ k) v AND m') OR (push_bit (2 ^ k) v AND NOT m')"
  have "rev_loop (2 ^ Suc k) m v = rev_loop (2 ^ k) m' v'"
    by (subst rev_loop.simps) (simp add: Let_def m'_def v'_def)
  then have "bit (rev_loop (2 ^ Suc k) m v) i = bit v' (flip k i)"
    using Suc.IH [OF _ bm Suc.prems(3), of v'] Suc.prems(1) by simp
  moreover have fl: "flip k i < 64"
  proof -
    have "(2 :: nat) ^ k * 2 ^ (6 - k) = 64" using Suc.prems(1) by (simp add: power_add [symmetric])
    then have "i div 2 ^ k < 2 ^ (6 - k)" using Suc.prems(3) by (metis less_mult_imp_div_less mult.commute)
    then have "flip k i div 2 ^ k < 2 ^ (6 - k)" by (simp only: flip_div)
    then have "flip k i < 2 ^ (6 - k) * 2 ^ k" by (simp add: div_less_iff_less_mult)
    then show ?thesis using \<open>2 ^ k * 2 ^ (6 - k) = 64\<close> by (simp only: mult.commute)
  qed
  moreover have "bit v' j = (if even (j div 2 ^ k) then bit v (j + 2 ^ k) else bit v (j - 2 ^ k))" if "j < 64" for j
  proof -
    have "bit m' j = even (j div 2 ^ k)" using bm that by (simp add: blockmask_def)
    moreover have "odd (j div 2 ^ k) \<Longrightarrow> 2 ^ k \<le> j"
      by (metis div_less even_zero not_less)
    ultimately show ?thesis using that by (auto simp: v'_def bit_simps ac_simps)
  qed
  ultimately show ?case by (simp add: flip_Suc flip_div)
qed

lemma bit_revbits: "i < 64 \<Longrightarrow> bit (revbits v) i = bit v (63 - i)"
proof -
  assume i: "i < 64"
  have "blockmask (2 ^ 6) (NOT 0)" by (simp add: blockmask_def bit_simps)
  from rev_loop_bits [OF _ this i, of v] show ?thesis using i by (simp add: revbits_def flip_def)
qed


lemma revbits_revbits [simp]: "revbits (revbits v) = v"
  by (rule bit_word_eqI) (simp add: bit_revbits)

lemma revbits_eq_iff: "revbits v = revbits w \<longleftrightarrow> v = w"
  by (metis revbits_revbits)

section \<open>The order of the scan\<close>

text \<open>
  The position of a hash or cursor in the order in which a scan visits the buckets: its reversed bits, read as
  a number.
\<close>

definition pos :: "u64 \<Rightarrow> nat" where
  "pos v = unat (revbits v)"

lemma pos_0: "pos 0 = 0"
proof -
  have "revbits 0 = 0" by (rule bit_word_eqI) (simp add: bit_revbits)
  then show ?thesis by (simp add: pos_def)
qed

lemma revbits_fill: "e \<le> 64 \<Longrightarrow> revbits (v OR NOT (mask e)) = revbits v OR mask (64 - e)"
proof (rule bit_word_eqI)
  fix i :: nat assume "e \<le> 64" "i < LENGTH(64)"
  then show "bit (revbits (v OR NOT (mask e))) i = bit (revbits v OR mask (64 - e)) i"
    by (simp add: bit_revbits bit_simps) linarith
qed

lemma unat_or_mask: "n < 64 \<Longrightarrow> unat ((w :: u64) OR mask n) = unat w div 2 ^ n * 2 ^ n + (2 ^ n - 1)"
proof -
  assume n: "n < 64"
  have "drop_bit n (w OR mask n) = drop_bit n w" by (rule bit_word_eqI) (simp add: bit_simps)
  then have "drop_bit n (unat (w OR mask n)) = drop_bit n (unat w)" by (metis unat_drop_bit_eq)
  then have d: "unat (w OR mask n) div 2 ^ n = unat w div 2 ^ n" by (simp only: drop_bit_eq_div)
  have "take_bit n (w OR mask n) = mask n" by (rule bit_word_eqI) (auto simp: bit_simps)
  then have "take_bit n (unat (w OR mask n)) = unat (mask n :: u64)" by (metis unsigned_take_bit_eq)
  also have "\<dots> = 2 ^ n - 1"
  proof -
    have "uint (mask n :: u64) = 2 ^ n - 1" using n by (simp only: uint_mask_eq) (simp add: mask_eq_exp_minus_1)
    then have "int (unat (mask n :: u64)) = int (2 ^ n - 1)" by (simp only: uint_nat [symmetric]) (simp add: of_nat_diff)
    then show ?thesis by (simp only: of_nat_eq_iff)
  qed
  finally have "unat (w OR mask n) mod 2 ^ n = 2 ^ n - 1" by (simp only: take_bit_eq_mod)
  then show ?thesis using div_mult_mod_eq [of "unat (w OR mask n)" "2 ^ n"] d by simp
qed

text \<open>The cursor a call returns, when the smaller table has \<open>2 ^ e\<close> buckets.\<close>

definition next_cursor :: "nat \<Rightarrow> u64 \<Rightarrow> u64" where
  "next_cursor e v = revbits (revbits (v OR NOT (mask e)) + 1)"

lemma pos_next:
  assumes "0 < e" "e \<le> 64"
  shows "pos (next_cursor e v) = ((pos v div 2 ^ (64 - e) + 1) * 2 ^ (64 - e)) mod 2 ^ 64"
proof -
  have "unat (revbits v OR mask (64 - e)) = pos v div 2 ^ (64 - e) * 2 ^ (64 - e) + (2 ^ (64 - e) - 1)"
    unfolding pos_def using assms by (intro unat_or_mask) simp
  moreover have "(0::nat) < 2 ^ (64 - e)" by simp
  ultimately have "unat (revbits v OR mask (64 - e)) + 1 = (pos v div 2 ^ (64 - e) + 1) * 2 ^ (64 - e)" by (simp add: algebra_simps)
  moreover have "pos (next_cursor e v) = (unat (revbits v OR mask (64 - e)) + 1) mod 2 ^ 64"
    using assms by (simp add: pos_def next_cursor_def revbits_fill unat_word_ariths)
  ultimately show ?thesis by simp
qed

lemma same_bucket:
  assumes "e \<le> 64" "pos H div 2 ^ (64 - e) = pos v div 2 ^ (64 - e)"
  shows "take_bit e H = take_bit e v"
proof -
  have "drop_bit (64 - e) (unat (revbits H)) = drop_bit (64 - e) (unat (revbits v))"
    using assms(2) by (simp only: pos_def drop_bit_eq_div)
  then have "drop_bit (64 - e) (revbits H) = drop_bit (64 - e) (revbits v)"
    by (metis unat_drop_bit_eq word_unat_eq_iff)
  then have "bit (drop_bit (64 - e) (revbits H)) i = bit (drop_bit (64 - e) (revbits v)) i" for i by (rule arg_cong)
  then have r: "bit (revbits H) (64 - e + i) = bit (revbits v) (64 - e + i)" for i
    by (simp only: bit_drop_bit_eq comp_def)
  show ?thesis
  proof (rule bit_word_eqI)
    fix i :: nat assume i: "i < LENGTH(64)"
    show "bit (take_bit e H) i = bit (take_bit e v) i"
    proof (cases "i < e")
      case True
      have "64 - e + (e - 1 - i) = 63 - i" "63 - (63 - i) = i" using True assms(1) by linarith+
      then show ?thesis using r [of "e - 1 - i"] True assms(1) by (simp add: bit_revbits bit_simps)
    qed (simp add: bit_simps)
  qed
qed

text \<open>
  The step of the coverage argument: what lies before the new cursor either lay before the old one
  or is in the bucket just visited; and when the cursor wraps to zero nothing lies behind it.
\<close>

lemma scan_step_covers:
  assumes e: "0 < e" "e \<le> 64" and H: "pos H < pos (next_cursor e v) \<or> next_cursor e v = 0"
  shows "pos H < pos v \<or> take_bit e H = take_bit e v"
proof (cases "pos H < pos v")
  case False
  let ?k = "2 ^ (64 - e) :: nat"
  have le: "pos v div ?k \<le> pos H div ?k" using False by (intro div_le_mono) simp
  have "pos H div ?k < pos v div ?k + 1"
  proof (cases "(pos v div ?k + 1) * ?k < 2 ^ 64")
    case True
    then have p: "pos (next_cursor e v) = (pos v div ?k + 1) * ?k" using pos_next [OF e] by simp
    moreover have "0 < (pos v div ?k + 1) * ?k" by simp
    then have "next_cursor e v \<noteq> 0" using p pos_0 by (metis less_irrefl)
    ultimately have "pos H < (pos v div ?k + 1) * ?k" using H by simp
    then show ?thesis by (rule less_mult_imp_div_less)
  next
    case False
    have "pos H < 2 ^ 64" using unat_less_2p [of "revbits H"] by (simp add: pos_def)
    then have "pos H < (pos v div ?k + 1) * ?k" using False by linarith
    then show ?thesis by (rule less_mult_imp_div_less)
  qed
  then have "pos H div ?k = pos v div ?k" using le by linarith
  then show ?thesis using same_bucket [OF e(2)] by blast
qed simp

lemma low_bits_succ:
  assumes "n < 64"
  shows "take_bit n (((w :: u64) OR mask n) + 1) = 0"
proof -
  have z: "(0::nat) < 2 ^ n" by simp
  have u: "unat (w OR mask n) + 1 = (unat w div 2 ^ n + 1) * 2 ^ n" unfolding unat_or_mask [OF assms] using z by (simp add: algebra_simps)
  have "unat ((w OR mask n) + 1) = (unat (w OR mask n) + 1) mod 2 ^ 64" by (simp add: unat_word_ariths)
  then have "unat ((w OR mask n) + 1) = ((unat w div 2 ^ n + 1) * 2 ^ n) mod 2 ^ 64" unfolding u .
  moreover have "(2::nat) ^ n dvd 2 ^ 64" using assms by (intro le_imp_power_dvd) simp
  then have "2 ^ n dvd ((unat w div 2 ^ n + 1) * 2 ^ n) mod 2 ^ 64" by (simp add: dvd_mod)
  ultimately have "unat ((w OR mask n) + 1) mod 2 ^ n = 0" by simp
  then have "take_bit n (unat ((w OR mask n) + 1)) = 0" by (simp only: take_bit_eq_mod)
  then have "unat (take_bit n ((w OR mask n) + 1)) = 0" by (simp only: unsigned_take_bit_eq)
  then show ?thesis by (simp only: unat_eq_0)
qed

lemma next_cursor_aligned:
  assumes "0 < e" "e \<le> 64"
  shows "next_cursor e v AND NOT (mask e) = 0"
proof (rule bit_word_eqI)
  fix i :: nat assume i: "i < LENGTH(64)"
  have "\<not> bit (next_cursor e v) i" if "e \<le> i"
  proof -
    have "take_bit (64 - e) ((revbits v OR mask (64 - e)) + 1) = 0" using assms by (intro low_bits_succ) simp
    then have "\<not> bit (take_bit (64 - e) ((revbits v OR mask (64 - e)) + 1)) (63 - i)" by simp
    then have "\<not> bit ((revbits v OR mask (64 - e)) + 1) (63 - i)" using that i assms by (simp add: bit_take_bit_iff)
    then show ?thesis using i assms by (simp add: next_cursor_def revbits_fill bit_revbits)
  qed
  then show "bit (next_cursor e v AND NOT (mask e)) i = bit 0 i" using i by (auto simp: bit_simps not_less)
qed

section \<open>One call\<close>

lemma clear_low:
  assumes "\<And>i. i < n \<Longrightarrow> \<not> bit (w :: u64) i"
  shows "w AND NOT (mask n) = w" "w AND (x AND mask n) = 0"
proof -
  show "w AND NOT (mask n) = w"
  proof (rule bit_word_eqI)
    fix i :: nat assume "i < LENGTH(64)"
    then show "bit (w AND NOT (mask n)) i = bit w i" using assms [of i] by (cases "i < n") (auto simp: bit_simps)
  qed
  show "w AND (x AND mask n) = 0"
  proof (rule bit_word_eqI)
    fix i :: nat
    show "bit (w AND (x AND mask n)) i = bit 0 i" using assms [of i] by (cases "i < n") (auto simp: bit_simps)
  qed
qed

lemma scan_incr:
  assumes "n < 64"
  shows "((((x :: u64) OR mask n) + 1) AND NOT (mask n)) OR (x AND mask n) = x + 2 ^ n"
proof -
  let ?w = "(x OR mask n) + 1"
  have z: "take_bit n ?w = 0" by (rule low_bits_succ [OF assms])
  have nb: "\<not> bit ?w i" if "i < n" for i
  proof -
    have "bit (take_bit n ?w) i = False" unfolding z by simp
    then show ?thesis using that by (simp add: bit_take_bit_iff)
  qed
  have w: "?w AND NOT (mask n) = ?w" and d: "?w AND (x AND mask n) = 0"
    using clear_low [of n ?w] nb by blast+
  then have "?w OR (x AND mask n) = ?w + (x AND mask n)" using word_plus_and_or [of ?w "x AND mask n"] by simp
  also have "\<dots> = x + mask n + 1" using word_plus_and_or [of x "mask n"] by (simp add: ac_simps)
  also have "\<dots> = x + 2 ^ n" by (simp add: mask_eq_exp_minus_1)
  finally show ?thesis by (simp only: w)
qed

lemma scan_cond:
  assumes "e0 \<le> e1"
  shows "(x :: u64) AND (mask e0 XOR mask e1) = 0 \<longleftrightarrow> unat x mod 2 ^ e1 = unat x mod 2 ^ e0"
proof -
  have "x AND (mask e0 XOR mask e1) = 0 \<longleftrightarrow> take_bit e1 x = take_bit e0 x"
    using assms by (auto simp: bit_eq_iff bit_simps)
  also have "\<dots> \<longleftrightarrow> unat (take_bit e1 x) = unat (take_bit e0 x)" by (rule word_unat_eq_iff)
  also have "\<dots> \<longleftrightarrow> unat x mod 2 ^ e1 = unat x mod 2 ^ e0" unfolding unsigned_take_bit_eq by (simp only: take_bit_eq_mod)
  finally show ?thesis .
qed

lemma unat_and_mask: "unat ((x :: u64) AND mask e) = unat x mod 2 ^ e"
proof -
  have "x AND mask e = take_bit e x" by (simp only: take_bit_eq_mask)
  then show ?thesis unfolding unsigned_take_bit_eq by (simp add: unsigned_take_bit_eq) (simp only: take_bit_eq_mod)
qed

lemma scan_loop_spec:
  assumes e: "e0 \<le> e1" "e1 \<le> 31" and t: "length t1 = 2 ^ e1" and v: "unat v < 2 ^ e0"
    and j: "j < 2 ^ (e1 - e0)" and x: "unat x = unat v + j * 2 ^ e0"
  shows "\<exists>w. scan_loop t1 (mask e0) (mask e1) x = Some (w, concat (map (\<lambda>i. t1 ! (unat v + i * 2 ^ e0)) [j..<2 ^ (e1 - e0)])) \<and>
     unat w = unat v + 2 ^ e1"
  using j x
proof (induction "2 ^ (e1 - e0) - j" arbitrary: j x rule: less_induct)
  case less
  let ?k = "2 ^ (e1 - e0) :: nat"
  have k: "?k * 2 ^ e0 = 2 ^ e1" using e(1) by (simp add: power_add [symmetric])
  have p31: "(2::nat) ^ e1 \<le> 2 ^ 31" "(2::nat) ^ e0 \<le> 2 ^ 31" using e by (intro power_increasing; simp)+
  have "Suc j * 2 ^ e0 \<le> ?k * 2 ^ e0" using less.prems(1) by (intro mult_le_mono1) simp
  then have le: "j * 2 ^ e0 + 2 ^ e0 \<le> 2 ^ e1" using k by simp
  have xl: "unat x < 2 ^ e1" using less.prems(2) le v by linarith
  let ?x = "x + 2 ^ e0"
  have "unat (of_nat (2 ^ e0) :: u64) = 2 ^ e0" using p31(2) by (simp only: unat_of_nat) (intro mod_less, simp)
  then have "unat (2 ^ e0 :: u64) = 2 ^ e0" by simp
  then have ux: "unat ?x = unat x + 2 ^ e0" using xl p31 by (simp add: unat_word_ariths)
  have un: "scan_loop t1 (mask e0) (mask e1) x =
      (if ?x AND (mask e0 XOR mask e1) \<noteq> 0
       then do { (w, es) \<leftarrow> scan_loop t1 (mask e0) (mask e1) ?x; Some (w, t1 ! unat x @ es) }
       else Some (?x, t1 ! unat x))"
    using xl t e by (subst scan_loop.simps) (simp add: unat_and_mask scan_incr)
  have up: "[j..<?k] = j # [Suc j..<?k]" using less.prems(1) by (simp add: upt_conv_Cons)
  show ?case
  proof (cases "Suc j = ?k")
    case True
    then have "j * 2 ^ e0 + 2 ^ e0 = 2 ^ e1" using k by (metis add.commute mult_Suc)
    then have u: "unat ?x = unat v + 2 ^ e1" using ux less.prems(2) by simp
    moreover have "unat ?x mod 2 ^ e1 = unat v" "unat ?x mod 2 ^ e0 = unat v"
    proof -
      have "unat v < 2 ^ e1" using v le by linarith
      then show "unat ?x mod 2 ^ e1 = unat v" unfolding u by simp
      have "(2::nat) ^ e0 dvd 2 ^ e1" using e(1) by (rule le_imp_power_dvd)
      then obtain c where "(2::nat) ^ e1 = 2 ^ e0 * c" by (elim dvdE)
      then show "unat ?x mod 2 ^ e0 = unat v" unfolding u using v by simp
    qed
    then have "?x AND (mask e0 XOR mask e1) = 0" using scan_cond [OF e(1), of ?x] by simp
    ultimately show ?thesis unfolding un up using True less.prems(2) by simp
  next
    case False
    then have sj: "Suc j < ?k" using less.prems(1) by simp
    have ux': "unat ?x = unat v + Suc j * 2 ^ e0" using ux less.prems(2) by simp
    have "Suc (Suc j) * 2 ^ e0 \<le> ?k * 2 ^ e0" using sj by (intro mult_le_mono1) simp
    then have "unat ?x < 2 ^ e1" using ux' k v by simp
    moreover have "unat ?x mod 2 ^ e0 = unat v" unfolding ux' mod_mult_self1 using v by simp
    moreover have "unat ?x \<noteq> unat v" using ux less.prems(2) by simp
    ultimately have "?x AND (mask e0 XOR mask e1) \<noteq> 0" using scan_cond [OF e(1), of ?x] by simp
    moreover obtain w where "scan_loop t1 (mask e0) (mask e1) ?x =
        Some (w, concat (map (\<lambda>i. t1 ! (unat v + i * 2 ^ e0)) [Suc j..<?k]))" "unat w = unat v + 2 ^ e1"
      using less.hyps [OF _ sj ux'] less.prems(1) by (metis diff_less_mono2 lessI)
    ultimately show ?thesis unfolding un up using less.prems(2) by simp
  qed
qed


lemma next_cursor_cong: "take_bit e v = take_bit e w \<Longrightarrow> next_cursor e v = next_cursor e w"
proof -
  assume t: "take_bit e v = take_bit e w"
  have "v OR NOT (mask e) = w OR NOT (mask e)"
  proof (rule bit_word_eqI)
    fix i :: nat assume "i < LENGTH(64)"
    moreover have "bit (take_bit e v) i = bit (take_bit e w) i" unfolding t ..
    ultimately show "bit (v OR NOT (mask e)) i = bit (w OR NOT (mask e)) i" by (auto simp: bit_simps)
  qed
  then show ?thesis by (simp only: next_cursor_def)
qed

text \<open>The hash a bucket index is taken from.\<close>

definition khash :: "('k \<Rightarrow> u64) \<Rightarrow> 'k \<Rightarrow> u64" where
  "khash hf k = ucast (ucast (hf k) :: u32)"

definition scan_mask :: "('k, 'v) dict \<Rightarrow> u64" where
  "scan_mask d = (if dictIsRehashing d \<and> ht_size (ht0 d) > ht_size (ht1 d) then sizemask (ht1 d) else sizemask (ht0 d))"

lemma khash_idx: "hash_idx hf k (2 ^ e - 1) = unat (khash hf k) mod 2 ^ e"
proof -
  have "(2 ^ e - 1 :: u64) = mask e" by (simp add: mask_eq_exp_minus_1)
  then show ?thesis by (simp only: hash_idx_def khash_def unat_and_mask)
qed

lemma take_bit_eq_iff_unat: "take_bit e (v :: u64) = take_bit e w \<longleftrightarrow> unat v mod 2 ^ e = unat w mod 2 ^ e"
  unfolding word_unat_eq_iff [of "take_bit e v"] unsigned_take_bit_eq by (simp only: take_bit_eq_mod)

lemma in_bucket:
  assumes "ht_ok hf h" "table h \<noteq> None" "sizemask h = 2 ^ e - 1" "x \<in> set (concat (slots h))"
  shows "x \<in> set (slots h ! (unat (khash hf (fst x)) mod 2 ^ e))"
proof -
  obtain b where b: "b \<in> set (slots h)" "x \<in> set b" using assms(4) by auto
  then obtain i where i: "i < length (slots h)" "x \<in> set (slots h ! i)" by (metis in_set_conv_nth)
  then have "hash_idx hf (fst x) (sizemask h) = i" by (rule ht_ok_home [OF assms(1,2)])
  then show ?thesis using i(2) unfolding assms(3) khash_idx by simp
qed

lemma bucket_in_entries: "i < length (slots h) \<Longrightarrow> set (slots h ! i) \<subseteq> set (concat (slots h))"
proof -
  assume "i < length (slots h)"
  then have "slots h ! i \<in> set (slots h)" by (rule nth_mem)
  then show ?thesis by auto
qed

lemma scan_pair_spec:
  assumes ok0: "ht_ok hf t0" "table t0 \<noteq> None" and ok1: "ht_ok hf t1" "table t1 \<noteq> None"
    and le: "ht_size t0 \<le> ht_size t1" and al: "v AND NOT (sizemask t0) = 0"
  shows "\<exists>e w es. 0 < e \<and> e \<le> 31 \<and> sizemask t0 = mask e \<and> scan_loop (slots t1) (sizemask t0) (sizemask t1) v = Some (w, es) \<and>
     take_bit e w = take_bit e v \<and> set es \<subseteq> set (concat (slots t1)) \<and>
     (\<forall>x \<in> set (concat (slots t1)). take_bit e (khash hf (fst x)) = take_bit e v \<longrightarrow> x \<in> set es)"
proof -
  obtain e0 where e0: "2 \<le> e0" "e0 \<le> 31" "ht_size t0 = 2 ^ e0" "length (slots t0) = 2 ^ e0" "sizemask t0 = 2 ^ e0 - 1"
    by (rule ht_okE [OF ok0])
  obtain e1 where e1: "2 \<le> e1" "e1 \<le> 31" "ht_size t1 = 2 ^ e1" "length (slots t1) = 2 ^ e1" "sizemask t1 = 2 ^ e1 - 1"
    by (rule ht_okE [OF ok1])
  have m: "sizemask t0 = mask e0" "sizemask t1 = mask e1" using e0(5) e1(5) by (simp_all add: mask_eq_exp_minus_1)
  have ee: "e0 \<le> e1" using le e0(3) e1(3) by simp
  have "v = v AND mask e0"
  proof (rule bit_word_eqI)
    fix i :: nat assume i: "i < LENGTH(64)"
    have "\<not> bit (v AND NOT (mask e0)) i" using al m(1) by simp
    then show "bit v i = bit (v AND mask e0) i" using i by (auto simp: bit_simps)
  qed
  then have "unat v = unat v mod 2 ^ e0" using unat_and_mask [of v e0] by simp
  then have v: "unat v < 2 ^ e0" by (metis mod_less_divisor zero_less_numeral zero_less_power)
  let ?k = "2 ^ (e1 - e0) :: nat"
  let ?es = "concat (map (\<lambda>i. slots t1 ! (unat v + i * 2 ^ e0)) [0..<?k])"
  obtain w where w: "scan_loop (slots t1) (mask e0) (mask e1) v = Some (w, ?es)" "unat w = unat v + 2 ^ e1"
    using scan_loop_spec [OF ee e1(2,4) v, of 0 v] by auto
  have k: "?k * 2 ^ e0 = 2 ^ e1" using ee by (simp add: power_add [symmetric])
  have "unat w mod 2 ^ e0 = unat v mod 2 ^ e0" unfolding w(2) k [symmetric] by simp
  then have tw: "take_bit e0 w = take_bit e0 v" by (simp only: take_bit_eq_iff_unat)
  have idx: "unat v + i * 2 ^ e0 < 2 ^ e1" if "i < ?k" for i
  proof -
    have "Suc i * 2 ^ e0 \<le> ?k * 2 ^ e0" using that by (intro mult_le_mono1) simp
    then show ?thesis using v k by simp
  qed
  have sub: "set ?es \<subseteq> set (concat (slots t1))"
  proof
    fix x assume "x \<in> set ?es"
    then obtain i where i: "i < ?k" "x \<in> set (slots t1 ! (unat v + i * 2 ^ e0))" by auto
    then have "unat v + i * 2 ^ e0 < length (slots t1)" using idx e1(4) by simp
    from bucket_in_entries [OF this] show "x \<in> set (concat (slots t1))" using i(2) by blast
  qed
  have cov: "x \<in> set ?es" if x: "x \<in> set (concat (slots t1))" "take_bit e0 (khash hf (fst x)) = take_bit e0 v" for x
  proof -
    let ?h = "unat (khash hf (fst x)) mod 2 ^ e1"
    have "?h mod 2 ^ e0 = unat (khash hf (fst x)) mod 2 ^ e0"
      using ee by (simp add: mod_mod_cancel le_imp_power_dvd)
    also have "\<dots> = unat v" using x(2) v unfolding take_bit_eq_iff_unat by simp
    finally have "?h = unat v + ?h div 2 ^ e0 * 2 ^ e0" using div_mult_mod_eq [of ?h "2 ^ e0"] by simp
    moreover have "?h div 2 ^ e0 < ?k"
    proof -
      have "?h < ?k * 2 ^ e0" unfolding k by simp
      then show ?thesis by (rule less_mult_imp_div_less)
    qed
    moreover have "x \<in> set (slots t1 ! ?h)" by (rule in_bucket [OF ok1 e1(5) x(1)])
    ultimately show ?thesis by (auto intro!: bexI [of _ "?h div 2 ^ e0"])
  qed
  show ?thesis
    using e0(1,2) m w(1) tw sub cov by (intro exI [of _ e0] exI [of _ w] exI [of _ ?es]) auto
qed

definition scan_aligned :: "('k, 'v) dict \<Rightarrow> u64 \<Rightarrow> bool" where
  "scan_aligned d v \<longleftrightarrow> (dictIsRehashing d \<longrightarrow> v AND NOT (scan_mask d) = 0)"

lemma dictScan_spec:
  assumes ok: "dict_ok hf d" and nz: "dictSize d \<noteq> 0" and al: "scan_aligned d v"
  shows "\<exists>e es. 0 < e \<and> e \<le> 31 \<and> scan_mask d = mask e \<and> dictScan d v = Some (next_cursor e v, es) \<and>
     set es \<subseteq> set (entries d) \<and>
     (\<forall>x \<in> set (entries d). take_bit e (khash hf (fst x)) = take_bit e v \<longrightarrow> x \<in> set es)"
proof -
  have o: "ht_ok hf (ht0 d)" "ht_ok hf (ht1 d)" "rehash_ok d" using ok by (simp_all only: dict_ok_def)
  have t: "table (ht0 d) \<noteq> None" using dictSize_pos_table [OF ok nz] .
  have bucket: "\<exists>b. rd (slots h) (unat (v AND mask e)) = Some b \<and> set b \<subseteq> set (concat (slots h)) \<and>
      (\<forall>x \<in> set (concat (slots h)). take_bit e (khash hf (fst x)) = take_bit e v \<longrightarrow> x \<in> set b)"
    if h: "ht_ok hf h" "table h \<noteq> None" "sizemask h = mask e" for h :: "('a, 'b) dictht" and e
  proof -
    obtain e' where e': "e' \<le> 31" "length (slots h) = 2 ^ e'" "sizemask h = 2 ^ e' - 1" by (rule ht_okE [OF h(1,2)])
    then have "mask e' = (mask e :: u64)" using h(3) by (simp add: mask_eq_exp_minus_1)
    then have mm: "unat (v AND mask e) = unat v mod 2 ^ e'" using unat_and_mask [of v e'] by simp
    then have i: "unat (v AND mask e) < length (slots h)" using e'(2) by simp
    have tb: "take_bit e x = take_bit e' x" for x :: u64 by (simp only: take_bit_eq_mask \<open>mask e' = mask e\<close>)
    have "x \<in> set (slots h ! unat (v AND mask e))"
      if "x \<in> set (concat (slots h))" "take_bit e (khash hf (fst x)) = take_bit e v" for x
      using in_bucket [OF h(1,2) e'(3) that(1)] that(2) mm unfolding tb take_bit_eq_iff_unat by simp
    then show ?thesis using i bucket_in_entries [OF i]
      by (intro exI [of _ "slots h ! unat (v AND mask e)"]) (auto simp del: set_concat)
  qed
  show ?thesis
  proof (cases "dictIsRehashing d")
    case False
    obtain e where e: "2 \<le> e" "e \<le> 31" "sizemask (ht0 d) = 2 ^ e - 1" by (rule ht_okE [OF o(1) t])
    then have m: "sizemask (ht0 d) = mask e" by (simp add: mask_eq_exp_minus_1)
    obtain b where b: "rd (slots (ht0 d)) (unat (v AND mask e)) = Some b" "set b \<subseteq> set (concat (slots (ht0 d)))"
      "\<forall>x \<in> set (concat (slots (ht0 d))). take_bit e (khash hf (fst x)) = take_bit e v \<longrightarrow> x \<in> set b"
      using bucket [OF o(1) t m] by blast
    have "slots (ht1 d) = []" using False o(3) by (simp add: rehash_ok_def)
    then have en: "entries d = concat (slots (ht0 d))" by (simp add: entries_def)
    have "dictScan d v = Some (next_cursor e v, b)" using False nz b(1) m by (simp add: dictScan_def next_cursor_def)
    then show ?thesis using e m b False unfolding en by (intro exI [of _ e] exI [of _ b]) (simp add: scan_mask_def)
  next
    case True
    then have t1: "table (ht1 d) \<noteq> None" using o(3) by (simp add: rehash_ok_def)
    define t0' t1' where "t0' = (if ht_size (ht0 d) > ht_size (ht1 d) then ht1 d else ht0 d)"
      and "t1' = (if ht_size (ht0 d) > ht_size (ht1 d) then ht0 d else ht1 d)"
    have h: "ht_ok hf t0'" "table t0' \<noteq> None" "ht_ok hf t1'" "table t1' \<noteq> None" "ht_size t0' \<le> ht_size t1'"
      using o t t1 by (simp_all add: t0'_def t1'_def)
    have sm: "scan_mask d = sizemask t0'" using True by (simp add: scan_mask_def t0'_def)
    have "v AND NOT (sizemask t0') = 0" using al True sm by (simp add: scan_aligned_def)
    from scan_pair_spec [OF h this] obtain e w es where e: "0 < e" "e \<le> 31" "sizemask t0' = mask e"
      "scan_loop (slots t1') (sizemask t0') (sizemask t1') v = Some (w, es)" "take_bit e w = take_bit e v"
      "set es \<subseteq> set (concat (slots t1'))"
      "\<forall>x \<in> set (concat (slots t1')). take_bit e (khash hf (fst x)) = take_bit e v \<longrightarrow> x \<in> set es" by blast
    obtain b where b: "rd (slots t0') (unat (v AND mask e)) = Some b" "set b \<subseteq> set (concat (slots t0'))"
      "\<forall>x \<in> set (concat (slots t0')). take_bit e (khash hf (fst x)) = take_bit e v \<longrightarrow> x \<in> set b"
      using bucket [OF h(1,2) e(3)] by blast
    have pr: "(if ht_size (ht0 d) > ht_size (ht1 d) then (ht1 d, ht0 d) else (ht0 d, ht1 d)) = (t0', t1')"
      by (simp add: t0'_def t1'_def)
    have "dictScan d v = Some (next_cursor e w, b @ es)"
      using True nz b(1) e(3,4) unfolding dictScan_def pr by (simp add: next_cursor_def)
    then have ds: "dictScan d v = Some (next_cursor e v, b @ es)" by (simp only: next_cursor_cong [OF e(5)])
    have en: "set (entries d) = set (concat (slots t0')) \<union> set (concat (slots t1'))"
      by (auto simp: entries_def t0'_def t1'_def)
    show ?thesis using e b ds sm unfolding en by (intro exI [of _ e] exI [of _ "b @ es"]) auto
  qed
qed

section \<open>A complete scan\<close>

primrec aligned_run :: "('k, 'v) dict list \<Rightarrow> u64 \<Rightarrow> bool" where
  "aligned_run [] v = True"
| "aligned_run (d # ds) v = (scan_aligned d v \<and>
     (case dictScan d v of None \<Rightarrow> True | Some (w, _) \<Rightarrow> aligned_run ds w))"

lemma scan_all_spec:
  assumes "\<forall>d \<in> set ds. dict_ok hf d" "aligned_run ds v"
  shows "\<exists>w es. scan_all ds v = Some (w, es) \<and> fst ` set es \<subseteq> (\<Union>d \<in> set ds. dom (dict_map d)) \<and>
     (\<forall>k. (\<forall>d \<in> set ds. dict_map d k \<noteq> None) \<longrightarrow> pos v \<le> pos (khash hf k) \<longrightarrow> (ds = [] \<longrightarrow> v \<noteq> 0) \<longrightarrow> w = 0 \<longrightarrow>
        k \<in> fst ` set es)"
  using assms
proof (induction ds arbitrary: v)
  case Nil
  then show ?case by simp
next
  case (Cons d ds)
  have ok: "dict_ok hf d" and al: "scan_aligned d v" using Cons.prems by simp_all
  have dm: "fst ` set xs \<subseteq> dom (dict_map d)" if "set xs \<subseteq> set (entries d)" for xs
    using that by (auto simp: dom_def dict_map_None)
  show ?case
  proof (cases "dictSize d = 0")
    case True
    then have sc: "dictScan d v = Some (0, [])" by (simp add: dictScan_def)
    then have "aligned_run ds 0" using Cons.prems(2) by simp
    then obtain w es where "scan_all ds 0 = Some (w, es)" "fst ` set es \<subseteq> (\<Union>d \<in> set ds. dom (dict_map d))"
      using Cons.IH [of 0] Cons.prems(1) by auto
    moreover have "dict_map d = Map.empty" by (rule dictSize_0_map [OF ok True])
    ultimately show ?thesis using sc by (intro exI [of _ w] exI [of _ es]) auto
  next
    case False
    obtain e es where e: "0 < e" "e \<le> 31" "dictScan d v = Some (next_cursor e v, es)" "set es \<subseteq> set (entries d)"
      "\<forall>x \<in> set (entries d). take_bit e (khash hf (fst x)) = take_bit e v \<longrightarrow> x \<in> set es"
      using dictScan_spec [OF ok False al] by blast
    let ?v = "next_cursor e v"
    have "aligned_run ds ?v" using Cons.prems(2) e(3) by simp
    then obtain w es' where r: "scan_all ds ?v = Some (w, es')" "fst ` set es' \<subseteq> (\<Union>d \<in> set ds. dom (dict_map d))"
      "\<forall>k. (\<forall>d \<in> set ds. dict_map d k \<noteq> None) \<longrightarrow> pos ?v \<le> pos (khash hf k) \<longrightarrow> (ds = [] \<longrightarrow> ?v \<noteq> 0) \<longrightarrow> w = 0 \<longrightarrow>
        k \<in> fst ` set es'"
      using Cons.IH [of ?v] Cons.prems(1) by auto
    have "k \<in> fst ` set (es @ es')"
      if k: "\<forall>d \<in> set (d # ds). dict_map d k \<noteq> None" "pos v \<le> pos (khash hf k)" "w = 0" for k
    proof (cases "take_bit e (khash hf k) = take_bit e v")
      case True
      obtain y where "dict_map d k = Some y" using k(1) by auto
      then have "(k, y) \<in> set (entries d)" using dict_map_iff [OF ok] by blast
      then have "(k, y) \<in> set es" using e(5) True by auto
      then show ?thesis by force
    next
      case False
      then have "\<not> (pos (khash hf k) < pos ?v \<or> ?v = 0)"
        using scan_step_covers [OF e(1), of "khash hf k" v] e(2) k(2) by auto
      then have "k \<in> fst ` set es'" using r(3) k by auto
      then show ?thesis by auto
    qed
    moreover have "fst ` set (es @ es') \<subseteq> (\<Union>d \<in> set (d # ds). dom (dict_map d))" using dm [OF e(4)] r(2) by auto
    ultimately show ?thesis using e(3) r(1) by (intro exI [of _ w] exI [of _ "es @ es'"]) auto
  qed
qed


text \<open>The size of the smaller table, which decides the next cursor.\<close>

definition scan_size :: "('k, 'v) dict \<Rightarrow> nat" where
  "scan_size d = (if dictIsRehashing d \<and> ht_size (ht0 d) > ht_size (ht1 d) then ht_size (ht1 d) else ht_size (ht0 d))"

lemma scan_size_exp:
  assumes ok: "dict_ok hf d" and nz: "dictSize d \<noteq> 0"
  shows "\<exists>e. 0 < e \<and> e \<le> 31 \<and> scan_mask d = mask e \<and> scan_size d = 2 ^ e"
proof -
  have o: "ht_ok hf (ht0 d)" "ht_ok hf (ht1 d)" "rehash_ok d" using ok by (simp_all only: dict_ok_def)
  define h where "h = (if dictIsRehashing d \<and> ht_size (ht0 d) > ht_size (ht1 d) then ht1 d else ht0 d)"
  have h: "ht_ok hf h" "table h \<noteq> None"
    using o dictSize_pos_table [OF ok nz] by (auto simp: h_def rehash_ok_def split: if_splits)
  obtain e where e: "2 \<le> e" "e \<le> 31" "ht_size h = 2 ^ e" "sizemask h = 2 ^ e - 1" by (rule ht_okE [OF h])
  moreover have "scan_mask d = sizemask h" "scan_size d = ht_size h" by (simp_all add: scan_mask_def scan_size_def h_def)
  ultimately show ?thesis by (intro exI [of _ e]) (simp add: mask_eq_exp_minus_1)
qed

lemma aligned_mono:
  assumes "e \<le> e'" "(v :: u64) AND NOT (mask e) = 0"
  shows "v AND NOT (mask e') = 0"
proof (rule bit_word_eqI)
  fix i :: nat assume i: "i < LENGTH(64)"
  have "\<not> bit (v AND NOT (mask e)) i" using assms(2) by simp
  then show "bit (v AND NOT (mask e')) i = bit 0 i" using i assms(1) by (auto simp: bit_simps)
qed

text \<open>A scan of a dictionary whose tables do not shrink is aligned at every call.\<close>

lemma growing_run_aligned:
  assumes "\<forall>d \<in> set ds. dict_ok hf d \<and> dictSize d \<noteq> 0 \<and> 2 ^ e \<le> scan_size d"
    "sorted_wrt (\<lambda>d d'. scan_size d \<le> scan_size d') ds" "v AND NOT (mask e) = 0"
  shows "aligned_run ds v"
  using assms
proof (induction ds arbitrary: v e)
  case (Cons d ds)
  then have ok: "dict_ok hf d" "dictSize d \<noteq> 0" by simp_all
  obtain e' where e': "0 < e'" "e' \<le> 31" "scan_mask d = mask e'" "scan_size d = 2 ^ e'" using scan_size_exp [OF ok] by blast
  have "2 ^ e \<le> scan_size d" using Cons.prems(1) by simp
  then have "e \<le> e'" using e'(4) by simp
  then have al: "scan_aligned d v" using aligned_mono [OF _ Cons.prems(3)] e'(3) by (simp add: scan_aligned_def)
  obtain e2 es where s: "0 < e2" "e2 \<le> 31" "scan_mask d = mask e2" "dictScan d v = Some (next_cursor e2 v, es)"
    using dictScan_spec [OF ok al] by blast
  have "next_cursor e2 v AND NOT (scan_mask d) = 0" unfolding s(3) using s(1,2) by (intro next_cursor_aligned) auto
  then have nv: "next_cursor e2 v AND NOT (mask e') = 0" by (simp only: e'(3))
  have "aligned_run ds (next_cursor e2 v)"
    using Cons.prems(1,2) e'(4) by (intro Cons.IH [OF _ _ nv]) auto
  then show ?case using al s(4) by simp
qed simp

lemma dictSize_key: "dict_ok hf d \<Longrightarrow> dict_map d k \<noteq> None \<Longrightarrow> dictSize d \<noteq> 0"
  using dictSize_0_map by fastforce

text \<open>The cursors of a scan of an unchanging dictionary.\<close>

lemma scan_const_cursor:
  assumes ok: "dict_ok hf d" and nz: "dictSize d \<noteq> 0" and e: "scan_size d = 2 ^ e" "scan_mask d = mask e" "0 < e" "e \<le> 31"
  shows "v AND NOT (mask e) = 0 \<Longrightarrow> pos v = j * 2 ^ (64 - e) \<Longrightarrow> j + n \<le> 2 ^ e \<Longrightarrow> 0 < n \<Longrightarrow>
     \<exists>w es. scan_all (replicate n d) v = Some (w, es) \<and> (if j + n = 2 ^ e then w = 0 else pos w = (j + n) * 2 ^ (64 - e))"
proof (induction n arbitrary: v j)
  case (Suc n)
  have "scan_aligned d v" using Suc.prems(1) e(2) by (simp add: scan_aligned_def)
  then obtain e2 es where s: "0 < e2" "e2 \<le> 31" "scan_mask d = mask e2" "dictScan d v = Some (next_cursor e2 v, es)"
    using dictScan_spec [OF ok nz] by blast
  have "e2 = e"
  proof (rule ccontr)
    assume "e2 \<noteq> e"
    moreover have b: "bit (mask e2 :: u64) i = bit (mask e :: u64) i" for i using s(3) e(2) by simp
    have "(i < e2) = (i < e)" if "i < 64" for i using b [of i] that by (simp add: bit_simps)
    from this [of e] this [of e2] have "(e < e2) = (e < e)" "(e2 < e2) = (e2 < e)" using e(4) s(2) by simp_all
    ultimately show False by auto
  qed
  note s = s [unfolded this]
  let ?v = "next_cursor e v"
  have av: "?v AND NOT (mask e) = 0" using e by (intro next_cursor_aligned) auto
  have pk: "(2::nat) ^ e * 2 ^ (64 - e) = 2 ^ 64" using e(4) by (simp add: power_add [symmetric])
  have pv: "pos ?v = ((j + 1) * 2 ^ (64 - e)) mod 2 ^ 64" using pos_next [of e v] e Suc.prems(2) by simp
  show ?case
  proof (cases n)
    case 0
    show ?thesis
    proof (cases "j + 1 = 2 ^ e")
      case True
      then have "pos ?v = 0" using pv pk by simp
      then have "revbits ?v = 0" by (simp add: pos_def unat_eq_0)
      then have "?v = 0" using revbits_revbits [of ?v] pos_0 by (metis pos_def revbits_revbits unat_eq_0)
      then show ?thesis using s(4) 0 True by simp
    next
      case False
      then have "j + 1 < 2 ^ e" using Suc.prems(3) by simp
      then have "(j + 1) * 2 ^ (64 - e) < 2 ^ e * 2 ^ (64 - e)" by (rule mult_strict_right_mono) simp
      then have "pos ?v = (j + 1) * 2 ^ (64 - e)" using pv unfolding pk by simp
      then show ?thesis using s(4) 0 False by simp
    qed
  next
    case (Suc m)
    then have "j + 1 < 2 ^ e" using Suc.prems(3) by simp
    then have "(j + 1) * 2 ^ (64 - e) < 2 ^ e * 2 ^ (64 - e)" by (rule mult_strict_right_mono) simp
    then have p: "pos ?v = (j + 1) * 2 ^ (64 - e)" using pv unfolding pk by simp
    have "\<exists>w es. scan_all (replicate n d) ?v = Some (w, es) \<and> (if (j + 1) + n = 2 ^ e then w = 0 else pos w = ((j + 1) + n) * 2 ^ (64 - e))"
      by (rule Suc.IH [OF av p]) (use Suc.prems(3) Suc in simp_all)
    then show ?thesis using s(4) by auto
  qed
qed simp

section \<open>Properties\<close>

text \<open>
  C6: The guarantee of SCAN. A client calls \<open>dictScan\<close> again and again with the cursor of the previous
  call, starting from 0; between two calls the dictionary may be modified in any way, including starting,
  advancing and finishing a rehash, as long as the smaller table never gets smaller. No call leaves the tables, and when the
  cursor is 0 again every key that was in the dictionary at all calls has been returned.
\<close>

theorem dictScan_complete:
  assumes "\<forall>d \<in> set ds. dict_ok hf d \<and> dict_map d k \<noteq> None" "sorted_wrt (\<lambda>d d'. scan_size d \<le> scan_size d') ds" "ds \<noteq> []"
  shows "\<exists>w es. scan_all ds 0 = Some (w, es) \<and> (w = 0 \<longrightarrow> k \<in> fst ` set es)"
proof -
  have nz: "\<forall>d \<in> set ds. dict_ok hf d \<and> dictSize d \<noteq> 0 \<and> 2 ^ 0 \<le> scan_size d"
  proof
    fix d assume "d \<in> set ds"
    then have d: "dict_ok hf d" "dict_map d k \<noteq> None" using assms(1) by auto
    then have "dictSize d \<noteq> 0" by (rule dictSize_key)
    moreover have "1 \<le> scan_size d" using scan_size_exp [OF d(1) calculation] by auto
    ultimately show "dict_ok hf d \<and> dictSize d \<noteq> 0 \<and> 2 ^ 0 \<le> scan_size d" using d(1) by simp
  qed
  have "aligned_run ds 0" by (rule growing_run_aligned [OF nz assms(2)]) simp
  from scan_all_spec [OF _ this, of hf] obtain w es where "scan_all ds 0 = Some (w, es)"
    "\<forall>k. (\<forall>d \<in> set ds. dict_map d k \<noteq> None) \<longrightarrow> pos 0 \<le> pos (khash hf k) \<longrightarrow> (ds = [] \<longrightarrow> (0::u64) \<noteq> 0) \<longrightarrow> w = 0 \<longrightarrow>
        k \<in> fst ` set es" using assms(1) by auto
  then show ?thesis using assms(1,3) pos_0 by auto
qed

text \<open>
  C20: A scan of a dictionary that does not change ends after as many calls as its smaller table has buckets, and
  returns exactly its keys.
\<close>

theorem dictScan_terminates:
  assumes "dict_ok hf d" "dictSize d \<noteq> 0"
  shows "\<exists>es. scan_all (replicate (scan_size d) d) 0 = Some (0, es) \<and> fst ` set es = dom (dict_map d)"
proof -
  obtain e where e: "0 < e" "e \<le> 31" "scan_mask d = mask e" "scan_size d = 2 ^ e" using scan_size_exp [OF assms] by blast
  obtain w es where c: "scan_all (replicate (scan_size d) d) 0 = Some (w, es)" "w = 0"
    using scan_const_cursor [OF assms e(4,3,1,2), of 0 0 "scan_size d"] pos_0 e(4) by auto
  have ne: "replicate (scan_size d) d \<noteq> []" using e(4) by simp
  have nz: "\<forall>x \<in> set (replicate (scan_size d) d). dict_ok hf x \<and> dictSize x \<noteq> 0 \<and> 2 ^ 0 \<le> scan_size x"
    using assms e(4) by simp
  have "aligned_run (replicate (scan_size d) d) 0"
    by (rule growing_run_aligned [OF nz]) (simp_all add: sorted_wrt_iff_nth_less)
  from scan_all_spec [OF _ this, of hf] obtain w' es' where s: "scan_all (replicate (scan_size d) d) 0 = Some (w', es')"
    "fst ` set es' \<subseteq> (\<Union>d \<in> set (replicate (scan_size d) d). dom (dict_map d))"
    "\<forall>k. (\<forall>d \<in> set (replicate (scan_size d) d). dict_map d k \<noteq> None) \<longrightarrow> pos 0 \<le> pos (khash hf k) \<longrightarrow>
        (replicate (scan_size d) d = [] \<longrightarrow> (0::u64) \<noteq> 0) \<longrightarrow> w' = 0 \<longrightarrow> k \<in> fst ` set es'" using assms(1) by auto
  have eq: "w' = 0" "es' = es" using s(1) c by simp_all
  have "dom (dict_map d) \<subseteq> fst ` set es" using s(3) ne pos_0 unfolding eq by auto
  moreover have "fst ` set es \<subseteq> dom (dict_map d)" using s(2) unfolding eq by auto
  ultimately show ?thesis using c by blast
qed


text \<open>A dictionary with one key of hash 4 that is about to shrink from 16 to 4 buckets.\<close>

definition scan_example :: "(int, int) dict" where
  "scan_example = \<lparr>ht0 = \<lparr>table = Some [[], [], [], [], [(4, 40)], [], [], [], [], [], [], [], [], [], [], []],
     ht_size = 16, sizemask = 15, used = 1\<rparr>, ht1 = dictReset, rehashidx = - 1, iterators = 0\<rparr>"

lemma scan_example_resized:
  "fst (dictResize True scan_example) =
     scan_example\<lparr>ht1 := \<lparr>table = Some [[], [], [], []], ht_size = 4, sizemask = 3, used = 0\<rparr>, rehashidx := 0\<rparr>"
proof -
  have "dictNextPower 4 = 4" unfolding dictNextPower_def by (subst dictNextPower_loop.simps) simp
  moreover have "calloc_slots 4 = [[], [], [], []]"
  proof -
    have "replicate 4 [] = [[], [], [], []]" by (simp add: numeral_eq_Suc)
    then show ?thesis by (simp add: calloc_slots_def)
  qed
  ultimately show ?thesis
    by (simp add: dictResize_def dictIsRehashing_def dictExpand_def Let_def scan_example_def)
qed

lemma revbits_exp: "i < 64 \<Longrightarrow> revbits (2 ^ i) = 2 ^ (63 - i)"
  by (rule bit_word_eqI) (auto simp: bit_revbits bit_exp_iff)

lemma revbits_or: "revbits (a OR b) = revbits a OR revbits b"
  by (rule bit_word_eqI) (simp add: bit_revbits bit_or_iff)

lemma revbits_values: "revbits 0 = 0" "revbits 1 = 0x8000000000000000" "revbits 2 = 0x4000000000000000"
    "revbits 3 = 0xC000000000000000"
proof -
  show z: "revbits 0 = 0" by (rule bit_word_eqI) (simp add: bit_revbits)
  show a: "revbits 1 = 0x8000000000000000" using revbits_exp [of 0] by simp
  show b: "revbits 2 = 0x4000000000000000" using revbits_exp [of 1] by simp
  show "revbits 3 = 0xC000000000000000" using revbits_or [of 1 2] unfolding a b by simp
qed

lemma next_cursor_values: "next_cursor 4 0 = 8" "next_cursor 2 0 = 2" "next_cursor 2 2 = 1" "next_cursor 2 1 = 3" "next_cursor 2 3 = 0"
proof -
  have nc: "next_cursor e v = revbits ((revbits v OR mask (64 - e)) + 1)" if "e \<le> 64" for e v
    using revbits_fill [OF that] by (simp add: next_cursor_def)
  have m: "mask 60 = (0x0FFFFFFFFFFFFFFF :: u64)" "mask 62 = (0x3FFFFFFFFFFFFFFF :: u64)" by (simp_all add: mask_eq_exp_minus_1)
  have r8: "revbits 0x1000000000000000 = 8" using revbits_exp [of 60] by simp
  have r: "revbits 0x8000000000000000 = 1" "revbits 0x4000000000000000 = 2" "revbits 0xC000000000000000 = 3"
    using revbits_revbits [of 1] revbits_revbits [of 2] revbits_revbits [of 3] by (simp_all only: revbits_values)
  have z: "(0x10000000000000000 :: u64) = 0" by (simp add: word_unat_eq_iff)
  show "next_cursor 4 0 = 8" "next_cursor 2 0 = 2" "next_cursor 2 2 = 1" "next_cursor 2 1 = 3" "next_cursor 2 3 = 0"
    by (simp_all add: nc m revbits_values r r8 z)
qed

lemma scan_example_first: "dictScan scan_example 0 = Some (8, [])"
  using next_cursor_values(1)
  by (simp add: dictScan_def scan_example_def dictSize_def dictIsRehashing_def slots_def next_cursor_def mask_eq_exp_minus_1 dictReset_def)

lemma scan_example_loop:
  assumes "v \<in> {8, 2, 1, 3}"
  shows "\<exists>w. scan_loop (slots (ht0 scan_example)) 3 15 v = Some (w, []) \<and> take_bit 2 w = take_bit 2 v"
proof -
  have "slots (ht0 scan_example) = [[], [], [], [], [(4, 40)], [], [], [], [], [], [], [], [], [], [], []]"
    by (simp add: scan_example_def slots_def)
  then show ?thesis using assms
    by (elim insertE emptyE) (simp_all add: scan_loop.simps rd_def take_bit_eq_mod)
qed


lemma scan_example_resized_scan:
  assumes "v \<in> {8, 2, 1, 3}"
  shows "dictScan (fst (dictResize True scan_example)) v = Some (next_cursor 2 v, [])"
proof -
  let ?d = "scan_example\<lparr>ht1 := \<lparr>table = Some [[], [], [], []], ht_size = 4, sizemask = 3, used = 0\<rparr>, rehashidx := 0\<rparr>"
  obtain w where w: "scan_loop (slots (ht0 scan_example)) 3 15 v = Some (w, [])" "take_bit 2 w = take_bit 2 v"
    using scan_example_loop [OF assms] by blast
  have m: "mask 2 = (3 :: u64)" by (simp add: mask_eq_exp_minus_1)
  have "dictSize ?d = 1" "dictIsRehashing ?d" "sizemask (ht0 ?d) = 15" "ht_size (ht0 ?d) = 16"
    by (simp_all add: dictSize_def dictIsRehashing_def scan_example_def)
  moreover have "rd [[], [], [], [] :: (int \<times> int) list] (unat (v AND 3)) = Some []" using assms by (elim insertE emptyE) simp_all
  ultimately have "dictScan ?d v = Some (next_cursor 2 w, [])" using w(1)
    by (simp add: dictScan_def Let_def next_cursor_def m)
  then show ?thesis unfolding scan_example_resized next_cursor_cong [OF w(2)] .
qed

lemma scan_example_ok: "dict_ok (\<lambda>_. 4) scan_example" "dict_map scan_example = [4 \<mapsto> 40]"
proof -
  have h: "hash_idx (\<lambda>_. 4) k 15 = 4" for k :: int by (simp add: hash_idx_def)
  have "ht_ok (\<lambda>_. 4) (ht0 scan_example)" unfolding ht_ok_def scan_example_def
    by (auto simp: slots_def h less_Suc_eq numeral_eq_Suc intro!: exI [of _ 4])
  moreover have "ht_ok (\<lambda>_. 4) (ht1 scan_example)" by (simp add: scan_example_def ht_ok_def) (simp add: dictReset_def)
  ultimately show "dict_ok (\<lambda>_. 4) scan_example"
    by (simp add: dict_ok_def rehash_ok_def dictIsRehashing_def entries_def) (simp add: scan_example_def slots_def dictReset_def)
  show "dict_map scan_example = [4 \<mapsto> 40]" by (simp add: dict_map_def entries_def scan_example_def slots_def dictReset_def)
qed

text \<open>
  C17: The guarantee is lost when the table shrinks. In \<^const>\<open>scan_example\<close>, with 16 buckets and one key of
  hash 4, a first call returns the cursor 8; then \<open>dictResize\<close> starts shrinking it to 4 buckets. The
  loop over the expansions of cursor 8 visits the buckets 8 and 12 of the larger table, counting upwards instead of in
  reversed bit order, so bucket 4 is never visited: the scan completes without having returned a key that was present at every call.
\<close>

theorem dictScan_misses_key:
  "let d = scan_example; d' = fst (dictResize True d) in
     dict_ok (\<lambda>_. 4) d \<and> dict_ok (\<lambda>_. 4) d' \<and> dict_map d 4 = Some 40 \<and> dict_map d' 4 = Some 40 \<and>
     scan_all [d, d', d', d', d'] 0 = Some (0, [])"
proof -
  let ?d' = "fst (dictResize True scan_example)"
  have c8: "next_cursor 2 8 = next_cursor 2 0" by (rule next_cursor_cong) (simp add: take_bit_eq_mod)
  have "dict_ok (\<lambda>_. 4) ?d' \<and> dict_map ?d' = dict_map scan_example"
    using dictResize_spec [OF scan_example_ok(1), of True] by auto
  moreover have "scan_all [scan_example, ?d', ?d', ?d', ?d'] 0 = Some (0, [])"
    by (simp add: scan_example_first scan_example_resized_scan c8 next_cursor_values)
  ultimately show ?thesis using scan_example_ok by (simp add: Let_def)
qed

theorem dictScan_complete_witness:
  "\<exists>w es. scan_all [dict_example, dict_example, dict_example, dict_example] 0 = Some (w, es) \<and> (w = 0 \<longrightarrow> 5 \<in> fst ` set es)"
  by (rule dictScan_complete [where hf = "\<lambda>_. 1"]) (simp_all add: dict_example_ok dict_example_map)

theorem dictScan_terminates_witness:
  "\<exists>es. scan_all (replicate 4 dict_example) 0 = Some (0, es) \<and> fst ` set es = {5}"
proof -
  have "dictSize dict_example \<noteq> 0" "scan_size dict_example = 4" by (simp_all add: dictSize_def scan_size_def dict_example_def)
  then show ?thesis using dictScan_terminates [OF dict_example_ok] by (simp add: dict_example_map)
qed

end
