(* ===== verification/Dict_Iter.thy ===== *)
theory Dict_Iter
  imports Dict_Map
begin

text \<open>
  The iterator of dict.c, the random sampling routines, and what they return. A pointer to an entry is the
  rest of its chain from that entry on, so the NULL pointer is the empty chain and \<open>de->next\<close> is the tail. The
  fingerprint that guards an unsafe iterator against misuse is a hash of table addresses; it is the
  parameter \<open>fp\<close>.
\<close>

section \<open>Model\<close>

record ('k, 'v) dictIterator =
  it_index :: int
  it_table :: bool
  it_safe :: bool
  it_entry :: "('k \<times> 'v) list"
  it_nextEntry :: "('k \<times> 'v) list"
  it_fingerprint :: u64

definition dictGetIterator :: "u64 \<Rightarrow> ('k, 'v) dictIterator" where
  "dictGetIterator garb = \<lparr>it_index = - 1, it_table = False, it_safe = False, it_entry = [], it_nextEntry = [],
     it_fingerprint = garb\<rparr>"

definition dictGetSafeIterator :: "u64 \<Rightarrow> ('k, 'v) dictIterator" where
  "dictGetSafeIterator garb = (dictGetIterator garb)\<lparr>it_safe := True\<rparr>"

definition it_ht :: "bool \<Rightarrow> ('k, 'v) dict \<Rightarrow> ('k, 'v) dictht" where
  "it_ht t d = (if t then ht1 d else ht0 d)"

text \<open>The first call registers a safe iterator, or takes the fingerprint.\<close>

definition it_start ::
  "(('k, 'v) dict \<Rightarrow> u64) \<Rightarrow> ('k, 'v) dict \<Rightarrow> ('k, 'v) dictIterator \<Rightarrow> ('k, 'v) dict \<times> ('k, 'v) dictIterator" where
  "it_start fp d it =
     (if it_index it = - 1 \<and> \<not> it_table it
      then (if it_safe it then (d\<lparr>iterators := iterators d + 1\<rparr>, it) else (d, it\<lparr>it_fingerprint := fp d\<rparr>))
      else (d, it))"

text \<open>
  The part of the loop body that moves to the next bucket: \<^term>\<open>None\<close> is an access outside the table,
  \<open>Some (Inl \<dots>)\<close> the \<open>break\<close>.
\<close>

definition next_bucket ::
  "(('k, 'v) dict \<Rightarrow> u64) \<Rightarrow> ('k, 'v) dict \<Rightarrow> ('k, 'v) dictIterator \<Rightarrow>
     (('k, 'v) dict \<times> ('k, 'v) dictIterator + ('k, 'v) dict \<times> ('k, 'v) dictIterator) option" where
  "next_bucket fp d it = (
     let (d, it) = it_start fp d it;
         it = it\<lparr>it_index := it_index it + 1\<rparr>
     in if it_index it \<ge> int (ht_size (it_ht (it_table it) d)) then
          (if dictIsRehashing d \<and> \<not> it_table it then do {
             e \<leftarrow> rd (slots (ht1 d)) 0;
             Some (Inr (d, it\<lparr>it_table := True, it_index := 0, it_entry := e\<rparr>))
           } else Some (Inl (d, it)))
        else if it_index it < 0 then None
        else do {
          e \<leftarrow> rd (slots (it_ht (it_table it) d)) (nat (it_index it));
          Some (Inr (d, it\<lparr>it_entry := e\<rparr>))
        })"

lemma it_start_facts:
  assumes "it_start fp d it = (d1, it1)"
  shows "it_index it1 = it_index it" "it_table it1 = it_table it" "it_entry it1 = it_entry it"
    "it_nextEntry it1 = it_nextEntry it" "it_safe it1 = it_safe it"
    "ht0 d1 = ht0 d" "ht1 d1 = ht1 d" "rehashidx d1 = rehashidx d" "it_ht t d1 = it_ht t d" "dictIsRehashing d1 = dictIsRehashing d"
  using assms by (auto simp: it_start_def it_ht_def dictIsRehashing_def split: if_splits)

lemma next_bucket_progress:
  assumes "next_bucket fp d it = Some (Inr (d', it'))"
  shows "(\<not> it_table it \<and> it_table it') \<or>
    (it_table it' = it_table it \<and> it_index it' = it_index it + 1 \<and> 0 \<le> it_index it' \<and>
     it_index it' < int (ht_size (it_ht (it_table it) d)) \<and> it_ht (it_table it) d' = it_ht (it_table it) d)"
proof -
  obtain d1 it1 where st: "it_start fp d it = (d1, it1)" by (cases "it_start fp d it")
  note f = it_start_facts [OF st]
  from assms f show ?thesis unfolding next_bucket_def Let_def st case_prod_conv
    by (clarsimp simp: Option.bind_eq_Some_conv split: if_splits)
qed

function dictNext ::
  "(('k, 'v) dict \<Rightarrow> u64) \<Rightarrow> ('k, 'v) dict \<Rightarrow> ('k, 'v) dictIterator \<Rightarrow>
     (('k, 'v) dict \<times> ('k, 'v) dictIterator \<times> ('k \<times> 'v) option) option" where
  "dictNext fp d it = do {
     r \<leftarrow> (if it_entry it = [] then next_bucket fp d it
          else Some (Inr (d, it\<lparr>it_entry := it_nextEntry it\<rparr>)));
     case r of
       Inl (d, it) \<Rightarrow> Some (d, it, None)
     | Inr (d, it) \<Rightarrow>
         (case it_entry it of
            [] \<Rightarrow> dictNext fp d it
          | e # rest \<Rightarrow> Some (d, it\<lparr>it_nextEntry := rest\<rparr>, Some e))
   }"
  by pat_completeness auto
termination
proof (relation "inv_image (less_than <*lex*> less_than <*lex*> less_than)
    (\<lambda>(fp, d, it). (if it_table it then 0 else 1,
        if it_index it < - 1 then Suc (ht_size (it_ht (it_table it) d)) else nat (int (ht_size (it_ht (it_table it) d)) - it_index it),
        length (it_entry it)))", goal_cases)
  case (2 fp d it r x dd ii)
  then show ?case using next_bucket_progress [of fp d it dd ii] by (auto split: if_splits)
qed auto

declare dictNext.simps [simp del]

definition dictReleaseIterator ::
  "(('k, 'v) dict \<Rightarrow> u64) \<Rightarrow> ('k, 'v) dict \<Rightarrow> ('k, 'v) dictIterator \<Rightarrow> ('k, 'v) dict option" where
  "dictReleaseIterator fp d it =
     (if \<not> (it_index it = - 1 \<and> \<not> it_table it)
      then (if it_safe it then Some (d\<lparr>iterators := iterators d - 1\<rparr>)
            else if it_fingerprint it = fp d then Some d else None)
      else Some d)"

text \<open>A client that iterates until NULL, collecting what it gets (at most \<open>n\<close> calls).\<close>

primrec iterate ::
  "(('k, 'v) dict \<Rightarrow> u64) \<Rightarrow> nat \<Rightarrow> ('k, 'v) dict \<Rightarrow> ('k, 'v) dictIterator \<Rightarrow>
     (('k, 'v) dict \<times> ('k, 'v) dictIterator \<times> ('k \<times> 'v) list) option" where
  "iterate fp 0 d it = None"
| "iterate fp (Suc n) d it = do {
     (d, it, e) \<leftarrow> dictNext fp d it;
     case e of
       None \<Rightarrow> Some (d, it, [])
     | Some e \<Rightarrow> do { (d, it, es) \<leftarrow> iterate fp n d it; Some (d, it, e # es) }
   }"

text \<open>
  \<open>random()\<close> is a stream \<open>rnd\<close> of numbers with a position \<open>n\<close> that each call advances; the bucket index is a 32 bit
  \<open>unsigned int\<close>. The two loops that look for a non empty bucket may run forever.
\<close>

partial_function (option) random_bucket_rehash ::
  "(nat \<Rightarrow> nat) \<Rightarrow> nat \<Rightarrow> ('k, 'v) dict \<Rightarrow> (nat \<times> ('k \<times> 'v) list) option" where
  "random_bucket_rehash rnd n d = do {
     let r = nat (rehashidx d);
     let h = (r + rnd n mod (ht_size (ht0 d) + ht_size (ht1 d) - r)) mod 2 ^ 32;
     he \<leftarrow> (if h \<ge> ht_size (ht0 d) then rd (slots (ht1 d)) (h - ht_size (ht0 d)) else rd (slots (ht0 d)) h);
     if he = [] then random_bucket_rehash rnd (n + 1) d else Some (n + 1, he)
   }"

partial_function (option) random_bucket ::
  "(nat \<Rightarrow> nat) \<Rightarrow> nat \<Rightarrow> ('k, 'v) dict \<Rightarrow> (nat \<times> ('k \<times> 'v) list) option" where
  "random_bucket rnd n d = do {
     he \<leftarrow> rd (slots (ht0 d)) (unat (of_nat (rnd n) AND sizemask (ht0 d)) mod 2 ^ 32);
     if he = [] then random_bucket rnd (n + 1) d else Some (n + 1, he)
   }"

definition dictGetRandomKey ::
  "('k \<Rightarrow> u64) \<Rightarrow> (nat \<Rightarrow> nat) \<Rightarrow> ('k, 'v) dict \<Rightarrow> (('k, 'v) dict \<times> ('k \<times> 'v) option) option" where
  "dictGetRandomKey hf rnd d =
     (if dictSize d = 0 then Some (d, None)
      else do {
        d \<leftarrow> (if dictIsRehashing d then dictRehashStep hf d else Some d);
        (n, he) \<leftarrow> (if dictIsRehashing d then random_bucket_rehash rnd 0 d else random_bucket rnd 0 d);
        let listlen = length he;
        e \<leftarrow> rd he (rnd n mod listlen);
        Some (d, Some e)
      })"

section \<open>The iterator returns every entry once\<close>

text \<open>What is still to come.\<close>

definition it_rest :: "('k, 'v) dict \<Rightarrow> ('k, 'v) dictIterator \<Rightarrow> ('k \<times> 'v) list" where
  "it_rest d it = (if it_entry it = [] then [] else it_nextEntry it) @
     concat (drop (nat (it_index it + 1)) (slots (it_ht (it_table it) d))) @
     (if it_table it then [] else concat (slots (ht1 d)))"

definition it_ok :: "('k, 'v) dict \<Rightarrow> ('k, 'v) dictIterator \<Rightarrow> bool" where
  "it_ok d it \<longleftrightarrow> - 1 \<le> it_index it \<and> (it_table it \<longrightarrow> dictIsRehashing d \<and> 0 \<le> it_index it)"

definition same_tables :: "('k, 'v) dict \<Rightarrow> ('k, 'v) dict \<Rightarrow> bool" where
  "same_tables d d' \<longleftrightarrow> ht0 d' = ht0 d \<and> ht1 d' = ht1 d \<and> rehashidx d' = rehashidx d"

lemma same_tables_dict_ok: "same_tables d d' \<Longrightarrow> dict_ok hf d \<Longrightarrow> dict_ok hf d'"
  by (simp add: same_tables_def dict_ok_def rehash_ok_def dictIsRehashing_def entries_def)

lemma next_bucket_spec:
  assumes ok: "dict_ok hf d" and it: "it_ok d it" and e: "it_entry it = []"
  shows "\<exists>d' it' r. next_bucket fp d it = Some r \<and> same_tables d d' \<and>
     (r = Inl (d', it') \<and> it_rest d it = [] \<or>
      r = Inr (d', it') \<and> it_ok d' it' \<and> it_rest d it = it_entry it' @ it_rest d' (it'\<lparr>it_entry := []\<rparr>) \<and>
      it_safe it' = it_safe it)"
proof -
  have o: "ht_ok hf (ht0 d)" "ht_ok hf (ht1 d)" "rehash_ok d" using ok by (simp_all only: dict_ok_def)
  have h: "length (slots (it_ht t d)) = ht_size (it_ht t d)" for t
    using ht_ok_size [OF o(1)] ht_ok_size [OF o(2)] by (simp add: it_ht_def)
  obtain d1 it1 where s1: "it_start fp d it = (d1, it1)" by (cases "it_start fp d it")
  note f = it_start_facts [OF s1]
  have st: "same_tables d d1" using f by (simp add: same_tables_def)
  note i1 = f(1-5) and sl = f(7,9,10)
  let ?it = "it1\<lparr>it_index := it_index it1 + 1\<rparr>"
  have un: "next_bucket fp d it =
     (if it_index ?it \<ge> int (ht_size (it_ht (it_table ?it) d1)) then
          (if dictIsRehashing d1 \<and> \<not> it_table ?it then do {
             e \<leftarrow> rd (slots (ht1 d1)) 0;
             Some (Inr (d1, ?it\<lparr>it_table := True, it_index := 0, it_entry := e\<rparr>))
           } else Some (Inl (d1, ?it)))
        else if it_index ?it < 0 then None
        else do {
          e \<leftarrow> rd (slots (it_ht (it_table ?it) d1)) (nat (it_index ?it));
          Some (Inr (d1, ?it\<lparr>it_entry := e\<rparr>))
        })"
    unfolding next_bucket_def s1 by (simp only: Let_def case_prod_conv)
  have ge: "0 \<le> it_index it + 1" using it by (simp add: it_ok_def)
  show ?thesis
  proof (cases "it_index it + 1 \<ge> int (ht_size (it_ht (it_table it) d))")
    case big: True
    then have dn: "drop (nat (it_index it + 1)) (slots (it_ht (it_table it) d)) = []" using h by simp
    show ?thesis
    proof (cases "dictIsRehashing d \<and> \<not> it_table it")
      case True
      then have t1: "table (ht1 d) \<noteq> None" using o(3) by (simp add: rehash_ok_def)
      obtain b bs where b: "slots (ht1 d) = b # bs"
      proof (cases "slots (ht1 d)")
        case Nil then show ?thesis using ht_ok_idx [OF o(2) t1] by (metis less_zeroE list.size(3))
      qed
      let ?it' = "?it\<lparr>it_table := True, it_index := 0, it_entry := b\<rparr>"
      have "next_bucket fp d it = Some (Inr (d1, ?it'))" unfolding un using big True b i1 sl by simp
      moreover have "it_rest d it = it_entry ?it' @ it_rest d1 (?it'\<lparr>it_entry := []\<rparr>)"
        using dn e True b by (simp add: it_rest_def sl it_ht_def)
      moreover have "it_ok d1 ?it'" using True sl by (simp add: it_ok_def)
      ultimately show ?thesis using st i1 by auto
    next
      case False
      then have "next_bucket fp d it = Some (Inl (d1, ?it))" unfolding un using big i1 sl by auto
      moreover have "it_rest d it = []"
      proof (cases "it_table it")
        case True then show ?thesis using dn e by (simp add: it_rest_def)
      next
        case F: False
        then have "slots (ht1 d) = []" using False o(3) by (simp add: rehash_ok_def)
        then show ?thesis using dn e F by (simp add: it_rest_def)
      qed
      ultimately show ?thesis using st by blast
    qed
  next
    case small: False
    let ?n = "nat (it_index it + 1)" and ?t = "slots (it_ht (it_table it) d)"
    have n: "?n < length ?t" using small ge h by simp
    let ?it' = "?it\<lparr>it_entry := ?t ! ?n\<rparr>"
    have "next_bucket fp d it = Some (Inr (d1, ?it'))" unfolding un using small ge n i1 sl by simp
    moreover have "it_rest d it = it_entry ?it' @ it_rest d1 (?it'\<lparr>it_entry := []\<rparr>)"
      using e ge by (simp add: it_rest_def sl i1 Cons_nth_drop_Suc [OF n, symmetric] nat_add_distrib)
        (simp add: nat_add_distrib Suc_nat_eq_nat_zadd1)
    moreover have "it_ok d1 ?it'" using it sl i1 by (simp add: it_ok_def)
    ultimately show ?thesis using st i1 by auto
  qed
qed

lemma same_tables_trans: "same_tables d d' \<Longrightarrow> same_tables d' d'' \<Longrightarrow> same_tables d d''"
  by (simp add: same_tables_def)

lemma same_tables_entries: "same_tables d d' \<Longrightarrow> entries d' = entries d"
  by (simp add: same_tables_def entries_def)

definition it_left :: "('k, 'v) dict \<Rightarrow> ('k, 'v) dictIterator \<Rightarrow> nat" where
  "it_left d it = 2 * (nat (int (ht_size (it_ht (it_table it) d)) - it_index it) + (if it_table it then 0 else Suc (ht_size (ht1 d)))) +
     (if it_entry it = [] then 0 else 1)"

lemma next_bucket_left:
  assumes "next_bucket fp d it = Some (Inr (d', it'))" "same_tables d d'" "it_ok d it" "it_ok d' it'" "it_entry it = []"
  shows "it_left d' it' < it_left d it"
  using next_bucket_progress [OF assms(1)] assms(2-5)
  by (auto simp: it_left_def it_ok_def same_tables_def it_ht_def split: if_splits)

lemma dictNext_spec:
  assumes "dict_ok hf d" "it_ok d it"
  shows "case it_rest d it of
      [] \<Rightarrow> \<exists>d' it'. dictNext fp d it = Some (d', it', None) \<and> same_tables d d'
    | e # es \<Rightarrow> \<exists>d' it'. dictNext fp d it = Some (d', it', Some e) \<and> same_tables d d' \<and> it_ok d' it' \<and> it_rest d' it' = es"
  using assms
proof (induction "it_left d it" arbitrary: d it rule: less_induct)
  case less
  show ?case
  proof (cases "it_entry it = []")
    case False
    let ?it = "it\<lparr>it_entry := it_nextEntry it\<rparr>"
    show ?thesis
    proof (cases "it_nextEntry it")
      case Nil
      then have "it_left d ?it < it_left d it" using False by (simp add: it_left_def)
      moreover have "it_ok d ?it" using less.prems(2) by (simp add: it_ok_def)
      moreover have "dictNext fp d it = dictNext fp d ?it" using False Nil by (subst dictNext.simps) simp
      moreover have "it_rest d ?it = it_rest d it" using False Nil by (simp add: it_rest_def)
      ultimately show ?thesis using less.hyps [of d ?it] less.prems(1) by (auto split: list.splits)
    next
      case (Cons e es)
      then have "dictNext fp d it = Some (d, ?it\<lparr>it_nextEntry := es\<rparr>, Some e)" using False by (subst dictNext.simps) simp
      moreover have "it_rest d it = e # it_rest d (?it\<lparr>it_nextEntry := es\<rparr>)" using False Cons by (simp add: it_rest_def)
      moreover have "it_ok d (?it\<lparr>it_nextEntry := es\<rparr>)" using less.prems(2) by (simp add: it_ok_def)
      ultimately show ?thesis by (simp add: same_tables_def)
    qed
  next
    case e: True
    from next_bucket_spec [OF less.prems e, of fp] obtain d' it' r where
      r: "next_bucket fp d it = Some r" "same_tables d d'"
      "r = Inl (d', it') \<and> it_rest d it = [] \<or>
       r = Inr (d', it') \<and> it_ok d' it' \<and> it_rest d it = it_entry it' @ it_rest d' (it'\<lparr>it_entry := []\<rparr>) \<and>
       it_safe it' = it_safe it" by blast
    from r(3) show ?thesis
    proof (elim disjE conjE)
      assume "r = Inl (d', it')" "it_rest d it = []"
      then show ?thesis using r(1,2) e by (subst dictNext.simps) simp
    next
      assume i: "r = Inr (d', it')" "it_ok d' it'" "it_rest d it = it_entry it' @ it_rest d' (it'\<lparr>it_entry := []\<rparr>)"
      have ok': "dict_ok hf d'" by (rule same_tables_dict_ok [OF r(2) less.prems(1)])
      show ?thesis
      proof (cases "it_entry it'")
        case Nil
        have nb: "next_bucket fp d it = Some (Inr (d', it'))" using r(1) i(1) by simp
        have lt: "it_left d' it' < it_left d it" by (rule next_bucket_left [OF nb r(2) less.prems(2) i(2) e])
        have "dictNext fp d it = dictNext fp d' it'" using e nb Nil by (subst dictNext.simps) simp
        moreover have "it_rest d it = it_rest d' it'" using i(3) Nil by (simp add: it_rest_def)
        ultimately show ?thesis using less.hyps [OF lt ok' i(2)] same_tables_trans [OF r(2)]
          by (auto split: list.splits)
      next
        case (Cons x es)
        then have "dictNext fp d it = Some (d', it'\<lparr>it_nextEntry := es\<rparr>, Some x)" using e r(1) i(1) by (subst dictNext.simps) simp
        moreover have "it_rest d it = x # it_rest d' (it'\<lparr>it_nextEntry := es\<rparr>)" using i(3) Cons by (simp add: it_rest_def)
        moreover have "it_ok d' (it'\<lparr>it_nextEntry := es\<rparr>)" using i(2) by (simp add: it_ok_def)
        ultimately show ?thesis using r(2) by auto
      qed
    qed
  qed
qed

lemma iterate_spec:
  "dict_ok hf d \<Longrightarrow> it_ok d it \<Longrightarrow> length (it_rest d it) < n \<Longrightarrow>
     \<exists>d' it'. iterate fp n d it = Some (d', it', it_rest d it) \<and> same_tables d d'"
proof (induction n arbitrary: d it)
  case (Suc n)
  show ?case
  proof (cases "it_rest d it")
    case Nil
    then show ?thesis using dictNext_spec [OF Suc.prems(1,2), of fp] by auto
  next
    case (Cons e es)
    then obtain d' it' where s: "dictNext fp d it = Some (d', it', Some e)" "same_tables d d'" "it_ok d' it'" "it_rest d' it' = es"
      using dictNext_spec [OF Suc.prems(1,2), of fp] by auto
    have "length (it_rest d' it') < n" using Suc.prems(3) Cons s(4) by simp
    from Suc.IH [OF same_tables_dict_ok [OF s(2) Suc.prems(1)] s(3) this] show ?thesis
      using s Cons same_tables_trans [OF s(2)] by auto
  qed
qed simp

lemma it_rest_start: "dict_ok hf d \<Longrightarrow> it_entry it = [] \<Longrightarrow> it_index it = - 1 \<Longrightarrow> \<not> it_table it \<Longrightarrow> it_rest d it = entries d"
  by (simp add: it_rest_def it_ht_def entries_def)

section \<open>Property of the iterator\<close>

text \<open>
  C21: Iterating over an unmodified dictionary, in any stage of rehashing, with a safe or an
  unsafe iterator, returns every entry exactly once, from the old table and then from the new one, and then
  NULL; no access leaves the tables.
\<close>

theorem dictNext_enumerates:
  assumes "dict_ok hf d"
  shows "\<exists>d' it'. iterate fp (dictSize d + 1) d ((dictGetIterator g)\<lparr>it_safe := s\<rparr>) = Some (d', it', entries d) \<and>
     dict_ok hf d' \<and> dict_map d' = dict_map d"
proof -
  let ?it = "(dictGetIterator g)\<lparr>it_safe := s\<rparr> :: ('a, 'b) dictIterator"
  have r: "it_rest d ?it = entries d" by (rule it_rest_start [OF assms]) (simp_all add: dictGetIterator_def)
  have "it_ok d ?it" by (simp add: it_ok_def dictGetIterator_def)
  moreover have "length (it_rest d ?it) < dictSize d + 1" unfolding r using size_entries [OF assms] by simp
  ultimately obtain d' it' where i: "iterate fp (dictSize d + 1) d ?it = Some (d', it', entries d)" "same_tables d d'"
    using iterate_spec [OF assms, of ?it "dictSize d + 1" fp] unfolding r by blast
  moreover have "dict_map d' = dict_map d" using same_tables_entries [OF i(2)] by (simp add: dict_map_def)
  ultimately show ?thesis using same_tables_dict_ok [OF i(2) assms] by blast
qed

theorem dictNext_enumerates_witness:
  "\<exists>d' it'. iterate (\<lambda>_. 0) 2 dict_example ((dictGetIterator 0)\<lparr>it_safe := True\<rparr>) = Some (d', it', [(5, 50)]) \<and>
     dict_ok (\<lambda>_. 1) d' \<and> dict_map d' = [5 \<mapsto> 50]"
proof -
  have a: "dictSize dict_example + 1 = 2" "entries dict_example = [(5, 50)]"
    by (simp_all add: dictSize_def entries_def dict_example_def slots_def)
  show ?thesis using dictNext_enumerates [OF dict_example_ok, where fp = "\<lambda>_. 0" and g = 0 and s = True]
    unfolding dict_example_map a by blast
qed

section \<open>Random sampling\<close>

lemma random_loop:
  assumes "\<And>n. f n = (if g n = [] then f (n + 1) else Some (n + 1, g n))" "g j \<noteq> []" "n \<le> j"
  shows "\<exists>m. f n = Some (Suc m, g m) \<and> g m \<noteq> []"
  using assms(3)
proof (induction "j - n" arbitrary: n)
  case 0
  then have "n = j" by simp
  then show ?case using assms(1) [of j] assms(2) by auto
next
  case (Suc k)
  show ?case
  proof (cases "g n = []")
    case True
    then have "f n = f (n + 1)" using assms(1) [of n] by simp
    then show ?thesis using Suc.hyps(1) [of "n + 1"] Suc.hyps(2) Suc.prems by simp
  next
    case False
    then show ?thesis using assms(1) [of n] by auto
  qed
qed

definition fair :: "(nat \<Rightarrow> nat) \<Rightarrow> bool" where
  "fair rnd \<longleftrightarrow> (\<forall>m x. x < m \<longrightarrow> (\<exists>j. rnd j mod m = x))"

lemma ht_ok_bound: "ht_ok hf h \<Longrightarrow> ht_size h \<le> 2 ^ 31"
proof (cases "table h = None")
  case True
  moreover assume "ht_ok hf h"
  ultimately show ?thesis by (simp add: ht_ok_def dictReset_def)
next
  case False
  assume "ht_ok hf h"
  then obtain e where "e \<le> 31" "ht_size h = 2 ^ e" using False by (rule ht_okE)
  moreover have "(2::nat) ^ e \<le> 2 ^ 31" using \<open>e \<le> 31\<close> by (intro power_increasing) auto
  ultimately show ?thesis by simp
qed

lemma random_bucket_rehash_spec:
  assumes ok: "dict_ok hf d" and rh: "dictIsRehashing d" and nz: "dictSize d \<noteq> 0" and fair: "fair rnd"
  shows "\<exists>m he. random_bucket_rehash rnd 0 d = Some (m, he) \<and> he \<noteq> [] \<and> set he \<subseteq> set (entries d)"
proof -
  have o: "ht_ok hf (ht0 d)" "ht_ok hf (ht1 d)" "rehash_ok d" using ok by (simp_all only: dict_ok_def)
  let ?r = "nat (rehashidx d)" let ?s0 = "ht_size (ht0 d)" let ?s1 = "ht_size (ht1 d)"
  have r: "?r \<le> ?s0" "\<forall>i < ?r. slots (ht0 d) ! i = []" using o(3) rh by (auto simp: rehash_ok_def)
  have l: "length (slots (ht0 d)) = ?s0" "length (slots (ht1 d)) = ?s1" "?s0 \<le> 2 ^ 31" "?s1 \<le> 2 ^ 31"
    using o ht_ok_size ht_ok_bound by blast+
  have pos: "0 < ?s1"
  proof -
    have "table (ht1 d) \<noteq> None" using o(3) rh by (simp add: rehash_ok_def)
    from ht_ok_idx [OF o(2) this] show ?thesis using l(2) by (metis gr_zeroI less_zeroE)
  qed
  define pick where "pick h = (if h \<ge> ?s0 then slots (ht1 d) ! (h - ?s0) else slots (ht0 d) ! h)" for h
  define g where "g n = pick (?r + rnd n mod (?s0 + ?s1 - ?r))" for n
  have h: "?r + x mod (?s0 + ?s1 - ?r) < ?s0 + ?s1" for x
  proof -
    have "x mod (?s0 + ?s1 - ?r) < ?s0 + ?s1 - ?r" using r(1) pos by (intro mod_less_divisor) linarith
    then show ?thesis using r(1) by linarith
  qed
  have un: "random_bucket_rehash rnd n d = (if g n = [] then random_bucket_rehash rnd (n + 1) d else Some (n + 1, g n))" for n
  proof -
    let ?h = "?r + rnd n mod (?s0 + ?s1 - ?r)"
    have "?s0 + ?s1 \<le> 2 ^ 32" using l(3,4) by simp
    then have "?h < 2 ^ 32" using h [of "rnd n"] by (rule less_le_trans [rotated])
    then have "?h mod 2 ^ 32 = ?h" by (rule mod_less)
    moreover have "?h \<ge> ?s0 \<Longrightarrow> ?h - ?s0 < ?s1" using h [of "rnd n"] by linarith
    ultimately show ?thesis using l(1,2)
      by (subst random_bucket_rehash.simps) (simp add: Let_def g_def pick_def)
  qed
  obtain k where k: "?r \<le> k" "k < ?s0 + ?s1" "pick k \<noteq> []"
  proof -
    have "concat (slots (ht0 d)) \<noteq> [] \<or> concat (slots (ht1 d)) \<noteq> []"
    proof (rule ccontr)
      assume "\<not> ?thesis"
      then have "entries d = []" by (simp only: entries_def) simp
      then show False using size_entries [OF ok] nz by simp
    qed
    then show thesis
    proof
      assume "concat (slots (ht0 d)) \<noteq> []"
      then obtain j where "?r \<le> j" "j < length (slots (ht0 d))" "slots (ht0 d) ! j \<noteq> []" using ex_nonempty_bucket r(2) by blast
      then show thesis using l(1) by (intro that [of j]) (auto simp: pick_def)
    next
      assume "concat (slots (ht1 d)) \<noteq> []"
      then obtain j where "j < length (slots (ht1 d))" "slots (ht1 d) ! j \<noteq> []" using ex_nonempty_bucket [of _ 0] by blast
      then show thesis using l(2) r(1) by (intro that [of "?s0 + j"]) (auto simp: pick_def)
    qed
  qed
  have "k - ?r < ?s0 + ?s1 - ?r" using k by linarith
  then obtain j where "rnd j mod (?s0 + ?s1 - ?r) = k - ?r" using fair unfolding fair_def by blast
  then have "g j \<noteq> []" using k by (simp add: g_def)
  from random_loop [of "\<lambda>n. random_bucket_rehash rnd n d" g, OF un this le0]
  obtain m where m: "random_bucket_rehash rnd 0 d = Some (Suc m, g m)" "g m \<noteq> []" by blast
  have "set (g m) \<subseteq> set (entries d)"
  proof -
    let ?h = "?r + rnd m mod (?s0 + ?s1 - ?r)"
    have "?h \<ge> ?s0 \<Longrightarrow> slots (ht1 d) ! (?h - ?s0) \<in> set (slots (ht1 d))" using h [of "rnd m"] l(2) by (intro nth_mem) linarith
    moreover have "\<not> ?h \<ge> ?s0 \<Longrightarrow> slots (ht0 d) ! ?h \<in> set (slots (ht0 d))" using l(1) by (intro nth_mem) linarith
    ultimately show ?thesis by (auto simp: g_def pick_def entries_def)
  qed
  then show ?thesis using m by blast
qed

lemma random_bucket_spec:
  assumes ok: "dict_ok hf d" and nz: "dictSize d \<noteq> 0" and nr: "\<not> dictIsRehashing d" and fair: "fair rnd"
  shows "\<exists>m he. random_bucket rnd 0 d = Some (m, he) \<and> he \<noteq> [] \<and> set he \<subseteq> set (entries d)"
proof -
  have o: "ht_ok hf (ht0 d)" "rehash_ok d" using ok by (simp_all only: dict_ok_def)
  have t: "table (ht0 d) \<noteq> None" by (rule dictSize_pos_table [OF ok nz])
  obtain e where e: "e \<le> 31" "length (slots (ht0 d)) = 2 ^ e" "sizemask (ht0 d) = 2 ^ e - 1" by (rule ht_okE [OF o(1) t])
  have p31: "(2::nat) ^ e \<le> 2 ^ 31" using e(1) by (intro power_increasing) auto
  have idx: "unat (of_nat x AND sizemask (ht0 d)) mod 2 ^ 32 = x mod 2 ^ e" for x
  proof -
    have "(2 ^ e - 1 :: u64) = mask e" by (simp add: mask_eq_exp_minus_1)
    then have "(of_nat x :: u64) AND sizemask (ht0 d) = take_bit e (of_nat x)" unfolding e(3) by (simp only: take_bit_eq_mask)
    then have "unat ((of_nat x :: u64) AND sizemask (ht0 d)) = take_bit e (unat (of_nat x :: u64))" by (simp only: unsigned_take_bit_eq)
    also have "\<dots> = x mod 2 ^ 64 mod 2 ^ e" by (simp add: take_bit_eq_mod unat_of_nat)
    also have "\<dots> = x mod 2 ^ e" using e(1) by (intro mod_mod_cancel le_imp_power_dvd) simp
    finally have u: "unat ((of_nat x :: u64) AND sizemask (ht0 d)) = x mod 2 ^ e" .
    have "x mod 2 ^ e < 2 ^ e" by simp
    then have "x mod 2 ^ e < 2 ^ 31" using p31 by (rule less_le_trans)
    then have "x mod 2 ^ e < 2 ^ 32" by (rule less_trans) simp
    then show ?thesis unfolding u by (rule mod_less)
  qed
  define g where "g n = slots (ht0 d) ! (rnd n mod 2 ^ e)" for n
  have un: "random_bucket rnd n d = (if g n = [] then random_bucket rnd (n + 1) d else Some (n + 1, g n))" for n
    by (subst random_bucket.simps) (simp only: idx, simp add: e(2) g_def)
  have "slots (ht1 d) = []" using nr o(2) by (simp add: rehash_ok_def)
  then have en: "entries d = concat (slots (ht0 d))" by (simp add: entries_def)
  moreover have "entries d \<noteq> []" using size_entries [OF ok] nz by auto
  ultimately have "concat (slots (ht0 d)) \<noteq> []" by (simp only: en not_False_eq_True)
  then obtain k where k: "k < length (slots (ht0 d))" "slots (ht0 d) ! k \<noteq> []" using ex_nonempty_bucket [of _ 0] by blast
  then obtain j where "rnd j mod 2 ^ e = k" using fair e(2) unfolding fair_def by metis
  then have "g j \<noteq> []" using k by (simp add: g_def)
  from random_loop [of "\<lambda>n. random_bucket rnd n d" g, OF un this le0]
  obtain m where m: "random_bucket rnd 0 d = Some (Suc m, g m)" "g m \<noteq> []" by blast
  have "g m \<in> set (slots (ht0 d))" unfolding g_def using e(2) by (intro nth_mem) simp
  then show ?thesis using m unfolding en by auto
qed



end
