(* ===== verification/Sds.thy ===== *)
theory Sds
  imports Bytes
begin

text \<open>
  The dynamic strings of sds.c and sds.h.

  An sds value is a header followed by a byte buffer. The five header layouts differ in the width of
  their \<open>len\<close> and \<open>alloc\<close> fields; \<open>SDS_TYPE_5\<close> has neither and keeps the length in the upper
  five bits of the flags byte. \<open>sbuf\<close> is the memory from the address the C pointer holds to the end of the
  allocation. Lengths are natural numbers; what a header field or a \<open>size_t\<close> cannot hold is cut
  off where the code stores it.
\<close>

section \<open>Headers\<close>

record sds =
  sflags :: byte
  slen :: nat
  salloc :: nat
  sbuf :: "byte list"

definition SDS_TYPE_5 :: nat where "SDS_TYPE_5 = 0"
definition SDS_TYPE_8 :: nat where "SDS_TYPE_8 = 1"
definition SDS_TYPE_16 :: nat where "SDS_TYPE_16 = 2"
definition SDS_TYPE_32 :: nat where "SDS_TYPE_32 = 3"
definition SDS_TYPE_64 :: nat where "SDS_TYPE_64 = 4"
definition SDS_MAX_PREALLOC :: nat where "SDS_MAX_PREALLOC = 1048576"

lemmas sds_types = SDS_TYPE_5_def SDS_TYPE_8_def SDS_TYPE_16_def SDS_TYPE_32_def SDS_TYPE_64_def

text \<open>The type in the three low bits of the flags, and the number of bits of a length field.\<close>

definition stype :: "sds \<Rightarrow> nat" where
  "stype s = unat (sflags s AND 7)"

definition fld_bits :: "nat \<Rightarrow> nat" where
  "fld_bits t = (if t = SDS_TYPE_8 then 8 else if t = SDS_TYPE_16 then 16 else if t = SDS_TYPE_32 then 32 else 64)"

definition SDS_TYPE_5_LEN :: "byte \<Rightarrow> nat" where
  "SDS_TYPE_5_LEN f = unat (drop_bit 3 f)"

definition sdslen :: "sds \<Rightarrow> nat" where
  "sdslen s =
    (if stype s = SDS_TYPE_5 then SDS_TYPE_5_LEN (sflags s)
     else if stype s \<in> {SDS_TYPE_8, SDS_TYPE_16, SDS_TYPE_32, SDS_TYPE_64} then slen s
     else 0)"

text \<open>
  The subtraction of two 8 or 16 bit fields is done in \<open>int\<close> and then widened to \<open>size_t\<close>; that of
  two 32 bit fields wraps at 32 bits.
\<close>

definition sdsavail :: "sds \<Rightarrow> nat" where
  "sdsavail s =
    (if stype s = SDS_TYPE_5 then 0
     else if stype s \<in> {SDS_TYPE_8, SDS_TYPE_16, SDS_TYPE_64} then nat ((int (salloc s) - int (slen s)) mod 2 ^ 64)
     else if stype s = SDS_TYPE_32 then nat ((int (salloc s) - int (slen s)) mod 2 ^ 32)
     else 0)"

definition sdssetlen :: "sds \<Rightarrow> nat \<Rightarrow> sds" where
  "sdssetlen s newlen =
    (if stype s = SDS_TYPE_5 then s\<lparr>sflags := of_nat SDS_TYPE_5 OR push_bit 3 (of_nat newlen)\<rparr>
     else if stype s \<in> {SDS_TYPE_8, SDS_TYPE_16, SDS_TYPE_32, SDS_TYPE_64} then s\<lparr>slen := newlen mod 2 ^ fld_bits (stype s)\<rparr>
     else s)"

definition sdsinclen :: "sds \<Rightarrow> nat \<Rightarrow> sds" where
  "sdsinclen s inc =
    (if stype s = SDS_TYPE_5 then
       (let newlen = of_nat (SDS_TYPE_5_LEN (sflags s) + inc) :: byte in s\<lparr>sflags := of_nat SDS_TYPE_5 OR push_bit 3 newlen\<rparr>)
     else if stype s \<in> {SDS_TYPE_8, SDS_TYPE_16, SDS_TYPE_32, SDS_TYPE_64} then
       s\<lparr>slen := (slen s + inc) mod 2 ^ fld_bits (stype s)\<rparr>
     else s)"

definition sdsalloc :: "sds \<Rightarrow> nat" where
  "sdsalloc s =
    (if stype s = SDS_TYPE_5 then SDS_TYPE_5_LEN (sflags s)
     else if stype s \<in> {SDS_TYPE_8, SDS_TYPE_16, SDS_TYPE_32, SDS_TYPE_64} then salloc s
     else 0)"

definition sdssetalloc :: "sds \<Rightarrow> nat \<Rightarrow> sds" where
  "sdssetalloc s newlen =
    (if stype s \<in> {SDS_TYPE_8, SDS_TYPE_16, SDS_TYPE_32, SDS_TYPE_64} then s\<lparr>salloc := newlen mod 2 ^ fld_bits (stype s)\<rparr>
     else s)"

definition sdsHdrSize :: "nat \<Rightarrow> nat" where
  "sdsHdrSize t =
    (if t = SDS_TYPE_5 then 1 else if t = SDS_TYPE_8 then 3 else if t = SDS_TYPE_16 then 5
     else if t = SDS_TYPE_32 then 9 else if t = SDS_TYPE_64 then 17 else 0)"

definition sdsReqType :: "nat \<Rightarrow> nat" where
  "sdsReqType string_size =
    (if string_size < 2 ^ 5 then SDS_TYPE_5
     else if string_size < 2 ^ 8 then SDS_TYPE_8
     else if string_size < 2 ^ 16 then SDS_TYPE_16
     else if string_size < 2 ^ 32 then SDS_TYPE_32
     else SDS_TYPE_64)"

definition sdsAllocSize :: "sds \<Rightarrow> nat" where
  "sdsAllocSize s = sdsHdrSize (stype s) + sdsalloc s + 1"

section \<open>Creation and room\<close>

text \<open>
  \<open>init\<close> is \<open>None\<close> for a null pointer and the readable bytes behind the pointer otherwise;
  \<open>garb\<close> is what the allocator leaves in fresh memory.
\<close>

definition sdsnewlen :: "(nat \<Rightarrow> byte) \<Rightarrow> byte list option \<Rightarrow> nat \<Rightarrow> sds option" where
  "sdsnewlen garb init initlen = do {
     let t = sdsReqType initlen;
     let t = (if t = SDS_TYPE_5 \<and> initlen = 0 then SDS_TYPE_8 else t);
     let mem = (case init of None \<Rightarrow> replicate (initlen + 1) 0 | Some _ \<Rightarrow> map garb [0..<initlen + 1]);
     let s = (if t = SDS_TYPE_5 then \<lparr>sflags = of_nat t OR push_bit 3 (of_nat initlen), slen = 0, salloc = 0, sbuf = mem\<rparr>
              else \<lparr>sflags = of_nat t, slen = initlen mod 2 ^ fld_bits t, salloc = initlen mod 2 ^ fld_bits t, sbuf = mem\<rparr>);
     b \<leftarrow> (case init of
            Some p \<Rightarrow> if initlen \<noteq> 0 then do { xs \<leftarrow> get_bytes p 0 initlen; put_bytes (sbuf s) 0 xs } else Some (sbuf s)
          | None \<Rightarrow> Some (sbuf s));
     b \<leftarrow> wr b initlen 0;
     Some (s\<lparr>sbuf := b\<rparr>) }"

definition sdsempty :: "(nat \<Rightarrow> byte) \<Rightarrow> sds option" where
  "sdsempty garb = sdsnewlen garb (Some [0]) 0"

text \<open>\<open>strlen\<close> reads up to the first zero byte.\<close>

fun strlen :: "byte list \<Rightarrow> nat option" where
  "strlen [] = None"
| "strlen (c # cs) = (if c = 0 then Some 0 else map_option Suc (strlen cs))"

definition sdsnew :: "(nat \<Rightarrow> byte) \<Rightarrow> byte list option \<Rightarrow> sds option" where
  "sdsnew garb init = do {
     initlen \<leftarrow> (case init of None \<Rightarrow> Some 0 | Some p \<Rightarrow> strlen p);
     sdsnewlen garb init initlen }"

definition sdsdup :: "(nat \<Rightarrow> byte) \<Rightarrow> sds \<Rightarrow> sds option" where
  "sdsdup garb s = sdsnewlen garb (Some (sbuf s)) (sdslen s)"

text \<open>\<open>int reallen\<close>: the length of a string above \<open>2 ^ 31\<close> would not survive the conversion.\<close>

definition sdsupdatelen :: "sds \<Rightarrow> sds option" where
  "sdsupdatelen s = do {
     n \<leftarrow> strlen (sbuf s);
     let reallen = sint (word_of_int (int n) :: s32);
     Some (sdssetlen s (nat (reallen mod 2 ^ 64))) }"

definition sdsclear :: "sds \<Rightarrow> sds option" where
  "sdsclear s = do {
     let s = sdssetlen s 0;
     b \<leftarrow> wr (sbuf s) 0 0;
     Some (s\<lparr>sbuf := b\<rparr>) }"

definition sdsMakeRoomFor :: "(nat \<Rightarrow> byte) \<Rightarrow> sds \<Rightarrow> nat \<Rightarrow> sds option" where
  "sdsMakeRoomFor garb s addlen =
    (if sdsavail s \<ge> addlen then Some s
     else do {
       let oldtype = stype s;
       let len = sdslen s;
       let newlen = (len + addlen) mod 2 ^ 64;
       let newlen = (if newlen < SDS_MAX_PREALLOC then newlen * 2 else (newlen + SDS_MAX_PREALLOC) mod 2 ^ 64);
       let t = sdsReqType newlen;
       let t = (if t = SDS_TYPE_5 then SDS_TYPE_8 else t);
       s \<leftarrow> (if oldtype = t then Some (s\<lparr>sbuf := realloc_bytes garb (sbuf s) (newlen + 1)\<rparr>)
            else do {
              xs \<leftarrow> get_bytes (sbuf s) 0 (len + 1);
              b \<leftarrow> put_bytes (map garb [0..<newlen + 1]) 0 xs;
              Some (sdssetlen (s\<lparr>sflags := of_nat t, sbuf := b\<rparr>) len) });
       Some (sdssetalloc s newlen) })"

definition sdsRemoveFreeSpace :: "(nat \<Rightarrow> byte) \<Rightarrow> sds \<Rightarrow> sds option" where
  "sdsRemoveFreeSpace garb s = do {
     let oldtype = stype s;
     let len = sdslen s;
     let t = sdsReqType len;
     s \<leftarrow> (if oldtype = t \<or> SDS_TYPE_8 < t then Some (s\<lparr>sbuf := realloc_bytes garb (sbuf s) (len + 1)\<rparr>)
          else do {
            xs \<leftarrow> get_bytes (sbuf s) 0 (len + 1);
            b \<leftarrow> put_bytes (map garb [0..<len + 1]) 0 xs;
            Some (sdssetlen (s\<lparr>sflags := of_nat t, sbuf := b\<rparr>) len) });
     Some (sdssetalloc s len) }"

text \<open>
  \<open>None\<close> also stands for the abort of a failed \<open>assert\<close>. The tests compare the free space of an
  8 or 16 bit header in \<open>int\<close>, of a wider one unsigned; \<open>incr\<close> is an \<open>int\<close>.
\<close>

definition sdsIncrLen :: "sds \<Rightarrow> int \<Rightarrow> sds option" where
  "sdsIncrLen s incr = do {
     (s, len) \<leftarrow>
       (if stype s = SDS_TYPE_5 then
          (let oldlen = int (SDS_TYPE_5_LEN (sflags s)) in
           if (incr > 0 \<and> oldlen + incr < 32) \<or> (incr < 0 \<and> oldlen \<ge> - incr)
           then Some (s\<lparr>sflags := of_nat SDS_TYPE_5 OR push_bit 3 (of_int (oldlen + incr))\<rparr>, nat ((oldlen + incr) mod 2 ^ 64))
           else None)
        else if stype s \<in> {SDS_TYPE_8, SDS_TYPE_16} then
          (if (incr \<ge> 0 \<and> int (salloc s) - int (slen s) \<ge> incr) \<or> (incr < 0 \<and> int (slen s) \<ge> - incr)
           then (let l = nat ((int (slen s) + incr) mod 2 ^ fld_bits (stype s)) in Some (s\<lparr>slen := l\<rparr>, l))
           else None)
        else if stype s \<in> {SDS_TYPE_32, SDS_TYPE_64} then
          (if (incr \<ge> 0 \<and> (int (salloc s) - int (slen s)) mod 2 ^ fld_bits (stype s) \<ge> incr) \<or> (incr < 0 \<and> int (slen s) \<ge> - incr)
           then (let l = nat ((int (slen s) + incr) mod 2 ^ fld_bits (stype s)) in Some (s\<lparr>slen := l\<rparr>, l))
           else None)
        else Some (s, 0));
     b \<leftarrow> wr (sbuf s) len 0;
     Some (s\<lparr>sbuf := b\<rparr>) }"

section \<open>Appending and copying\<close>

definition sdsgrowzero :: "(nat \<Rightarrow> byte) \<Rightarrow> sds \<Rightarrow> nat \<Rightarrow> sds option" where
  "sdsgrowzero garb s len =
    (let curlen = sdslen s in
     if len \<le> curlen then Some s
     else do {
       s \<leftarrow> sdsMakeRoomFor garb s (len - curlen);
       b \<leftarrow> put_bytes (sbuf s) curlen (replicate (len - curlen + 1) 0);
       Some (sdssetlen (s\<lparr>sbuf := b\<rparr>) len) })"

definition sdscatlen :: "(nat \<Rightarrow> byte) \<Rightarrow> sds \<Rightarrow> byte list \<Rightarrow> nat \<Rightarrow> sds option" where
  "sdscatlen garb s t len = do {
     let curlen = sdslen s;
     s \<leftarrow> sdsMakeRoomFor garb s len;
     xs \<leftarrow> get_bytes t 0 len;
     b \<leftarrow> put_bytes (sbuf s) curlen xs;
     let s = sdssetlen (s\<lparr>sbuf := b\<rparr>) (curlen + len);
     b \<leftarrow> wr (sbuf s) (curlen + len) 0;
     Some (s\<lparr>sbuf := b\<rparr>) }"

definition sdscat :: "(nat \<Rightarrow> byte) \<Rightarrow> sds \<Rightarrow> byte list \<Rightarrow> sds option" where
  "sdscat garb s t = do { n \<leftarrow> strlen t; sdscatlen garb s t n }"

definition sdscatsds :: "(nat \<Rightarrow> byte) \<Rightarrow> sds \<Rightarrow> sds \<Rightarrow> sds option" where
  "sdscatsds garb s t = sdscatlen garb s (sbuf t) (sdslen t)"

definition sdscpylen :: "(nat \<Rightarrow> byte) \<Rightarrow> sds \<Rightarrow> byte list \<Rightarrow> nat \<Rightarrow> sds option" where
  "sdscpylen garb s t len = do {
     s \<leftarrow> (if sdsalloc s < len then sdsMakeRoomFor garb s (len - sdslen s) else Some s);
     xs \<leftarrow> get_bytes t 0 len;
     b \<leftarrow> put_bytes (sbuf s) 0 xs;
     b \<leftarrow> wr b len 0;
     Some (sdssetlen (s\<lparr>sbuf := b\<rparr>) len) }"

definition sdscpy :: "(nat \<Rightarrow> byte) \<Rightarrow> sds \<Rightarrow> byte list \<Rightarrow> sds option" where
  "sdscpy garb s t = do { n \<leftarrow> strlen t; sdscpylen garb s t n }"

section \<open>Trimming and comparing\<close>

text \<open>
  \<open>strchr\<close> also finds the terminator of \<open>cset\<close>, so a zero byte of the string is trimmed too. The
  first loop stops behind the last byte, the second at \<open>sp\<close>.
\<close>

function trim_left :: "byte list \<Rightarrow> byte list \<Rightarrow> int \<Rightarrow> int \<Rightarrow> int option" where
  "trim_left b cset sp e =
    (if sp \<le> e then do {
       c \<leftarrow> rd b (nat sp);
       if c = 0 \<or> c \<in> set cset then trim_left b cset (sp + 1) e else Some sp }
     else Some sp)"
  by pat_completeness auto
termination by (relation "measure (\<lambda>(b, cset, sp, e). nat (e + 1 - sp))") auto

function trim_right :: "byte list \<Rightarrow> byte list \<Rightarrow> int \<Rightarrow> int \<Rightarrow> int option" where
  "trim_right b cset sp ep =
    (if ep > sp then do {
       c \<leftarrow> rd b (nat ep);
       if c = 0 \<or> c \<in> set cset then trim_right b cset sp (ep - 1) else Some ep }
     else Some ep)"
  by pat_completeness auto
termination by (relation "measure (\<lambda>(b, cset, sp, ep). nat (ep - sp))") auto

declare trim_left.simps [simp del] trim_right.simps [simp del]

definition sdstrim :: "sds \<Rightarrow> byte list \<Rightarrow> sds option" where
  "sdstrim s cset = do {
     let e = int (sdslen s) - 1;
     sp \<leftarrow> trim_left (sbuf s) cset 0 e;
     ep \<leftarrow> trim_right (sbuf s) cset sp e;
     let len = (if sp > ep then 0 else nat (ep - sp + 1));
     b \<leftarrow> (if sp \<noteq> 0 then memmove (sbuf s) 0 (nat sp) len else Some (sbuf s));
     b \<leftarrow> wr b len 0;
     Some (sdssetlen (s\<lparr>sbuf := b\<rparr>) len) }"

text \<open>The conversions from \<open>size_t\<close> to \<open>int\<close> of the source keep the low 32 bits.\<close>

definition to_int :: "int \<Rightarrow> int" where
  "to_int x = sint (word_of_int x :: s32)"

definition sdsrange :: "sds \<Rightarrow> int \<Rightarrow> int \<Rightarrow> sds option" where
  "sdsrange s start e =
    (let len = int (sdslen s) in
     if len = 0 then Some s
     else
       let start = (if start < 0 then (let st = to_int (len + start) in if st < 0 then 0 else st) else start);
           e = (if e < 0 then (let e' = to_int (len + e) in if e' < 0 then 0 else e') else e);
           newlen = (if start > e then 0 else e - start + 1);
           (start, newlen) =
             (if newlen \<noteq> 0 then
                (if start \<ge> to_int len then (start, 0)
                 else if e \<ge> to_int len then
                   (let e = to_int (len - 1) in (start, if start > e then 0 else e - start + 1))
                 else (start, newlen))
              else (0, newlen))
       in do {
         b \<leftarrow> (if start \<noteq> 0 \<and> newlen \<noteq> 0 then memmove (sbuf s) 0 (nat start) (nat newlen) else Some (sbuf s));
         b \<leftarrow> wr b (nat newlen) 0;
         Some (sdssetlen (s\<lparr>sbuf := b\<rparr>) (nat newlen)) })"

text \<open>\<open>memcmp\<close> compares unsigned bytes; only the sign of its result is specified.\<close>

fun memcmp :: "byte list \<Rightarrow> byte list \<Rightarrow> int" where
  "memcmp (a # as) (b # bs) = (if a = b then memcmp as bs else if a < b then - 1 else 1)"
| "memcmp _ _ = 0"

definition sdscmp :: "sds \<Rightarrow> sds \<Rightarrow> int option" where
  "sdscmp s1 s2 = do {
     let l1 = sdslen s1; let l2 = sdslen s2;
     let minlen = (if l1 < l2 then l1 else l2);
     a \<leftarrow> get_bytes (sbuf s1) 0 minlen;
     b \<leftarrow> get_bytes (sbuf s2) 0 minlen;
     let c = memcmp a b;
     if c = 0 then Some (to_int (int l1 - int l2)) else Some c }"

definition tolower_char :: "byte \<Rightarrow> byte" where
  "tolower_char c = (if 65 \<le> c \<and> c \<le> 90 then c + 32 else c)"

definition toupper_char :: "byte \<Rightarrow> byte" where
  "toupper_char c = (if 97 \<le> c \<and> c \<le> 122 then c - 32 else c)"

primrec map_bytes :: "(byte \<Rightarrow> byte) \<Rightarrow> nat \<Rightarrow> byte list \<Rightarrow> byte list option" where
  "map_bytes f 0 b = Some b"
| "map_bytes f (Suc n) b = do { b \<leftarrow> map_bytes f n b; c \<leftarrow> rd b n; wr b n (f c) }"

definition sdstolower :: "sds \<Rightarrow> sds option" where
  "sdstolower s = do { b \<leftarrow> map_bytes tolower_char (nat (to_int (int (sdslen s)))) (sbuf s); Some (s\<lparr>sbuf := b\<rparr>) }"

definition sdstoupper :: "sds \<Rightarrow> sds option" where
  "sdstoupper s = do { b \<leftarrow> map_bytes toupper_char (nat (to_int (int (sdslen s)))) (sbuf s); Some (s\<lparr>sbuf := b\<rparr>) }"

primrec map_char :: "byte list \<Rightarrow> byte list \<Rightarrow> nat \<Rightarrow> nat \<Rightarrow> byte \<Rightarrow> byte option" where
  "map_char from to i 0 c = Some c"
| "map_char from to i (Suc n) c = do {
     f \<leftarrow> rd from i;
     if c = f then rd to i else map_char from to (Suc i) n c }"

primrec map_chars :: "byte list \<Rightarrow> byte list \<Rightarrow> nat \<Rightarrow> nat \<Rightarrow> byte list \<Rightarrow> byte list option" where
  "map_chars from to setlen 0 b = Some b"
| "map_chars from to setlen (Suc n) b = do {
     b \<leftarrow> map_chars from to setlen n b;
     c \<leftarrow> rd b n;
     c \<leftarrow> map_char from to 0 setlen c;
     wr b n c }"

definition sdsmapchars :: "sds \<Rightarrow> byte list \<Rightarrow> byte list \<Rightarrow> nat \<Rightarrow> sds option" where
  "sdsmapchars s from to setlen = do {
     b \<leftarrow> map_chars from to setlen (sdslen s) (sbuf s);
     Some (s\<lparr>sbuf := b\<rparr>) }"

end
