(* ===== verification/Sds_List.thy ===== *)
theory Sds_List
  imports Sds
begin

text \<open>
  sds.c: the invariant of a string header, what every operation does to the bytes of the string, and the
  refinement of string programs to programs on byte lists.
\<close>

section \<open>Well-formed strings\<close>

text \<open>
  The type is one of the five, the length fits the allocation, the allocation fits its header field, the
  buffer has room for the allocation and a terminator, and the string is terminated.
\<close>

definition sds_ok :: "sds \<Rightarrow> bool" where
  "sds_ok s \<longleftrightarrow> stype s \<le> 4 \<and> sdslen s \<le> sdsalloc s \<and> sdsalloc s < length (sbuf s) \<and>
     (stype s \<noteq> SDS_TYPE_5 \<longrightarrow> salloc s < 2 ^ fld_bits (stype s)) \<and> sbuf s ! sdslen s = 0"

definition sds_str :: "sds \<Rightarrow> byte list" where
  "sds_str s = take (sdslen s) (sbuf s)"

lemma flags5_type: "unat ((push_bit 3 (w :: byte)) AND 7) = 0"
proof -
  have "(push_bit 3 w) AND 7 = 0"
  proof (rule bit_word_eqI)
    fix n
    have "bit (7::byte) n \<longleftrightarrow> n < 3"
    proof -
      have "(7::byte) = mask 3" by (simp add: mask_eq_exp_minus_1)
      moreover have "bit (mask 3 :: byte) n \<longleftrightarrow> n < 3" by (auto simp: bit_mask_iff)
      ultimately show ?thesis by (simp only:)
    qed
    then show "bit ((push_bit 3 w) AND 7) n = bit (0::byte) n"
      by (auto simp: bit_and_iff bit_push_bit_iff)
  qed
  then show ?thesis by simp
qed

lemma flags5_len: "n < 32 \<Longrightarrow> SDS_TYPE_5_LEN (push_bit 3 (of_nat n)) = n"
proof -
  assume n: "n < 32"
  have "unat (push_bit 3 (of_nat n) :: byte) = n * 8"
    using n by (simp add: unat_word_ariths push_bit_eq_mult unat_of_nat)
  then show ?thesis unfolding SDS_TYPE_5_LEN_def unat_drop_bit_eq by (simp add: drop_bit_eq_div)
qed

lemma SDS_TYPE_5_LEN_less: "SDS_TYPE_5_LEN f < 32"
  using unat_less_2p [of f] unfolding SDS_TYPE_5_LEN_def unat_drop_bit_eq by (simp add: drop_bit_eq_div)

lemma stype_of_nat [simp]: "t \<le> 4 \<Longrightarrow> sflags s = of_nat t \<Longrightarrow> stype s = t"
proof -
  assume t: "t \<le> 4" "sflags s = of_nat t"
  then have "t = 0 \<or> t = 1 \<or> t = 2 \<or> t = 3 \<or> t = 4" by arith
  then show ?thesis using t by (auto simp: stype_def)
qed

lemma stype_le4: "stype s \<le> 4 \<longleftrightarrow> stype s = SDS_TYPE_5 \<or> stype s \<in> {SDS_TYPE_8, SDS_TYPE_16, SDS_TYPE_32, SDS_TYPE_64}"
  by (auto simp: sds_types)

lemma stype_upd [simp]: "stype (s\<lparr>slen := a\<rparr>) = stype s" "stype (s\<lparr>salloc := a\<rparr>) = stype s" "stype (s\<lparr>sbuf := b\<rparr>) = stype s"
  by (simp_all add: stype_def)

lemma sdslen_upd [simp]: "sdslen (s\<lparr>salloc := a\<rparr>) = sdslen s" "sdslen (s\<lparr>sbuf := b\<rparr>) = sdslen s"
    "sdsalloc (s\<lparr>sbuf := b\<rparr>) = sdsalloc s" "sdsavail (s\<lparr>sbuf := b\<rparr>) = sdsavail s"
  by (simp_all add: sdslen_def sdsalloc_def sdsavail_def)

lemma stype_setlen [simp]: "stype (sdssetlen s n) = stype s"
  using flags5_type by (simp add: sdssetlen_def sds_types) (simp add: stype_def)

lemma sbuf_setlen [simp]: "sbuf (sdssetlen s n) = sbuf s" "sbuf (sdssetalloc s n) = sbuf s" "salloc (sdssetlen s n) = salloc s"
  by (simp_all add: sdssetlen_def sdssetalloc_def)

lemma stype_setalloc [simp]: "stype (sdssetalloc s n) = stype s" "sdslen (sdssetalloc s n) = sdslen s"
  by (simp_all add: sdssetalloc_def)

definition type_cap :: "nat \<Rightarrow> nat" where
  "type_cap t = (if t = SDS_TYPE_5 then 32 else 2 ^ fld_bits t)"

lemma sdslen_setlen: "stype s \<le> 4 \<Longrightarrow> n < type_cap (stype s) \<Longrightarrow> sdslen (sdssetlen s n) = n"
proof (cases "stype s = SDS_TYPE_5")
  case True
  assume "n < type_cap (stype s)"
  then have n: "n < 32" using True by (simp add: type_cap_def)
  have "stype (sdssetlen s n) = SDS_TYPE_5" using True by simp
  then show ?thesis using True flags5_len [OF n] by (simp add: sdslen_def sdssetlen_def SDS_TYPE_5_def)
next
  case False
  assume "stype s \<le> 4" "n < type_cap (stype s)"
  then have s: "stype s \<in> {SDS_TYPE_8, SDS_TYPE_16, SDS_TYPE_32, SDS_TYPE_64}" "n < 2 ^ fld_bits (stype s)"
    using False stype_le4 by (auto simp: type_cap_def)
  have "sdslen (sdssetlen s n) = slen (sdssetlen s n)" using s(1) False unfolding sdslen_def by simp
  also have "\<dots> = n mod 2 ^ fld_bits (stype s)" unfolding sdssetlen_def if_not_P [OF False] if_P [OF s(1)] by simp
  finally show ?thesis using s by simp
qed

lemma sdsalloc_setlen: "stype s \<noteq> SDS_TYPE_5 \<Longrightarrow> sdsalloc (sdssetlen s n) = sdsalloc s"
  by (simp add: sdsalloc_def)

lemma sdsalloc_cap: "sds_ok s \<Longrightarrow> sdsalloc s < type_cap (stype s)"
  using SDS_TYPE_5_LEN_less by (auto simp: sds_ok_def sdsalloc_def type_cap_def sds_types fld_bits_def)

lemma sds_ok_setlen:
  assumes ok: "sds_ok s" and b: "length b = length (sbuf s)" "n \<le> sdsalloc s" "b ! n = 0"
  shows "sds_ok (sdssetlen (s\<lparr>sbuf := b\<rparr>) n)" "sds_str (sdssetlen (s\<lparr>sbuf := b\<rparr>) n) = take n b"
    "sdslen (sdssetlen (s\<lparr>sbuf := b\<rparr>) n) = n"
proof -
  have t: "stype s \<le> 4" using ok by (simp add: sds_ok_def)
  have "n < type_cap (stype s)" using sdsalloc_cap [OF ok] b(2) by simp
  then show l: "sdslen (sdssetlen (s\<lparr>sbuf := b\<rparr>) n) = n" using sdslen_setlen [of "s\<lparr>sbuf := b\<rparr>" n] t by simp
  then show "sds_str (sdssetlen (s\<lparr>sbuf := b\<rparr>) n) = take n b" by (simp add: sds_str_def)
  have al: "sdsalloc s < length (sbuf s)" using ok by (simp add: sds_ok_def)
  show "sds_ok (sdssetlen (s\<lparr>sbuf := b\<rparr>) n)"
  proof (cases "stype s = SDS_TYPE_5")
    case True
    then have "sdsalloc (sdssetlen (s\<lparr>sbuf := b\<rparr>) n) = sdslen (sdssetlen (s\<lparr>sbuf := b\<rparr>) n)"
      by (simp add: sdsalloc_def sdslen_def)
    then show ?thesis using l t b al True unfolding sds_ok_def by simp
  next
    case False
    then show ?thesis using l t b al ok sdsalloc_setlen [of "s\<lparr>sbuf := b\<rparr>" n] unfolding sds_ok_def by simp
  qed
qed

lemma length_sds_str: "sds_ok s \<Longrightarrow> length (sds_str s) = sdslen s"
  by (simp add: sds_str_def sds_ok_def)

lemma sdsavail_ok: "sds_ok s \<Longrightarrow> sdsavail s = sdsalloc s - sdslen s"
proof -
  assume ok: "sds_ok s"
  show ?thesis
  proof (cases "stype s = SDS_TYPE_5")
    case True then show ?thesis by (simp add: sdsavail_def sdsalloc_def sdslen_def)
  next
    case False
    then have t: "stype s \<in> {SDS_TYPE_8, SDS_TYPE_16, SDS_TYPE_32, SDS_TYPE_64}" using ok stype_le4 by (auto simp: sds_ok_def)
    have le: "slen s \<le> salloc s" "salloc s < 2 ^ fld_bits (stype s)"
      using ok t False unfolding sds_ok_def by (simp_all add: sdslen_def sdsalloc_def)
    then have m: "(int (salloc s) - int (slen s)) mod 2 ^ fld_bits (stype s) = int (salloc s - slen s)"
    proof -
      have "int (salloc s - slen s) < 2 ^ fld_bits (stype s)" using le by (metis of_nat_less_numeral_power_cancel_iff less_imp_diff_less)
      then show ?thesis using le(1) by (simp add: of_nat_diff)
    qed
    have m64: "(int (salloc s) - int (slen s)) mod 2 ^ 64 = int (salloc s - slen s)"
    proof -
      have "(2::nat) ^ fld_bits (stype s) \<le> 2 ^ 64" by (rule power_increasing) (simp_all add: fld_bits_def)
      then have "salloc s < 2 ^ 64" using le by linarith
      then show ?thesis using le(1) by (simp add: of_nat_diff)
    qed
    show ?thesis
    proof (cases "stype s = SDS_TYPE_32")
      case True
      then show ?thesis using m by (simp add: sdsavail_def sdsalloc_def sdslen_def fld_bits_def sds_types)
    next
      case F32: False
      then show ?thesis using t False m64 by (simp add: sdsavail_def sdsalloc_def sdslen_def)
    qed
  qed
qed

lemma sdsReqType_cap: "n < 2 ^ 64 \<Longrightarrow> n < type_cap (sdsReqType n) \<and> sdsReqType n \<le> 4"
  by (auto simp: type_cap_def sdsReqType_def sds_types fld_bits_def)

lemma sds_ok_new:
  assumes "t \<le> 4" "t \<noteq> 0" "n < type_cap t" "l \<le> n" "length b = n + 1" "b ! l = 0" "sflags s = of_nat t" "slen s = l" "salloc s = n" "sbuf s = b"
  shows "sds_ok s" "sds_str s = take l b" "sdslen s = l" "sdsalloc s = n"
proof -
  have t: "stype s = t" using assms by simp
  then show l: "sdslen s = l" "sdsalloc s = n" using assms by (auto simp: sdslen_def sdsalloc_def sds_types)
  then show "sds_str s = take l b" using assms by (simp add: sds_str_def)
  show "sds_ok s" using l t assms by (simp add: sds_ok_def type_cap_def SDS_TYPE_5_def)
qed

section \<open>The operations on well-formed strings\<close>

lemma put_bytes_0: "length xs \<le> length b \<Longrightarrow> put_bytes b 0 xs = Some (xs @ drop (length xs) b)"
  by (simp add: put_bytes_def patch_def)

lemma get_bytes_0: "n \<le> length b \<Longrightarrow> get_bytes b 0 n = Some (take n b)"
  by (simp add: get_bytes_def)

lemma sds_ok_realloc:
  assumes ok: "sds_ok s" and n: "sdslen s \<le> n" "n < type_cap (stype s)" "stype s \<noteq> SDS_TYPE_5"
  shows "sds_ok (sdssetalloc (s\<lparr>sbuf := realloc_bytes garb (sbuf s) (n + 1)\<rparr>) n)"
    "sds_str (sdssetalloc (s\<lparr>sbuf := realloc_bytes garb (sbuf s) (n + 1)\<rparr>) n) = sds_str s"
    "sdslen (sdssetalloc (s\<lparr>sbuf := realloc_bytes garb (sbuf s) (n + 1)\<rparr>) n) = sdslen s"
    "sdsalloc (sdssetalloc (s\<lparr>sbuf := realloc_bytes garb (sbuf s) (n + 1)\<rparr>) n) = n"
proof -
  let ?b = "realloc_bytes garb (sbuf s) (n + 1)"
  have t: "stype s \<in> {SDS_TYPE_8, SDS_TYPE_16, SDS_TYPE_32, SDS_TYPE_64}" "n < 2 ^ fld_bits (stype s)"
    using ok n stype_le4 by (auto simp: sds_ok_def type_cap_def)
  have l: "sdslen s < length (sbuf s)" "sbuf s ! sdslen s = 0" "stype s \<le> 4" using ok by (auto simp: sds_ok_def)
  have nth: "?b ! sdslen s = 0" using l n by (simp add: realloc_bytes_def nth_append)
  have tk: "take (sdslen s) ?b = take (sdslen s) (sbuf s)" using l n by (simp add: realloc_bytes_def min_def)
  show a: "sdsalloc (sdssetalloc (s\<lparr>sbuf := ?b\<rparr>) n) = n" using t n(3) unfolding sdsalloc_def sdssetalloc_def by simp
  have sa: "salloc (sdssetalloc (s\<lparr>sbuf := ?b\<rparr>) n) = n" using t unfolding sdssetalloc_def by simp
  show "sds_str (sdssetalloc (s\<lparr>sbuf := ?b\<rparr>) n) = sds_str s" using tk by (simp add: sds_str_def)
  show "sdslen (sdssetalloc (s\<lparr>sbuf := ?b\<rparr>) n) = sdslen s" by simp
  show "sds_ok (sdssetalloc (s\<lparr>sbuf := ?b\<rparr>) n)"
    using a sa nth n t l unfolding sds_ok_def by simp
qed

lemma sds_ok_move:
  fixes garb :: "nat \<Rightarrow> byte"
  assumes ok: "sds_ok s" and n: "sdslen s \<le> n" "n < type_cap t" "t \<le> 4"
  defines "s' \<equiv> sdssetalloc (sdssetlen (s\<lparr>sflags := of_nat t, sbuf := take (sdslen s + 1) (sbuf s) @ drop (sdslen s + 1) (map garb [0..<n + 1])\<rparr>) (sdslen s)) n"
  shows "sds_ok s'" "sds_str s' = sds_str s" "sdslen s' = sdslen s" "t \<noteq> SDS_TYPE_5 \<Longrightarrow> sdsalloc s' = n"
proof -
  let ?b = "take (sdslen s + 1) (sbuf s) @ drop (sdslen s + 1) (map garb [0..<n + 1])"
  let ?u = "s\<lparr>sflags := of_nat t, sbuf := ?b\<rparr>"
  have l: "sdslen s < length (sbuf s)" "sbuf s ! sdslen s = 0" using ok by (auto simp: sds_ok_def)
  have b: "length ?b = n + 1" "?b ! sdslen s = 0" "take (sdslen s) ?b = take (sdslen s) (sbuf s)"
    using l n by (auto simp: nth_append min_def simp del: upt_Suc)
  have tu: "stype ?u = t" using n(3) by simp
  have len: "sdslen (sdssetlen ?u (sdslen s)) = sdslen s" using sdslen_setlen [of ?u "sdslen s"] n tu by simp
  then show s': "sdslen s' = sdslen s" by (simp add: s'_def)
  have buf: "sbuf s' = ?b" by (simp add: s'_def)
  then show "sds_str s' = sds_str s" using s' b by (simp add: sds_str_def)
  have t': "stype s' = t" using tu by (simp add: s'_def)
  show al: "sdsalloc s' = n" if "t \<noteq> SDS_TYPE_5"
  proof -
    have tt: "t \<in> {SDS_TYPE_8, SDS_TYPE_16, SDS_TYPE_32, SDS_TYPE_64}" "n < 2 ^ fld_bits t"
      using n that by (auto simp: sds_types type_cap_def)
    then have "salloc s' = n" unfolding s'_def sdssetalloc_def using tu by auto
    then show ?thesis using t' tt that unfolding sdsalloc_def by simp
  qed
  show "sds_ok s'"
  proof (cases "t = SDS_TYPE_5")
    case True
    then have "sdsalloc s' = sdslen s'" using t' by (simp add: sdsalloc_def sdslen_def)
    then show ?thesis using s' t' True b n buf unfolding sds_ok_def by simp
  next
    case False
    have "salloc s' = n" using al [OF False] t' False n(3) stype_le4 [of s'] by (auto simp: sdsalloc_def)
    then show ?thesis using s' t' False b n buf al [OF False] unfolding sds_ok_def by (simp add: type_cap_def)
  qed
qed

lemma sdsMakeRoomFor_spec:
  assumes ok: "sds_ok s" and small: "sdslen s + addlen < 2 ^ 63"
  shows "\<exists>s'. sdsMakeRoomFor garb s addlen = Some s' \<and> sds_ok s' \<and> sds_str s' = sds_str s \<and> sdslen s' = sdslen s \<and>
     sdslen s + addlen \<le> sdsalloc s'"
proof (cases "sdsavail s \<ge> addlen")
  case True
  then show ?thesis using ok sdsavail_ok [OF ok] by (auto simp: sdsMakeRoomFor_def sds_ok_def)
next
  case False
  define n where "n = (if sdslen s + addlen < SDS_MAX_PREALLOC then (sdslen s + addlen) * 2 else (sdslen s + addlen + SDS_MAX_PREALLOC) mod 2 ^ 64)"
  define t where "t = (if sdsReqType n = SDS_TYPE_5 then SDS_TYPE_8 else sdsReqType n)"
  have m: "(sdslen s + addlen) mod 2 ^ 64 = sdslen s + addlen" using small by simp
  have n: "sdslen s + addlen \<le> n" "n < 2 ^ 64" using small by (auto simp: n_def SDS_MAX_PREALLOC_def)
  have t: "n < type_cap t" "t \<le> 4" "t \<noteq> SDS_TYPE_5"
    using sdsReqType_cap [OF n(2)] by (auto simp: t_def type_cap_def sds_types fld_bits_def)
  show ?thesis
  proof (cases "stype s = t")
    case True
    then have "sdsMakeRoomFor garb s addlen = Some (sdssetalloc (s\<lparr>sbuf := realloc_bytes garb (sbuf s) (n + 1)\<rparr>) n)"
      using False unfolding sdsMakeRoomFor_def Let_def m n_def [symmetric] t_def [symmetric] by simp
    then show ?thesis using sds_ok_realloc [OF ok, of n garb] n(1) t True by simp
  next
    case F: False
    have l: "sdslen s < length (sbuf s)" using ok by (auto simp: sds_ok_def)
    have lt: "length (take (sdslen s + 1) (sbuf s)) = sdslen s + 1" using l by simp
    have g: "get_bytes (sbuf s) 0 (sdslen s + 1) = Some (take (sdslen s + 1) (sbuf s))" using l by (simp add: get_bytes_def)
    have p: "put_bytes (map garb [0..<n + 1]) 0 (take (sdslen s + 1) (sbuf s)) =
        Some (take (sdslen s + 1) (sbuf s) @ drop (sdslen s + 1) (map garb [0..<n + 1]))"
      using put_bytes_0 [of "take (sdslen s + 1) (sbuf s)" "map garb [0..<n + 1]"] l n(1) unfolding lt by (simp del: upt_Suc)
    have "sdsMakeRoomFor garb s addlen = Some (sdssetalloc (sdssetlen (s\<lparr>sflags := of_nat t,
        sbuf := take (sdslen s + 1) (sbuf s) @ drop (sdslen s + 1) (map garb [0..<n + 1])\<rparr>) (sdslen s)) n)"
      using False F g p unfolding sdsMakeRoomFor_def Let_def m n_def [symmetric] t_def [symmetric] by (simp del: upt_Suc)
    moreover have "sdslen s \<le> n" using n by simp
    ultimately show ?thesis using sds_ok_move [OF ok, of n t garb] n(1) t by simp
  qed
qed

lemma sdsRemoveFreeSpace_spec:
  assumes ok: "sds_ok s"
  shows "\<exists>s'. sdsRemoveFreeSpace garb s = Some s' \<and> sds_ok s' \<and> sds_str s' = sds_str s \<and> sdslen s' = sdslen s \<and>
     sdsalloc s' = sdslen s \<and> length (sbuf s') = sdslen s + 1"
proof -
  let ?n = "sdslen s"
  define t where "t = sdsReqType ?n"
  have l: "?n < length (sbuf s)" "sbuf s ! ?n = 0" "stype s \<le> 4" "?n \<le> sdsalloc s" using ok by (auto simp: sds_ok_def)
  have cap: "sdsalloc s < type_cap (stype s)" using sdsalloc_cap [OF ok] .
  have "type_cap (stype s) \<le> 2 ^ 64" using l(3) by (auto simp: type_cap_def fld_bits_def)
  then have n64: "?n < 2 ^ 64" using cap l by linarith
  have t: "?n < type_cap t" "t \<le> 4" using sdsReqType_cap [OF n64] by (auto simp: t_def)
  show ?thesis
  proof (cases "stype s = t \<or> SDS_TYPE_8 < t")
    case True
    then have e: "sdsRemoveFreeSpace garb s = Some (sdssetalloc (s\<lparr>sbuf := realloc_bytes garb (sbuf s) (?n + 1)\<rparr>) ?n)"
      by (simp add: sdsRemoveFreeSpace_def Let_def flip: t_def)
    show ?thesis
    proof (cases "stype s = SDS_TYPE_5")
      case T5: True
      have eq: "sdssetalloc (s\<lparr>sbuf := realloc_bytes garb (sbuf s) (?n + 1)\<rparr>) ?n = s\<lparr>sbuf := take (?n + 1) (sbuf s)\<rparr>"
        using T5 l(1) by (simp add: sdssetalloc_def sds_types realloc_bytes_def)
      have "sdsalloc s = ?n" using T5 by (simp add: sdsalloc_def sdslen_def)
      then show ?thesis using e l T5 unfolding eq by (auto simp: sds_ok_def sds_str_def)
    next
      case F5: False
      have "?n < type_cap (stype s)" using cap l by linarith
      then show ?thesis using e sds_ok_realloc [OF ok, of ?n garb] F5 by simp
    qed
  next
    case F: False
    have g: "get_bytes (sbuf s) 0 (?n + 1) = Some (take (?n + 1) (sbuf s))" using l by (simp add: get_bytes_def)
    have p: "put_bytes (map garb [0..<?n + 1]) 0 (take (?n + 1) (sbuf s)) =
        Some (take (?n + 1) (sbuf s) @ drop (?n + 1) (map garb [0..<?n + 1]))"
      using l by (subst put_bytes_0) (simp_all add: min_def del: upt_Suc)
    have e: "sdsRemoveFreeSpace garb s = Some (sdssetalloc (sdssetlen (s\<lparr>sflags := of_nat t,
        sbuf := take (?n + 1) (sbuf s) @ drop (?n + 1) (map garb [0..<?n + 1])\<rparr>) ?n) ?n)"
      using F g p by (simp add: sdsRemoveFreeSpace_def Let_def del: upt_Suc flip: t_def)
    note m = sds_ok_move [OF ok le_refl t, of garb]
    have "sdsalloc (sdssetalloc (sdssetlen (s\<lparr>sflags := of_nat t,
        sbuf := take (?n + 1) (sbuf s) @ drop (?n + 1) (map garb [0..<?n + 1])\<rparr>) ?n) ?n) = ?n"
    proof (cases "t = SDS_TYPE_5")
      case True
      have "sdsalloc s' = sdslen s'" if "stype s' = SDS_TYPE_5" for s' using that by (simp add: sdsalloc_def sdslen_def)
      then show ?thesis using m(3) t(2) True by simp
    next
      case False then show ?thesis by (rule m(4))
    qed
    then show ?thesis using e m(1-3) l by (auto simp del: upt_Suc)
  qed
qed

text \<open>Storing bytes and a new length into room that is there.\<close>

lemma sds_store:
  assumes ok: "sds_ok s" and n: "k \<le> sdslen s" "k + length xs \<le> sdsalloc s"
  shows "\<exists>b b'. put_bytes (sbuf s) k xs = Some b \<and> wr b (k + length xs) 0 = Some b' \<and>
    sds_ok (sdssetlen (s\<lparr>sbuf := b'\<rparr>) (k + length xs)) \<and>
    sds_str (sdssetlen (s\<lparr>sbuf := b'\<rparr>) (k + length xs)) = take k (sds_str s) @ xs"
proof -
  have al: "sdsalloc s < length (sbuf s)" using ok by (simp add: sds_ok_def)
  let ?b = "patch (sbuf s) k xs"
  have lb: "length ?b = length (sbuf s)" using n al by simp
  have p: "put_bytes (sbuf s) k xs = Some ?b" using n al by (simp add: put_bytes_def)
  have w: "wr ?b (k + length xs) 0 = Some (?b[k + length xs := 0])" using lb n al by simp
  have "take (k + length xs) (?b[k + length xs := 0]) = take k (sds_str s) @ xs"
    using n al by (simp add: patch_def sds_str_def min_def)
  then show ?thesis using p w sds_ok_setlen [OF ok, of "?b[k + length xs := 0]" "k + length xs"] lb n al by auto
qed

lemma sdscatlen_spec:
  assumes ok: "sds_ok s" and t: "n \<le> length t" "sdslen s + n < 2 ^ 63"
  shows "\<exists>s'. sdscatlen garb s t n = Some s' \<and> sds_ok s' \<and> sds_str s' = sds_str s @ take n t"
proof -
  have lt: "length (take n t) = n" using t by simp
  obtain s1 where s1: "sdsMakeRoomFor garb s n = Some s1" "sds_ok s1" "sds_str s1 = sds_str s" "sdslen s1 = sdslen s"
    "sdslen s + n \<le> sdsalloc s1" using sdsMakeRoomFor_spec [OF ok t(2)] by blast
  obtain b b' where b: "put_bytes (sbuf s1) (sdslen s) (take n t) = Some b" "wr b (sdslen s + n) 0 = Some b'"
     "sds_ok (sdssetlen (s1\<lparr>sbuf := b'\<rparr>) (sdslen s + n))"
     "sds_str (sdssetlen (s1\<lparr>sbuf := b'\<rparr>) (sdslen s + n)) = take (sdslen s) (sds_str s1) @ take n t"
    using sds_store [OF s1(2), of "sdslen s" "take n t"] s1 unfolding lt by auto
  have upd: "(sdssetlen (s1\<lparr>sbuf := b\<rparr>) m)\<lparr>sbuf := b'\<rparr> = sdssetlen (s1\<lparr>sbuf := b'\<rparr>) m" for m by (simp add: sdssetlen_def)
  have tk: "take (sdslen s) (sds_str s1) = sds_str s" using s1 length_sds_str [OF ok] by simp
  show ?thesis using s1(1) b t tk by (simp add: sdscatlen_def Let_def get_bytes_def upd)
qed

lemma strlen_cstr: "0 \<notin> set t \<Longrightarrow> strlen (t @ 0 # r) = Some (length t)"
  by (induction t) auto

lemma strlen_bound: "strlen b = Some n \<Longrightarrow> n < length b \<and> b ! n = 0 \<and> 0 \<notin> set (take n b)"
  by (induction b arbitrary: n rule: strlen.induct) (auto split: if_splits)

lemma sdscat_spec:
  assumes "sds_ok s" "0 \<notin> set t" "sdslen s + length t < 2 ^ 63"
  shows "\<exists>s'. sdscat garb s (t @ [0]) = Some s' \<and> sds_ok s' \<and> sds_str s' = sds_str s @ t"
  using sdscatlen_spec [OF assms(1), of "length t" "t @ [0]" garb] assms by (simp add: sdscat_def strlen_cstr)

lemma sdscatsds_spec:
  assumes "sds_ok s" "sds_ok t" "sdslen s + sdslen t < 2 ^ 63"
  shows "\<exists>s'. sdscatsds garb s t = Some s' \<and> sds_ok s' \<and> sds_str s' = sds_str s @ sds_str t"
  using sdscatlen_spec [OF assms(1), of "sdslen t" "sbuf t" garb] assms(2,3)
  by (simp add: sdscatsds_def sds_ok_def flip: sds_str_def)

lemma sdscpylen_spec:
  assumes ok: "sds_ok s" and t: "n \<le> length t" "n < 2 ^ 63" 
  shows "\<exists>s'. sdscpylen garb s t n = Some s' \<and> sds_ok s' \<and> sds_str s' = take n t"
proof -
  have lt: "length (take n t) = n" using t by simp
  have "\<exists>s1. (if sdsalloc s < n then sdsMakeRoomFor garb s (n - sdslen s) else Some s) = Some s1 \<and> sds_ok s1 \<and> n \<le> sdsalloc s1"
  proof (cases "sdsalloc s < n")
    case True
    moreover have "sdslen s \<le> sdsalloc s" using ok by (simp add: sds_ok_def)
    ultimately show ?thesis using sdsMakeRoomFor_spec [OF ok, of "n - sdslen s" garb] t by auto
  next
    case False then show ?thesis using ok by simp
  qed
  then obtain s1 where s1: "(if sdsalloc s < n then sdsMakeRoomFor garb s (n - sdslen s) else Some s) = Some s1" "sds_ok s1" "n \<le> sdsalloc s1" by blast
  obtain b b' where b: "put_bytes (sbuf s1) 0 (take n t) = Some b" "wr b n 0 = Some b'"
     "sds_ok (sdssetlen (s1\<lparr>sbuf := b'\<rparr>) n)" "sds_str (sdssetlen (s1\<lparr>sbuf := b'\<rparr>) n) = take n t"
    using sds_store [OF s1(2), of 0 "take n t"] s1 unfolding lt by auto
  show ?thesis using s1(1) b t by (simp add: sdscpylen_def get_bytes_def)
qed

lemma sdsgrowzero_spec:
  assumes ok: "sds_ok s" and n: "n < 2 ^ 63"
  shows "\<exists>s'. sdsgrowzero garb s n = Some s' \<and> sds_ok s' \<and> sds_str s' = sds_str s @ replicate (n - sdslen s) 0"
proof (cases "n \<le> sdslen s")
  case True then show ?thesis using ok by (simp add: sdsgrowzero_def)
next
  case False
  obtain s1 where s1: "sdsMakeRoomFor garb s (n - sdslen s) = Some s1" "sds_ok s1" "sds_str s1 = sds_str s" "sdslen s1 = sdslen s"
    "n \<le> sdsalloc s1" using sdsMakeRoomFor_spec [OF ok, of "n - sdslen s" garb] n False by auto
  let ?b = "patch (sbuf s1) (sdslen s) (replicate (n - sdslen s + 1) 0)"
  have al: "sdsalloc s1 < length (sbuf s1)" using s1(2) by (simp add: sds_ok_def)
  have p: "put_bytes (sbuf s1) (sdslen s) (replicate (n - sdslen s + 1) 0) = Some ?b"
    using s1 al False by (simp add: put_bytes_def del: replicate_Suc)
  have lb: "length ?b = length (sbuf s1)" using s1 al False by simp
  have nz: "?b ! n = 0" using al s1 False by (auto simp: patch_def nth_append min_def simp del: replicate_Suc)
  have "sdslen s < length (sbuf s)" using ok by (auto simp: sds_ok_def)
  then have "take n ?b = sds_str s @ replicate (n - sdslen s) 0"
    using al s1 False by (simp add: patch_def min_def sds_str_def flip: s1(3) del: replicate_Suc)
  then show ?thesis using p s1(1) False sds_ok_setlen [OF s1(2) lb s1(5) nz] by (simp add: sdsgrowzero_def Let_def)
qed

lemma sdsnewlen_spec:
  assumes p: "n \<le> length p" "n < 2 ^ 63"
  shows "\<exists>s. sdsnewlen garb (Some p) n = Some s \<and> sds_ok s \<and> sds_str s = take n p \<and> sdslen s = n \<and> sdsalloc s = n"
proof -
  define t where "t = (if sdsReqType n = SDS_TYPE_5 \<and> n = 0 then SDS_TYPE_8 else sdsReqType n)"
  have n64: "n < 2 ^ 64" using p by simp
  have t: "t \<le> 4" "n < type_cap t" using sdsReqType_cap [OF n64] by (auto simp: t_def type_cap_def sds_types fld_bits_def)
  let ?m = "map garb [0..<n + 1]"
  let ?b = "take n p @ [0]"
  have lp: "length (take n p) = n" using p by simp
  have g: "get_bytes p 0 n = Some (take n p)" using p by (simp add: get_bytes_def)
  have m: "drop n ?m = [garb n]" by simp
  have pb: "put_bytes ?m 0 (take n p) = Some (take n p @ [garb n])"
    using put_bytes_0 [of "take n p" ?m] m lp by (simp del: upt_Suc length_take)
  have w: "wr (take n p @ [garb n]) n 0 = Some ?b"
    using lp by (simp add: wr_def list_update_append del: length_take)
  show ?thesis
  proof (cases "t = SDS_TYPE_5")
    case True
    let ?s = "\<lparr>sflags = of_nat t OR push_bit 3 (of_nat n), slen = 0, salloc = 0, sbuf = ?b\<rparr>"
    have n0: "n \<noteq> 0" using True by (auto simp: t_def sds_types split: if_splits)
    have n: "n < 32" using t True by (simp add: type_cap_def)
    have e: "sdsnewlen garb (Some p) n = Some ?s"
      using True g pb w n0 unfolding sdsnewlen_def Let_def t_def [symmetric] by (simp del: upt_Suc)
    have ty: "stype ?s = SDS_TYPE_5" using flags5_type True by (simp add: stype_def SDS_TYPE_5_def)
    have "sdslen ?s = n" "sdsalloc ?s = n" using ty flags5_len [OF n] True by (simp_all add: sdslen_def sdsalloc_def SDS_TYPE_5_def)
    then show ?thesis using e p ty by (simp add: sds_ok_def sds_str_def nth_append min_def SDS_TYPE_5_def)
  next
    case False
    then have "n mod 2 ^ fld_bits t = n" using t by (simp add: type_cap_def)
    then have e: "sdsnewlen garb (Some p) n = Some \<lparr>sflags = of_nat t, slen = n, salloc = n, sbuf = ?b\<rparr>"
      using False g pb w unfolding sdsnewlen_def Let_def t_def [symmetric] by (cases "n = 0") (simp_all del: upt_Suc, simp)
    show ?thesis using e t False p
      sds_ok_new [of t n n ?b "\<lparr>sflags = of_nat t, slen = n, salloc = n, sbuf = ?b\<rparr>"]
      by (simp add: SDS_TYPE_5_def nth_append min_def)
  qed
qed

lemma sdsempty_spec: "\<exists>s. sdsempty garb = Some s \<and> sds_ok s \<and> sds_str s = [] \<and> sdslen s = 0"
  using sdsnewlen_spec [of 0 "[0]" garb] by (auto simp: sdsempty_def)

lemma sdsdup_spec:
  assumes "sds_ok s" "sdslen s < 2 ^ 63"
  shows "\<exists>s'. sdsdup garb s = Some s' \<and> sds_ok s' \<and> sds_str s' = sds_str s"
  using sdsnewlen_spec [of "sdslen s" "sbuf s" garb] assms by (auto simp: sdsdup_def sds_str_def sds_ok_def)

section \<open>Shortening in place\<close>

lemma sdsclear_spec:
  assumes ok: "sds_ok s"
  shows "\<exists>s'. sdsclear s = Some s' \<and> sds_ok s' \<and> sds_str s' = []"
proof -
  have l: "0 < length (sbuf s)" using ok by (auto simp: sds_ok_def)
  have e: "(sdssetlen s 0)\<lparr>sbuf := b\<rparr> = sdssetlen (s\<lparr>sbuf := b\<rparr>) 0" for b by (simp add: sdssetlen_def)
  show ?thesis using sds_ok_setlen [OF ok, of "(sbuf s)[0 := 0]" 0] l by (simp add: sdsclear_def e)
qed

text \<open>Keeping the \<open>n\<close> bytes from offset \<open>k\<close> on: the effect of the moves in \<open>sdsrange\<close> and \<open>sdstrim\<close>.\<close>

lemma sds_keep:
  assumes ok: "sds_ok s" and n: "k + n \<le> sdslen s" and c: "\<not> c \<Longrightarrow> k = 0 \<or> n = 0"
  shows "\<exists>b b'. (if c then memmove (sbuf s) 0 k n else Some (sbuf s)) = Some b \<and> wr b n 0 = Some b' \<and>
    sds_ok (sdssetlen (s\<lparr>sbuf := b'\<rparr>) n) \<and> sds_str (sdssetlen (s\<lparr>sbuf := b'\<rparr>) n) = take n (drop k (sds_str s))"
proof -
  have l: "sdslen s \<le> sdsalloc s" "sdsalloc s < length (sbuf s)" using ok by (auto simp: sds_ok_def)
  define b where "b = (if c then take n (drop k (sbuf s)) @ drop n (sbuf s) else sbuf s)"
  have lb: "length b = length (sbuf s)" using n l by (auto simp: b_def min_def)
  have m: "(if c then memmove (sbuf s) 0 k n else Some (sbuf s)) = Some b"
    using n l by (auto simp: b_def memmove_def get_bytes_def put_bytes_0 min_def)
  have "take n b = take n (drop k (sds_str s))" using n l c by (auto simp: b_def sds_str_def min_def take_drop)
  then have tk: "take n (b[n := 0]) = take n (drop k (sds_str s))" by simp
  have w: "wr b n 0 = Some (b[n := 0])" using lb n l by simp
  show ?thesis using m w tk sds_ok_setlen [OF ok, of "b[n := 0]" n] lb n l by auto
qed

text \<open>The bytes from \<open>start\<close> to \<open>e\<close>, both included, negative positions counted from the end.\<close>

definition range_spec :: "int \<Rightarrow> int \<Rightarrow> 'a list \<Rightarrow> 'a list" where
  "range_spec start e xs =
    (let len = int (length xs);
         a = (if start < 0 then max 0 (len + start) else start);
         b = (if e < 0 then max 0 (len + e) else min e (len - 1))
     in take (nat (b - a + 1)) (drop (nat a) xs))"

lemma to_int_small: "- (2 ^ 31) \<le> x \<Longrightarrow> x < 2 ^ 31 \<Longrightarrow> to_int x = x"
  by (simp add: to_int_def sint_sbintrunc' signed_take_bit_int_eq_self)

lemma sdsrange_spec:
  assumes ok: "sds_ok s" and l: "sdslen s < 2 ^ 31" and r: "- (2 ^ 31) \<le> start" "- (2 ^ 31) \<le> e"
  shows "\<exists>s'. sdsrange s start e = Some s' \<and> sds_ok s' \<and> sds_str s' = range_spec start e (sds_str s)"
proof (cases "sdslen s = 0")
  case True
  then have "sds_str s = []" by (simp add: sds_str_def)
  then show ?thesis using ok True by (simp add: sdsrange_def range_spec_def Let_def)
next
  case False
  let ?len = "int (sdslen s)"
  have len: "0 < ?len" "?len < 2 ^ 31" using False l by auto
  define a where "a = (if start < 0 then max 0 (?len + start) else start)"
  define b where "b = (if e < 0 then max 0 (?len + e) else e)"
  have ti: "to_int ?len = ?len" "to_int (?len - 1) = ?len - 1"
    "start < 0 \<Longrightarrow> to_int (?len + start) = ?len + start" "e < 0 \<Longrightarrow> to_int (?len + e) = ?len + e"
    using len r by (simp_all add: to_int_small)
  have ab: "0 \<le> a" "0 \<le> b" by (auto simp: a_def b_def)
  have a': "(if start < 0 then (let st = to_int (?len + start) in if st < 0 then 0 else st) else start) = a"
    "(if e < 0 then (let e' = to_int (?len + e) in if e' < 0 then 0 else e') else e) = b"
    using ti by (auto simp: a_def b_def Let_def)
  define n where "n = (if a > b \<or> a \<ge> ?len then 0 else min b (?len - 1) - a + 1)"
  have n: "0 \<le> n" "n = 0 \<or> a + n \<le> ?len" using ab by (auto simp: n_def)
  define k where "k = (if a > b then 0 else a)"
  have eq: "sdsrange s start e = do {
      buf \<leftarrow> (if k \<noteq> 0 \<and> n \<noteq> 0 then memmove (sbuf s) 0 (nat k) (nat n) else Some (sbuf s));
      buf \<leftarrow> wr buf (nat n) 0;
      Some (sdssetlen (s\<lparr>sbuf := buf\<rparr>) (nat n)) }"
    using False len ab unfolding sdsrange_def Let_def [of "int (sdslen s)"] Let_def [of "if start < 0 then _ else _"]
      Let_def [of "if e < 0 then _ else _"] a' ti
    by (auto simp: Let_def n_def k_def)
  have rs: "range_spec start e (sds_str s) = take (nat n) (drop (nat a) (sds_str s))"
  proof -
    have ls: "int (length (sds_str s)) = ?len" using length_sds_str [OF ok] by simp
    have "range_spec start e (sds_str s) = take (nat (min b (?len - 1) - a + 1)) (drop (nat a) (sds_str s))"
      using len by (auto simp: range_spec_def ls Let_def a_def b_def min_def max_def)
    moreover have "drop (nat a) (sds_str s) = []" if "a \<ge> ?len" using that length_sds_str [OF ok] by simp
    ultimately show ?thesis using ab by (auto simp: n_def min_def)
  qed
  show ?thesis
  proof (cases "n = 0")
    case True
    then show ?thesis using sds_keep [OF ok, of 0 0 False] eq rs by auto
  next
    case F: False
    then have nk: "a + n \<le> ?len" "k = a" using n by (auto simp: k_def n_def split: if_splits)
    have le: "nat a + nat n \<le> sdslen s" using nk ab n(1) by linarith
    have kz: "(k \<noteq> 0) \<longleftrightarrow> nat a \<noteq> 0" using nk ab by auto
    show ?thesis using sds_keep [OF ok le, of "k \<noteq> 0 \<and> n \<noteq> 0"] kz F ab eq rs nk by auto
  qed
qed

lemma trim_left_spec:
  assumes "e < int (length b)" "0 \<le> sp" "sp \<le> e + 1"
  shows "trim_left b cset sp e = Some (sp + int (length (takeWhile (\<lambda>c. c = 0 \<or> c \<in> set cset) (take (nat (e + 1 - sp)) (drop (nat sp) b)))))"
  using assms
proof (induction b cset sp e rule: trim_left.induct)
  case (1 b cset sp e)
  show ?case
  proof (cases "sp \<le> e")
    case True
    have r: "rd b (nat sp) = Some (b ! nat sp)" using 1(2,3) True by simp
    have dr: "take (nat (e + 1 - sp)) (drop (nat sp) b) = b ! nat sp # take (nat (e + 1 - (sp + 1))) (drop (nat (sp + 1)) b)"
    proof -
      have "nat (e + 1 - sp) = Suc (nat (e + 1 - (sp + 1)))" "nat (sp + 1) = Suc (nat sp)" "nat sp < length b" using True 1(2,3) by auto
      then show ?thesis using Cons_nth_drop_Suc [of "nat sp" b] by (metis take_Suc_Cons)
    qed
    show ?thesis
    proof (cases "b ! nat sp = 0 \<or> b ! nat sp \<in> set cset")
      case T: True
      show ?thesis using 1(1) [OF True r] T True 1(2-4) r unfolding trim_left.simps [of b cset sp e] dr by simp
    next
      case False
      then show ?thesis using True r unfolding trim_left.simps [of b cset sp e] dr by simp
    qed
  next
    case False
    then show ?thesis by (simp add: trim_left.simps [of b cset sp e])
  qed
qed

lemma trim_right_spec:
  assumes "ep < int (length b)" "0 \<le> sp" "sp \<le> ep"
  shows "trim_right b cset sp ep = Some (ep - int (length (takeWhile (\<lambda>c. c = 0 \<or> c \<in> set cset) (rev (take (nat (ep - sp)) (drop (nat sp + 1) b))))))"
  using assms
proof (induction b cset sp ep rule: trim_right.induct)
  case (1 b cset sp ep)
  show ?case
  proof (cases "ep > sp")
    case True
    have r: "rd b (nat ep) = Some (b ! nat ep)" using 1(2,3) True by simp
    have dr: "take (nat (ep - sp)) (drop (nat sp + 1) b) = take (nat (ep - 1 - sp)) (drop (nat sp + 1) b) @ [b ! nat ep]"
    proof -
      have e: "nat (ep - sp) = Suc (nat (ep - 1 - sp))" "nat (ep - 1 - sp) < length (drop (nat sp + 1) b)"
        "nat sp + 1 + nat (ep - 1 - sp) = nat ep" using True 1(2,3) by auto
      then show ?thesis using take_Suc_conv_app_nth [OF e(2)] 1(2,3) by (simp add: nth_drop)
    qed
    show ?thesis
    proof (cases "b ! nat ep = 0 \<or> b ! nat ep \<in> set cset")
      case T: True
      show ?thesis using 1(1) [OF True r] T True 1(2-4) r unfolding trim_right.simps [of b cset sp ep] dr by simp
    next
      case False
      then show ?thesis using True r unfolding trim_right.simps [of b cset sp ep] dr by simp
    qed
  next
    case False
    then show ?thesis using 1(4) by (subst trim_right.simps) simp
  qed
qed

text \<open>Dropping a class of bytes at both ends.\<close>

definition trim_spec :: "('a \<Rightarrow> bool) \<Rightarrow> 'a list \<Rightarrow> 'a list" where
  "trim_spec P xs = rev (dropWhile P (rev (dropWhile P xs)))"

lemma trim_spec_alt:
  assumes "takeWhile P xs \<noteq> xs"
  defines "k \<equiv> length (takeWhile P xs)"
  defines "m \<equiv> length (takeWhile P (rev (drop (Suc k) xs)))"
  shows "trim_spec P xs = take (length xs - m - k) (drop k xs)" "k + m < length xs"
proof -
  have k: "k < length xs" using assms(1) by (metis k_def length_takeWhile_le le_neq_implies_less takeWhile_eq_take take_all_iff order_refl)
  then have d: "dropWhile P xs = xs ! k # drop (Suc k) xs" by (simp add: k_def dropWhile_eq_drop Cons_nth_drop_Suc)
  have np: "\<not> P (xs ! k)" using k nth_length_takeWhile [of P xs] by (simp add: k_def)
  have m: "m \<le> length (drop (Suc k) xs)" unfolding m_def using length_takeWhile_le [of P "rev (drop (Suc k) xs)"] by simp
  then show "k + m < length xs" using k by simp
  have "dropWhile P (rev (dropWhile P xs)) = drop m (rev (drop (Suc k) xs)) @ [xs ! k]"
  proof -
    have "dropWhile P (rev ys @ [y]) = drop (length (takeWhile P (rev ys))) (rev ys) @ [y]" if "\<not> P y" for ys :: "'a list" and y
      using that by (induction ys rule: rev_induct) (auto simp: dropWhile_append dropWhile_eq_drop)
    then show ?thesis unfolding d m_def using np by simp
  qed
  moreover have rv: "rev (drop m (rev ys)) = take (length ys - m) ys" for ys :: "'a list" by (simp add: rev_drop)
  ultimately have "trim_spec P xs = xs ! k # take (length xs - Suc k - m) (drop (Suc k) xs)"
    unfolding trim_spec_def using rv [of "drop (Suc k) xs"] m by simp
  also have "\<dots> = take (length xs - m - k) (xs ! k # drop (Suc k) xs)"
  proof -
    have "length xs - m - k = Suc (length xs - Suc k - m)" using k m by simp
    then show ?thesis by simp
  qed
  finally show "trim_spec P xs = take (length xs - m - k) (drop k xs)" using k by (simp add: Cons_nth_drop_Suc)
qed

lemma sdstrim_spec:
  assumes ok: "sds_ok s"
  shows "\<exists>s'. sdstrim s cset = Some s' \<and> sds_ok s' \<and> sds_str s' = trim_spec (\<lambda>c. c = 0 \<or> c \<in> set cset) (sds_str s)"
proof -
  let ?P = "\<lambda>c. c = 0 \<or> c \<in> set cset"
  let ?n = "sdslen s" and ?xs = "sds_str s"
  have l: "?n < length (sbuf s)" using ok by (auto simp: sds_ok_def)
  have lx: "length ?xs = ?n" by (rule length_sds_str [OF ok])
  define k where "k = length (takeWhile ?P ?xs)"
  have tl: "trim_left (sbuf s) cset 0 (int ?n - 1) = Some (int k)"
    using trim_left_spec [of "int ?n - 1" "sbuf s" 0 cset] l by (simp add: k_def sds_str_def)
  show ?thesis
  proof (cases "takeWhile ?P ?xs = ?xs")
    case True
    then have k: "k = ?n" using lx by (simp only: k_def)
    have tr: "trim_right (sbuf s) cset (int ?n) (int ?n - 1) = Some (int ?n - 1)" by (simp add: trim_right.simps)
    have d: "dropWhile ?P ?xs = []" using True by (metis dropWhile_eq_Nil_conv takeWhile_eq_all_conv)
    have "trim_spec ?P ?xs = []" unfolding trim_spec_def d by simp
    then show ?thesis using tl tr k sds_keep [OF ok, of ?n 0 "int ?n \<noteq> 0"] by (auto simp: sdstrim_def)
  next
    case False
    define m where "m = length (takeWhile ?P (rev (drop (Suc k) ?xs)))"
    note t = trim_spec_alt [OF False, folded k_def, folded m_def]
    have km: "k + m < ?n" using t(2) lx by simp
    have "take (nat (int ?n - 1 - int k)) (drop (nat (int k) + 1) (sbuf s)) = drop (Suc k) ?xs"
      using km by (simp add: sds_str_def drop_take nat_diff_distrib')
    then have tr: "trim_right (sbuf s) cset (int k) (int ?n - 1) = Some (int ?n - 1 - int m)"
      using trim_right_spec [of "int ?n - 1" "sbuf s" "int k" cset] l km by (simp add: m_def)
    have len: "nat (int ?n - 1 - int m - int k + 1) = ?n - m - k" using km by linarith
    have "k + (?n - m - k) \<le> ?n" using km by simp
    from sds_keep [OF ok this, of "int k \<noteq> 0"] show ?thesis using tl tr km len t(1) lx
      by (auto simp: sdstrim_def Let_def)
  qed
qed

section \<open>Comparing\<close>

lemma memcmp_same_length:
  "length a = length b \<Longrightarrow> (memcmp a b = 0 \<longleftrightarrow> a = b) \<and> (memcmp a b < 0 \<longleftrightarrow> (a, b) \<in> lexord {(x, y). x < y})"
  by (induction a b rule: memcmp.induct) auto

lemma lexord_append_same_length:
  "length a = length b \<Longrightarrow> a \<noteq> b \<Longrightarrow> (a @ u, b @ v) \<in> lexord {(x :: byte, y). x < y} \<longleftrightarrow> (a, b) \<in> lexord {(x, y). x < y}"
  by (induction a b rule: list_induct2) auto

lemma sdscmp_spec:
  assumes "sds_ok a" "sds_ok b" "sdslen a < 2 ^ 31" "sdslen b < 2 ^ 31"
  shows "\<exists>c. sdscmp a b = Some c \<and> (c = 0 \<longleftrightarrow> sds_str a = sds_str b) \<and> (c < 0 \<longleftrightarrow> (sds_str a, sds_str b) \<in> lexord {(x, y). x < y})"
proof -
  let ?m = "min (sdslen a) (sdslen b)"
  let ?a = "take ?m (sds_str a)" and ?b = "take ?m (sds_str b)"
  have l: "sdslen a < length (sbuf a)" "sdslen b < length (sbuf b)" using assms by (auto simp: sds_ok_def)
  have len: "length (sds_str a) = sdslen a" "length (sds_str b) = sdslen b" using assms length_sds_str by auto
  have g: "get_bytes (sbuf a) 0 ?m = Some ?a" "get_bytes (sbuf b) 0 ?m = Some ?b" using l by (simp_all add: get_bytes_def sds_str_def min_def)
  have ti: "to_int (int (sdslen a) - int (sdslen b)) = int (sdslen a) - int (sdslen b)" using assms(3,4) by (intro to_int_small) auto
  have mn: "(if sdslen a < sdslen b then sdslen a else sdslen b) = ?m" by (simp add: min_def)
  have e: "sdscmp a b = Some (if memcmp ?a ?b = 0 then int (sdslen a) - int (sdslen b) else memcmp ?a ?b)"
    unfolding sdscmp_def Let_def min_def [symmetric] mn using g ti by simp
  have mc: "(memcmp ?a ?b = 0 \<longleftrightarrow> ?a = ?b)" "(memcmp ?a ?b < 0 \<longleftrightarrow> (?a, ?b) \<in> lexord {(x, y). x < y})"
    using memcmp_same_length [of ?a ?b] len by auto
  have sa: "sds_str a = ?a @ drop ?m (sds_str a)" "sds_str b = ?b @ drop ?m (sds_str b)" by simp_all
  show ?thesis
  proof (cases "?a = ?b")
    case True
    have "(sds_str a, sds_str b) \<in> lexord {(x, y). x < y} \<longleftrightarrow> (drop ?m (sds_str a), drop ?m (sds_str b)) \<in> lexord {(x, y). x < y}"
      using lexord_same_pref_iff [of ?a "drop ?m (sds_str a)" "drop ?m (sds_str b)" "{(x, y). x < y}"] True sa by (metis (no_types, lifting) case_prodD less_irrefl mem_Collect_eq)
    also have "\<dots> \<longleftrightarrow> sdslen a < sdslen b"
    proof (cases "sdslen a < sdslen b")
      case T: True
      then have "drop ?m (sds_str a) = []" "drop ?m (sds_str b) \<noteq> []" using len by auto
      then show ?thesis using T by (cases "drop ?m (sds_str b)") auto
    next
      case F: False
      then have "drop ?m (sds_str b) = []" using len by auto
      then show ?thesis using F by simp
    qed
    finally have lx: "(sds_str a, sds_str b) \<in> lexord {(x, y). x < y} \<longleftrightarrow> sdslen a < sdslen b" .
    have "sds_str a = sds_str b \<longleftrightarrow> sdslen a = sdslen b" using True len sa by (metis append_take_drop_id min.idem take_all_iff order_refl)
    then show ?thesis using e mc True lx by simp
  next
    case False
    have "(sds_str a, sds_str b) \<in> lexord {(x, y). x < y} \<longleftrightarrow> (?a, ?b) \<in> lexord {(x, y). x < y}"
    proof -
      have "length ?a = length ?b" using len by simp
      from lexord_append_same_length [OF this False] show ?thesis using sa by metis
    qed
    moreover have "sds_str a \<noteq> sds_str b" using False by auto
    ultimately show ?thesis using e mc False by simp
  qed
qed

text \<open>
  \<open>sdsIncrLen\<close> after bytes were written behind the end: inside its precondition it moves the end and terminates
  the string there.
\<close>

lemma sdsIncrLen_spec:
  assumes ok: "sds_ok s" and i: "0 \<le> int (sdslen s) + incr" "incr \<le> int (sdsavail s)" and n: "stype s \<noteq> SDS_TYPE_5"
  shows "\<exists>s'. sdsIncrLen s incr = Some s' \<and> sds_ok s' \<and> sds_str s' = take (nat (int (sdslen s) + incr)) (sbuf s)"
proof -
  have t: "stype s \<in> {SDS_TYPE_8, SDS_TYPE_16, SDS_TYPE_32, SDS_TYPE_64}" using ok n stype_le4 by (auto simp: sds_ok_def)
  have f: "sdslen s = slen s" "sdsalloc s = salloc s" using t n by (auto simp: sdslen_def sdsalloc_def)
  have cap: "slen s \<le> salloc s" "salloc s < 2 ^ fld_bits (stype s)" "salloc s < length (sbuf s)" "stype s \<le> 4"
    using ok n f by (auto simp: sds_ok_def)
  have av: "int (sdsavail s) = int (salloc s) - int (slen s)" using sdsavail_ok [OF ok] f cap by (simp add: of_nat_diff)
  have c2: "int (salloc s) < 2 ^ fld_bits (stype s)"
    using cap(2) by (metis of_nat_less_numeral_power_cancel_iff)
  have md: "(int (salloc s) - int (slen s)) mod 2 ^ fld_bits (stype s) = int (salloc s) - int (slen s)"
    using c2 cap(1) by (intro mod_pos_pos_trivial) linarith+
  let ?n = "nat (int (slen s) + incr)"
  have n': "int (slen s) + incr < 2 ^ fld_bits (stype s)" "?n \<le> salloc s" using i av f c2 by linarith+
  have nm: "nat ((int (slen s) + incr) mod 2 ^ fld_bits (stype s)) = ?n"
    using n'(1) i(1) f by (subst mod_pos_pos_trivial) linarith+
  have w: "wr (sbuf s) ?n 0 = Some ((sbuf s)[?n := 0])" using n' cap by simp
  have pre: "(incr \<ge> 0 \<and> int (salloc s) - int (slen s) \<ge> incr) \<or> (incr < 0 \<and> int (slen s) \<ge> - incr)" using i av f by auto
  have "sdsIncrLen s incr = Some (s\<lparr>slen := ?n, sbuf := (sbuf s)[?n := 0]\<rparr>)"
  proof (cases "stype s \<in> {SDS_TYPE_8, SDS_TYPE_16}")
    case True
    then show ?thesis using n pre w unfolding sdsIncrLen_def if_not_P [OF n] if_P [OF True] if_P [OF pre] nm Let_def by simp
  next
    case False
    then have T: "stype s \<in> {SDS_TYPE_32, SDS_TYPE_64}" using t by simp
    show ?thesis using w unfolding sdsIncrLen_def if_not_P [OF n] if_not_P [OF False] if_P [OF T] md if_P [OF pre] nm Let_def by simp
  qed
  moreover have "s\<lparr>slen := ?n, sbuf := (sbuf s)[?n := 0]\<rparr> = sdssetlen (s\<lparr>sbuf := (sbuf s)[?n := 0]\<rparr>) ?n"
  proof -
    have "?n < 2 ^ fld_bits (stype s)" using n'(2) cap(2) by (rule le_less_trans)
    then show ?thesis using t n unfolding sdssetlen_def by (simp del: nat_less_iff zless_nat_eq_int_zless)
  qed
  ultimately show ?thesis using sds_ok_setlen [OF ok, of "(sbuf s)[?n := 0]" ?n] n' cap f by simp
qed

section \<open>Refinement\<close>

text \<open>
  A program of string operations, run on the buffers of sds.c and on plain byte lists. \<open>Cat\<close> and \<open>Cpy\<close>
  carry the bytes behind the pointer argument and how many of them are used.
\<close>

datatype sds_op = Cat "byte list" nat | Cpy "byte list" nat | GrowZero nat | Range int int | Trim "byte list" |
  Clear | MakeRoom nat | RemoveFree

fun sds_exec :: "(nat \<Rightarrow> byte) \<Rightarrow> sds_op \<Rightarrow> sds \<Rightarrow> sds option" where
  "sds_exec garb (Cat t n) s = sdscatlen garb s t n"
| "sds_exec garb (Cpy t n) s = sdscpylen garb s t n"
| "sds_exec garb (GrowZero n) s = sdsgrowzero garb s n"
| "sds_exec garb (Range a b) s = sdsrange s a b"
| "sds_exec garb (Trim cset) s = sdstrim s cset"
| "sds_exec garb Clear s = sdsclear s"
| "sds_exec garb (MakeRoom n) s = sdsMakeRoomFor garb s n"
| "sds_exec garb RemoveFree s = sdsRemoveFreeSpace garb s"

fun str_exec :: "sds_op \<Rightarrow> byte list \<Rightarrow> byte list" where
  "str_exec (Cat t n) xs = xs @ take n t"
| "str_exec (Cpy t n) xs = take n t"
| "str_exec (GrowZero n) xs = xs @ replicate (n - length xs) 0"
| "str_exec (Range a b) xs = range_spec a b xs"
| "str_exec (Trim cset) xs = trim_spec (\<lambda>c. c = 0 \<or> c \<in> set cset) xs"
| "str_exec Clear xs = []"
| "str_exec (MakeRoom n) xs = xs"
| "str_exec RemoveFree xs = xs"

text \<open>How much an operation can grow the string, and that its arguments are in range.\<close>

fun op_size :: "sds_op \<Rightarrow> nat" where
  "op_size (Cat t n) = n"
| "op_size (Cpy t n) = n"
| "op_size (GrowZero n) = n"
| "op_size (MakeRoom n) = n"
| "op_size _ = 0"

fun op_ok :: "sds_op \<Rightarrow> bool" where
  "op_ok (Cat t n) = (n \<le> length t)"
| "op_ok (Cpy t n) = (n \<le> length t)"
| "op_ok (Range a b) = (- (2 ^ 31) \<le> a \<and> - (2 ^ 31) \<le> b)"
| "op_ok _ = True"

primrec sds_run :: "(nat \<Rightarrow> byte) \<Rightarrow> sds_op list \<Rightarrow> sds \<Rightarrow> sds option" where
  "sds_run garb [] s = Some s"
| "sds_run garb (p # ps) s = do { s \<leftarrow> sds_exec garb p s; sds_run garb ps s }"

lemma length_trim_spec: "length (trim_spec P xs) \<le> length xs"
  unfolding trim_spec_def length_rev by (metis length_dropWhile_le length_rev order_trans)

lemma length_str_exec: "op_ok p \<Longrightarrow> length (str_exec p xs) \<le> length xs + op_size p"
  using length_trim_spec by (cases p) (auto simp: range_spec_def Let_def)

lemma sds_exec_spec:
  assumes "sds_ok s" "op_ok p" "sdslen s + op_size p < 2 ^ 31"
  shows "\<exists>s'. sds_exec garb p s = Some s' \<and> sds_ok s' \<and> sds_str s' = str_exec p (sds_str s)"
proof (cases p)
  case (Cat t n) then show ?thesis using sdscatlen_spec [OF assms(1), of n t garb] assms by simp
next
  case (Cpy t n) then show ?thesis using sdscpylen_spec [OF assms(1), of n t garb] assms by simp
next
  case (GrowZero n) then show ?thesis using sdsgrowzero_spec [OF assms(1), of n garb] assms length_sds_str [OF assms(1)] by simp
next
  case (Range a b) then show ?thesis using sdsrange_spec [OF assms(1), of a b] assms by simp
next
  case (Trim cset) then show ?thesis using sdstrim_spec [OF assms(1)] by simp
next
  case Clear then show ?thesis using sdsclear_spec [OF assms(1)] by simp
next
  case (MakeRoom n) then show ?thesis using sdsMakeRoomFor_spec [OF assms(1), of n garb] assms by auto
next
  case RemoveFree then show ?thesis using sdsRemoveFreeSpace_spec [OF assms(1), of garb] by auto
qed

lemma sds_run_spec:
  "sds_ok s \<Longrightarrow> \<forall>p \<in> set ps. op_ok p \<Longrightarrow> sdslen s + sum_list (map op_size ps) < 2 ^ 31 \<Longrightarrow>
     \<exists>s'. sds_run garb ps s = Some s' \<and> sds_ok s' \<and> sds_str s' = fold str_exec ps (sds_str s)"
proof (induction ps arbitrary: s)
  case Nil then show ?case by simp
next
  case (Cons p ps)
  obtain s1 where s1: "sds_exec garb p s = Some s1" "sds_ok s1" "sds_str s1 = str_exec p (sds_str s)"
    using sds_exec_spec [OF Cons.prems(1), of p garb] Cons.prems by auto
  have "sdslen s1 \<le> sdslen s + op_size p"
    using length_str_exec [of p "sds_str s"] Cons.prems s1 length_sds_str by (metis list.set_intros(1))
  then have "sdslen s1 + sum_list (map op_size ps) < 2 ^ 31" using Cons.prems(3) by simp
  then show ?case using Cons.IH [OF s1(2)] Cons.prems s1 by auto
qed

text \<open>
  C13: The string operations refine operations on byte lists: whatever the allocator leaves in fresh memory, a program of
  sdscatlen, sdscpylen, sdsgrowzero, sdsrange, sdstrim, sdsclear, sdsMakeRoomFor and sdsRemoveFreeSpace on a string made by sdsnewlen stays
  inside its buffers, keeps the header invariant and the terminator through every change of header type, and ends
  with the bytes the list operations give, as long as the lengths add up to less than 2 GB.
\<close>

theorem sds_refines_list:
  assumes "n \<le> length p" "\<forall>q \<in> set ps. op_ok q" "n + sum_list (map op_size ps) < 2 ^ 31"
  shows "\<exists>s s'. sdsnewlen garb (Some p) n = Some s \<and> sds_run garb ps s = Some s' \<and> sds_ok s' \<and>
     sds_str s' = fold str_exec ps (take n p)"
proof -
  have "n < 2 ^ 63" using assms(3) by simp
  from sdsnewlen_spec [OF assms(1) this, of garb] obtain s where
    s: "sdsnewlen garb (Some p) n = Some s" "sds_ok s" "sds_str s = take n p" "sdslen s = n" by blast
  then show ?thesis using sds_run_spec [OF s(2) assms(2), of garb] assms(3) by auto
qed

theorem sds_refines_list_witness:
  "\<exists>s s'. sdsnewlen (\<lambda>_. 255) (Some [104, 105]) 2 = Some s \<and>
     sds_run (\<lambda>_. 255) [Cat [32, 32] 2, GrowZero 40, Range 1 (- 37), Trim [32], RemoveFree] s = Some s' \<and> sds_ok s' \<and>
     sds_str s' = [105]"
proof -
  have "fold str_exec [Cat [32, 32] 2, GrowZero 40, Range 1 (- 37), Trim [32], RemoveFree] (take 2 [104, 105]) = [105]"
    by (simp add: range_spec_def Let_def trim_spec_def)
  then show ?thesis
    using sds_refines_list [of 2 "[104, 105]" "[Cat [32, 32] 2, GrowZero 40, Range 1 (- 37), Trim [32], RemoveFree]" "\<lambda>_. 255"] by simp
qed

text \<open>
  A zero increment is rejected on the smallest header only: sdsIncrLen aborts on its assertion for an \<open>SDS_TYPE_5\<close> string, while
  for every other well-formed string it does nothing.
\<close>

theorem sdsIncrLen_zero:
  assumes "sds_ok s"
  shows "sdsIncrLen s 0 = (if stype s = SDS_TYPE_5 then None else Some s)"
proof (cases "stype s = SDS_TYPE_5")
  case True then show ?thesis by (simp add: sdsIncrLen_def)
next
  case False
  have t: "stype s \<in> {SDS_TYPE_8, SDS_TYPE_16, SDS_TYPE_32, SDS_TYPE_64}" using assms False stype_le4 by (auto simp: sds_ok_def)
  have f: "sdslen s = slen s" "sdsalloc s = salloc s" using t False by (auto simp: sdslen_def sdsalloc_def)
  have c: "slen s \<le> salloc s" "salloc s < 2 ^ fld_bits (stype s)" "slen s < length (sbuf s)" "sbuf s ! slen s = 0"
    using assms False f by (auto simp: sds_ok_def)
  have m: "nat (int (slen s) mod 2 ^ fld_bits (stype s)) = slen s"
  proof -
    have "slen s mod 2 ^ fld_bits (stype s) = slen s" using c by simp
    then show ?thesis by (metis nat_int of_nat_mod of_nat_numeral of_nat_power)
  qed
  have w: "wr (sbuf s) (slen s) 0 = Some (sbuf s)" using c by (metis list_update_id wr_Some)
  show ?thesis using False t m w c(1) unfolding sdsIncrLen_def by (auto simp: Let_def)
qed

theorem sdsIncrLen_zero_witness:
  "sds_ok \<lparr>sflags = 8, slen = 0, salloc = 0, sbuf = [97, 0]\<rparr> \<and> sdsIncrLen \<lparr>sflags = 8, slen = 0, salloc = 0, sbuf = [97, 0]\<rparr> 0 = None"
proof -
  let ?s = "\<lparr>sflags = 8, slen = 0, salloc = 0, sbuf = [97, 0 :: byte]\<rparr>"
  have t: "stype ?s = SDS_TYPE_5" by (simp add: stype_def SDS_TYPE_5_def)
  have "SDS_TYPE_5_LEN 8 = 1" by (simp add: SDS_TYPE_5_LEN_def)
  then have ok: "sds_ok ?s" using t by (simp add: sds_ok_def sdslen_def sdsalloc_def SDS_TYPE_5_def)
  then show ?thesis using sdsIncrLen_zero [OF ok] t by simp
qed

end
