(* ===== verification/Sds_Text.thy ===== *)
theory Sds_Text
  imports Sds_List Util "HOL-Library.Sublist"
begin

text \<open>
  sds.c: formatted appending, quoting and splitting of strings, written with the primitive operations of
  the theories \<open>Sds\<close> and \<open>Sds_List\<close>. What these clients need of the primitives is the interface
  \<open>byte_buffer\<close>.
\<close>

section \<open>The interface of an append buffer\<close>

locale byte_buffer =
  fixes ok :: "'b \<Rightarrow> bool"
    and str :: "'b \<Rightarrow> byte list"
    and cat :: "'b \<Rightarrow> byte list \<Rightarrow> 'b option"
  assumes cat_appends: "ok s \<Longrightarrow> length (str s) + length t < 2 ^ 63 \<Longrightarrow> \<exists>s'. cat s t = Some s' \<and> ok s' \<and> str s' = str s @ t"
begin

lemma cat_then:
  assumes "ok s" "length (str s) + length t < 2 ^ 63"
    and "\<And>s'. ok s' \<Longrightarrow> str s' = str s @ t \<Longrightarrow> \<exists>r. k s' = Some r \<and> Q r"
  shows "\<exists>r. (cat s t \<bind> k) = Some r \<and> Q r"
proof -
  obtain s' where s': "cat s t = Some s'" "ok s'" "str s' = str s @ t" using cat_appends [OF assms(1,2)] by blast
  then show ?thesis using assms(3) [OF s'(2,3)] by simp
qed

lemma cats:
  assumes "ok s" "length (str s) + sum_list (map (length \<circ> f) xs) < 2 ^ 63"
    and step: "\<And>x s. ok s \<Longrightarrow> length (str s) + length (f x) < 2 ^ 63 \<Longrightarrow> \<exists>s'. g x s = Some s' \<and> ok s' \<and> str s' = str s @ f x"
    and loop: "\<And>s. lp [] s = Some s" "\<And>x xs s. lp (x # xs) s = (g x s \<bind> lp xs)"
  shows "\<exists>s'. lp xs s = Some s' \<and> ok s' \<and> str s' = str s @ concat (map f xs)"
  using assms(1,2)
proof (induction xs arbitrary: s)
  case Nil then show ?case by (simp add: loop)
next
  case (Cons x xs)
  obtain s1 where s1: "g x s = Some s1" "ok s1" "str s1 = str s @ f x" using step [OF Cons.prems(1), of x] Cons.prems(2) by auto
  then show ?case using Cons.IH [OF s1(2)] Cons.prems(2) by (auto simp: loop)
qed

end

definition sds_cat :: "(nat \<Rightarrow> byte) \<Rightarrow> sds \<Rightarrow> byte list \<Rightarrow> sds option" where
  "sds_cat garb s t = sdscatlen garb s t (length t)"

interpretation sbuf: byte_buffer sds_ok sds_str "sds_cat garb"
proof
  fix s and t :: "byte list"
  assume "sds_ok s" "length (sds_str s) + length t < 2 ^ 63"
  then show "\<exists>s'. sds_cat garb s t = Some s' \<and> sds_ok s' \<and> sds_str s' = sds_str s @ t"
    using sdscatlen_spec [of s "length t" t garb] length_sds_str by (simp add: sds_cat_def)
qed

section \<open>Formatted text\<close>

text \<open>
  \<open>sdscatvprintf\<close> writes into a buffer and doubles it as long as the last byte but one was overwritten.
  \<open>txt\<close> is the text the format denotes, of which \<open>vsnprintf\<close> stores a prefix and a terminator.
\<close>

function vprintf_buflen :: "byte list \<Rightarrow> nat \<Rightarrow> nat" where
  "vprintf_buflen txt buflen =
    (if 0 < buflen \<and> buflen - 1 \<le> length txt \<and> buflen - 2 < length txt \<and> txt ! (buflen - 2) \<noteq> 0
     then vprintf_buflen txt (2 * buflen) else buflen)"
  by pat_completeness auto
termination by (relation "measure (\<lambda>(txt, n). length txt + 2 - n)") auto

declare vprintf_buflen.simps [simp del]

definition sdscatvprintf :: "(nat \<Rightarrow> byte) \<Rightarrow> sds \<Rightarrow> nat \<Rightarrow> byte list \<Rightarrow> sds option" where
  "sdscatvprintf garb s fmtlen txt =
    (let buflen = fmtlen * 2;
         buflen = (if buflen > 1024 then buflen else 1024);
         buflen = vprintf_buflen txt buflen
     in sdscat garb s (take (buflen - 1) txt @ [0]))"

text \<open>The digits are written backwards and the buffer is then reversed in place.\<close>

function ull_digits :: "byte list \<Rightarrow> nat \<Rightarrow> u64 \<Rightarrow> (byte list \<times> nat) option" where
  "ull_digits b p v = do {
     b \<leftarrow> wr b p (chr_0 + ucast (v mod 10));
     if v div 10 \<noteq> 0 then ull_digits b (Suc p) (v div 10) else Some (b, Suc p) }"
  by pat_completeness auto
termination by (relation "measure (\<lambda>(b, p, v). length b - p)") (auto simp: wr_eq_Some)

declare ull_digits.simps [simp del]

function reverse_bytes :: "byte list \<Rightarrow> nat \<Rightarrow> nat \<Rightarrow> byte list option" where
  "reverse_bytes b s p =
    (if s < p then do {
       aux \<leftarrow> rd b s;
       c \<leftarrow> rd b p;
       b \<leftarrow> wr b s c;
       b \<leftarrow> wr b p aux;
       reverse_bytes b (s + 1) (p - 1) }
     else Some b)"
  by pat_completeness auto
termination by (relation "measure (\<lambda>(b, s, p). p - s)") auto

declare reverse_bytes.simps [simp del]

definition sdsull2str :: "byte list \<Rightarrow> u64 \<Rightarrow> (byte list \<times> nat) option" where
  "sdsull2str b v = do {
     (b, p) \<leftarrow> ull_digits b 0 v;
     b \<leftarrow> wr b p 0;
     b' \<leftarrow> reverse_bytes b 0 (p - 1);
     Some (b', p) }"

definition sdsll2str :: "byte list \<Rightarrow> s64 \<Rightarrow> (byte list \<times> nat) option" where
  "sdsll2str b v = do {
     (b, p) \<leftarrow> ull_digits b 0 (if v <s 0 then - v else v);
     (b, p) \<leftarrow> (if v <s 0 then do { b \<leftarrow> wr b p chr_minus; Some (b, Suc p) } else Some (b, p));
     b \<leftarrow> wr b p 0;
     b' \<leftarrow> reverse_bytes b 0 (p - 1);
     Some (b', p) }"

definition SDS_LLSTR_SIZE :: nat where "SDS_LLSTR_SIZE = 21"

definition sdsfromlonglong :: "(nat \<Rightarrow> byte) \<Rightarrow> s64 \<Rightarrow> sds option" where
  "sdsfromlonglong garb v = do {
     (b, len) \<leftarrow> sdsll2str (map garb [0..<SDS_LLSTR_SIZE]) v;
     sdsnewlen garb (Some b) len }"

section \<open>Quoting\<close>

definition isprint :: "byte \<Rightarrow> bool" where
  "isprint c \<longleftrightarrow> 32 \<le> c \<and> c \<le> 126"

definition isspace :: "byte \<Rightarrow> bool" where
  "isspace c \<longleftrightarrow> c = 32 \<or> (9 \<le> c \<and> c \<le> 13)"

text \<open>The digit \<open>%x\<close> prints.\<close>

definition hex_char :: "nat \<Rightarrow> byte" where
  "hex_char n = (if n < 10 then chr_0 + of_nat n else 97 + of_nat (n - 10))"

definition repr_char :: "(nat \<Rightarrow> byte) \<Rightarrow> byte \<Rightarrow> sds \<Rightarrow> sds option" where
  "repr_char garb c s =
    (if c = 92 \<or> c = 34 then sdscatvprintf garb s 3 [92, c]
     else if c = 10 then sdscatlen garb s [92, 110] 2
     else if c = 13 then sdscatlen garb s [92, 114] 2
     else if c = 9 then sdscatlen garb s [92, 116] 2
     else if c = 7 then sdscatlen garb s [92, 97] 2
     else if c = 8 then sdscatlen garb s [92, 98] 2
     else if isprint c then sdscatvprintf garb s 2 [c]
     else sdscatvprintf garb s 6 [92, 120, hex_char (unat c div 16), hex_char (unat c mod 16)])"

primrec repr_loop :: "(nat \<Rightarrow> byte) \<Rightarrow> byte list \<Rightarrow> sds \<Rightarrow> sds option" where
  "repr_loop garb [] s = Some s"
| "repr_loop garb (c # cs) s = (repr_char garb c s \<bind> repr_loop garb cs)"

definition sdscatrepr :: "(nat \<Rightarrow> byte) \<Rightarrow> sds \<Rightarrow> byte list \<Rightarrow> sds option" where
  "sdscatrepr garb s p = do {
     s \<leftarrow> sdscatlen garb s [34] 1;
     s \<leftarrow> repr_loop garb p s;
     sdscatlen garb s [34] 1 }"

section \<open>Splitting a line into arguments\<close>

definition is_hex_digit :: "byte \<Rightarrow> bool" where
  "is_hex_digit c \<longleftrightarrow> (48 \<le> c \<and> c \<le> 57) \<or> (97 \<le> c \<and> c \<le> 102) \<or> (65 \<le> c \<and> c \<le> 70)"

definition hex_digit_to_int :: "byte \<Rightarrow> nat" where
  "hex_digit_to_int c =
    (if 48 \<le> c \<and> c \<le> 57 then unat (c - 48)
     else if c = 97 \<or> c = 65 then 10
     else if c = 98 \<or> c = 66 then 11
     else if c = 99 \<or> c = 67 then 12
     else if c = 100 \<or> c = 68 then 13
     else if c = 101 \<or> c = 69 then 14
     else if c = 102 \<or> c = 70 then 15
     else 0)"

text \<open>The test for \<open>\xHH\<close> reads no further than it has to.\<close>

definition hex_escape :: "byte list \<Rightarrow> nat \<Rightarrow> byte option option" where
  "hex_escape b p = do {
     c \<leftarrow> rd b p;
     if c \<noteq> 92 then Some None else do {
       c1 \<leftarrow> rd b (p + 1);
       if c1 \<noteq> 120 then Some None else do {
         c2 \<leftarrow> rd b (p + 2);
         if \<not> is_hex_digit c2 then Some None else do {
           c3 \<leftarrow> rd b (p + 3);
           if \<not> is_hex_digit c3 then Some None
           else Some (Some (of_nat (hex_digit_to_int c2 * 16 + hex_digit_to_int c3))) } } } }"

definition unescape :: "byte \<Rightarrow> byte" where
  "unescape c = (if c = 110 then 10 else if c = 114 then 13 else if c = 116 then 9
     else if c = 98 then 8 else if c = 97 then 7 else c)"

text \<open>What one turn of the token loop does: the error exit, the end of the token, or one more turn.\<close>

datatype arg_flow = ArgErr | ArgDone nat sds | ArgMore nat bool bool sds

text \<open>The \<open>if (*p) p++\<close> at the end of a turn.\<close>

definition adv_char :: "byte list \<Rightarrow> nat \<Rightarrow> nat option" where
  "adv_char b p = do { c \<leftarrow> rd b p; Some (if c \<noteq> 0 then p + 1 else p) }"

definition cat_more :: "(nat \<Rightarrow> byte) \<Rightarrow> byte list \<Rightarrow> nat \<Rightarrow> bool \<Rightarrow> bool \<Rightarrow> sds \<Rightarrow> byte \<Rightarrow> arg_flow option" where
  "cat_more garb b p inq insq current c = do {
     current \<leftarrow> sdscatlen garb current [c] 1;
     p \<leftarrow> adv_char b p;
     Some (ArgMore p inq insq current) }"

definition close_quote :: "byte list \<Rightarrow> nat \<Rightarrow> sds \<Rightarrow> arg_flow option" where
  "close_quote b p current = do {
     c1 \<leftarrow> rd b (p + 1);
     if c1 \<noteq> 0 \<and> \<not> isspace c1 then Some ArgErr
     else do { p \<leftarrow> adv_char b p; Some (ArgDone p current) } }"

definition arg_step :: "(nat \<Rightarrow> byte) \<Rightarrow> byte list \<Rightarrow> nat \<Rightarrow> bool \<Rightarrow> bool \<Rightarrow> sds \<Rightarrow> arg_flow option" where
  "arg_step garb b p inq insq current = do {
     c \<leftarrow> rd b p;
     if inq then do {
       hx \<leftarrow> hex_escape b p;
       case hx of
         Some h \<Rightarrow> cat_more garb b (p + 3) True insq current h
       | None \<Rightarrow> do {
           esc \<leftarrow> (if c = 92 then do { c1 \<leftarrow> rd b (p + 1); Some (if c1 \<noteq> 0 then Some c1 else None) } else Some None);
           case esc of
             Some c1 \<Rightarrow> cat_more garb b (p + 1) True insq current (unescape c1)
           | None \<Rightarrow>
               if c = 34 then close_quote b p current
               else if c = 0 then Some ArgErr
               else cat_more garb b p True insq current c } }
     else if insq then do {
       esc \<leftarrow> (if c = 92 then do { c1 \<leftarrow> rd b (p + 1); Some (c1 = 39) } else Some False);
       if esc then cat_more garb b (p + 1) inq True current 39
       else if c = 39 then close_quote b p current
       else if c = 0 then Some ArgErr
       else cat_more garb b p inq True current c }
     else
       if c = 32 \<or> c = 10 \<or> c = 13 \<or> c = 9 \<or> c = 0 then do { p \<leftarrow> adv_char b p; Some (ArgDone p current) }
       else if c = 34 then do { p \<leftarrow> adv_char b p; Some (ArgMore p True insq current) }
       else if c = 39 then do { p \<leftarrow> adv_char b p; Some (ArgMore p inq True current) }
       else cat_more garb b p inq insq current c }"

lemma adv_char_eq: "adv_char b p = Some p' \<longleftrightarrow> p < length b \<and> p' = (if b ! p \<noteq> 0 then p + 1 else p)"
  by (auto simp: adv_char_def rd_eq_Some split: bind_splits if_splits)

lemma cat_more_ArgMore:
  "cat_more garb b p inq insq cur c = Some (ArgMore p' inq' insq' cur') \<Longrightarrow> p < length b \<and> p' = (if b ! p \<noteq> 0 then p + 1 else p)"
  by (auto simp: cat_more_def adv_char_eq split: bind_splits if_splits)

lemma close_quote_ArgMore: "close_quote b p cur \<noteq> Some (ArgMore p' inq' insq' cur')"
  by (auto simp: close_quote_def split: bind_splits if_splits)

lemma hex_escape_Some: "hex_escape b p = Some (Some h) \<Longrightarrow> p + 3 < length b \<and> is_hex_digit (b ! (p + 3))"
  by (auto simp: hex_escape_def rd_eq_Some split: bind_splits if_splits)

lemma is_hex_digit_nonzero: "is_hex_digit c \<Longrightarrow> c \<noteq> 0"
  by (auto simp: is_hex_digit_def)

lemma arg_step_advances:
  assumes "arg_step garb b p inq insq cur = Some (ArgMore p' inq' insq' cur')"
  shows "p < p' \<and> p < length b"
proof -
  obtain c where c: "rd b p = Some c" using assms by (cases "rd b p") (simp_all add: arg_step_def)
  then have pb: "p < length b" "b ! p = c" by (simp_all add: rd_eq_Some)
  consider (q) "inq" | (sq) "\<not> inq" "insq" | (n) "\<not> inq" "\<not> insq" by blast
  then have "p < p'"
  proof cases
    case q
    obtain hx where hx: "hex_escape b p = Some hx" using assms q c by (cases "hex_escape b p") (simp_all add: arg_step_def)
    show ?thesis
    proof (cases hx)
      case (Some h)
      then show ?thesis using assms q c hx hex_escape_Some [of b p h] is_hex_digit_nonzero
        by (fastforce simp: arg_step_def dest!: cat_more_ArgMore)
    next
      case None
      then show ?thesis using assms q c hx close_quote_ArgMore [of b p cur] pb
        by (cases "c = 92"; cases "rd b (p + 1)")
           (auto simp: arg_step_def rd_eq_Some dest!: cat_more_ArgMore split: if_splits)
    qed
  next
    case sq
    then show ?thesis using assms c close_quote_ArgMore [of b p cur] pb
      by (cases "c = 92"; cases "rd b (p + 1)")
         (auto simp: arg_step_def rd_eq_Some dest!: cat_more_ArgMore split: if_splits)
  next
    case n
    then show ?thesis using assms c pb
      by (auto simp: arg_step_def adv_char_eq dest!: cat_more_ArgMore split: if_splits bind_splits)
  qed
  then show ?thesis using pb by simp
qed

function arg_loop :: "(nat \<Rightarrow> byte) \<Rightarrow> byte list \<Rightarrow> nat \<Rightarrow> bool \<Rightarrow> bool \<Rightarrow> sds \<Rightarrow> (nat \<times> sds) option option" where
  "arg_loop garb b p inq insq current =
    (case arg_step garb b p inq insq current of
       None \<Rightarrow> None
     | Some ArgErr \<Rightarrow> Some None
     | Some (ArgDone p current) \<Rightarrow> Some (Some (p, current))
     | Some (ArgMore p inq insq current) \<Rightarrow> arg_loop garb b p inq insq current)"
  by pat_completeness auto
termination
  by (relation "measure (\<lambda>(garb, b, p, inq, insq, cur). length b - p)") (auto dest!: arg_step_advances)

declare arg_loop.simps [simp del]

function skip_blanks :: "byte list \<Rightarrow> nat \<Rightarrow> nat option" where
  "skip_blanks b p = do { c \<leftarrow> rd b p; if c \<noteq> 0 \<and> isspace c then skip_blanks b (p + 1) else Some p }"
  by pat_completeness auto
termination by (relation "measure (\<lambda>(b, p). length b - p)") (auto simp: rd_eq_Some)

declare skip_blanks.simps [simp del]

text \<open>The token loop always leaves the byte it started at, unless that is the terminator.\<close>

lemma arg_step_done:
  assumes "arg_step garb b p inq insq cur = Some (ArgDone p' cur')" "b ! p \<noteq> 0"
  shows "p < p'"
proof -
  obtain c where c: "rd b p = Some c" using assms by (cases "rd b p") (simp_all add: arg_step_def)
  then have pb: "p < length b" "b ! p = c" by (simp_all add: rd_eq_Some)
  have cm: "cat_more garb b i q s u x \<noteq> Some (ArgDone p' cur')" for i q s u x
    by (auto simp: cat_more_def split: bind_splits)
  have cq: "close_quote b p u = Some (ArgDone p' cur') \<Longrightarrow> p < p'" for u
    using assms(2) by (auto simp: close_quote_def adv_char_eq split: bind_splits if_splits)
  show ?thesis using assms c pb cm cq
    by (auto simp: arg_step_def adv_char_eq split: bind_splits if_splits option.splits)
qed

lemma arg_loop_advances:
  "arg_loop garb b p inq insq cur = Some (Some (p', cur')) \<Longrightarrow> b ! p \<noteq> 0 \<or> inq \<or> insq \<Longrightarrow> p < p'"
proof (induction garb b p inq insq cur arbitrary: p' cur' rule: arg_loop.induct)
  case (1 garb b p inq insq cur)
  note e = 1(2) [unfolded arg_loop.simps [of garb b p inq insq cur]]
  show ?case
  proof (cases "arg_step garb b p inq insq cur")
    case None then show ?thesis using e by simp
  next
    case (Some fl)
    show ?thesis
    proof (cases fl)
      case ArgErr then show ?thesis using e Some by simp
    next
      case (ArgDone p1 cur1)
      have "b ! p \<noteq> 0" using Some ArgDone 1(3)
        by (auto simp: arg_step_def close_quote_def cat_more_def hex_escape_def rd_eq_Some split: bind_splits if_splits option.splits)
      then show ?thesis using arg_step_done [of garb b p inq insq cur] Some ArgDone e by simp
    next
      case (ArgMore p1 q1 s1 cur1)
      have lt: "p < p1" using arg_step_advances Some ArgMore by blast
      show ?thesis
      proof (cases "b ! p1 \<noteq> 0 \<or> q1 \<or> s1")
        case True
        then show ?thesis using 1(1) [OF Some ArgMore _ True] e Some ArgMore lt by fastforce
      next
        case False
        have "arg_loop garb b p1 q1 s1 cur1 = Some (Some (p', cur'))" using e Some ArgMore by simp
        then have "p' = p1" using False
          by (simp add: arg_loop.simps [of garb b p1 q1 s1 cur1] arg_step_def adv_char_def rd_def split: if_splits)
        then show ?thesis using lt by simp
      qed
    qed
  qed
qed

lemma skip_blanks_ge: "skip_blanks b p = Some p' \<Longrightarrow> p \<le> p' \<and> p' < length b"
proof (induction b p arbitrary: p' rule: skip_blanks.induct)
  case (1 b p)
  show ?case
  proof (cases "rd b p")
    case None then show ?thesis using 1(2) by (simp add: skip_blanks.simps [of b p])
  next
    case (Some c)
    show ?thesis
    proof (cases "c \<noteq> 0 \<and> isspace c")
      case True
      then have "skip_blanks b (p + 1) = Some p'" using 1(2) Some by (simp add: skip_blanks.simps [of b p])
      then show ?thesis using 1(1) [OF Some True] by fastforce
    next
      case False
      then show ?thesis using 1(2) Some by (simp add: skip_blanks.simps [of b p] rd_eq_Some split: if_splits)
    qed
  qed
qed

function args_loop :: "(nat \<Rightarrow> byte) \<Rightarrow> byte list \<Rightarrow> nat \<Rightarrow> sds list \<Rightarrow> sds list option option" where
  "args_loop garb b p vector =
    (case skip_blanks b p of
       None \<Rightarrow> None
     | Some p \<Rightarrow>
         (case rd b p of
            None \<Rightarrow> None
          | Some c \<Rightarrow>
              if c \<noteq> 0 then
                (case sdsempty garb of
                   None \<Rightarrow> None
                 | Some current \<Rightarrow>
                     (case arg_loop garb b p False False current of
                        None \<Rightarrow> None
                      | Some None \<Rightarrow> Some None
                      | Some (Some (p, current)) \<Rightarrow> args_loop garb b p (vector @ [current])))
              else Some (Some vector)))"
  by pat_completeness auto
termination
proof (relation "measure (\<lambda>(garb, b, p, vector). length b - p)")
  fix garb b p vector p1 c cur r pc p2 cur2
  assume "skip_blanks b p = Some p1" "rd b p1 = Some c" "c \<noteq> 0" "sdsempty garb = Some cur"
    "arg_loop garb b p1 False False cur = Some r" "r = Some pc" "(p2, cur2) = pc"
  then have "p \<le> p1" "p1 < length b" "p1 < p2"
    using skip_blanks_ge arg_loop_advances [of garb b p1 False False cur p2 cur2] by (auto simp: rd_eq_Some)
  then show "((garb, b, p2, vector @ [cur2]), garb, b, p, vector) \<in> measure (\<lambda>(garb, b, p, vector). length b - p)" by auto
qed simp

declare args_loop.simps [simp del]

text \<open>The outer option is memory safety, the inner one the null result for unbalanced quotes.\<close>

definition sdssplitargs :: "(nat \<Rightarrow> byte) \<Rightarrow> byte list \<Rightarrow> sds list option option" where
  "sdssplitargs garb line = args_loop garb line 0 []"

section \<open>Splitting at a separator, joining\<close>

lemma split_loop_term: "int j < int len - (int (length sep) - 1) \<Longrightarrow> sep \<noteq> [] \<Longrightarrow> j < len \<and> 0 < length sep"
  by (cases sep) auto

function split_loop :: "(nat \<Rightarrow> byte) \<Rightarrow> byte list \<Rightarrow> nat \<Rightarrow> byte list \<Rightarrow> nat \<Rightarrow> nat \<Rightarrow> sds list \<Rightarrow> (nat \<times> sds list) option" where
  "split_loop garb s len sep j start tokens =
    (if int j < int len - (int (length sep) - 1) \<and> sep \<noteq> [] then do {
       w \<leftarrow> get_bytes s j (length sep);
       if w = sep then do {
         t \<leftarrow> sdsnewlen garb (Some (drop start s)) (j - start);
         split_loop garb s len sep (j + length sep) (j + length sep) (tokens @ [t]) }
       else split_loop garb s len sep (j + 1) start tokens }
     else Some (start, tokens))"
  by pat_completeness auto
termination by (relation "measure (\<lambda>(garb, s, len, sep, j, start, tokens). len - j)") (auto intro!: diff_less_mono2 dest: split_loop_term)

declare split_loop.simps [simp del]

text \<open>\<open>Some None\<close> is the null result. The separator is the list \<open>sep\<close> of length \<open>seplen\<close>.\<close>

definition sdssplitlen :: "(nat \<Rightarrow> byte) \<Rightarrow> byte list \<Rightarrow> int \<Rightarrow> byte list \<Rightarrow> sds list option option" where
  "sdssplitlen garb s len sep =
    (if length sep < 1 \<or> len < 0 then Some None
     else if len = 0 then Some (Some [])
     else do {
       (start, tokens) \<leftarrow> split_loop garb s (nat len) sep 0 0 [];
       t \<leftarrow> sdsnewlen garb (Some (drop start s)) (nat len - start);
       Some (Some (tokens @ [t])) })"

fun join_loop :: "(nat \<Rightarrow> byte) \<Rightarrow> byte list \<Rightarrow> sds list \<Rightarrow> sds \<Rightarrow> sds option" where
  "join_loop garb sep [] join = Some join"
| "join_loop garb sep [a] join = sdscatsds garb join a"
| "join_loop garb sep (a # b # as) join = do {
     join \<leftarrow> sdscatsds garb join a;
     join \<leftarrow> sdscatlen garb join sep (length sep);
     join_loop garb sep (b # as) join }"

definition sdsjoinsds :: "(nat \<Rightarrow> byte) \<Rightarrow> sds list \<Rightarrow> byte list \<Rightarrow> sds option" where
  "sdsjoinsds garb argv sep = do { join \<leftarrow> sdsempty garb; join_loop garb sep argv join }"

fun joinc_loop :: "(nat \<Rightarrow> byte) \<Rightarrow> byte list \<Rightarrow> byte list list \<Rightarrow> sds \<Rightarrow> sds option" where
  "joinc_loop garb sep [] join = Some join"
| "joinc_loop garb sep [a] join = sdscat garb join a"
| "joinc_loop garb sep (a # b # as) join = do {
     join \<leftarrow> sdscat garb join a;
     join \<leftarrow> sdscat garb join sep;
     joinc_loop garb sep (b # as) join }"

definition sdsjoin :: "(nat \<Rightarrow> byte) \<Rightarrow> byte list list \<Rightarrow> byte list \<Rightarrow> sds option" where
  "sdsjoin garb argv sep = do { join \<leftarrow> sdsempty garb; joinc_loop garb sep argv join }"

section \<open>Fast formatting\<close>

datatype fmt_arg = Arg_cstr "byte list" | Arg_sds sds | Arg_int s32 | Arg_ll s64 | Arg_uint u32 | Arg_ull u64

text \<open>
  Appending \<open>l\<close> bytes at position \<open>i\<close>, without a terminator. The position is an \<open>int\<close> in the source; here it
  does not wrap.
\<close>

definition fmt_put :: "(nat \<Rightarrow> byte) \<Rightarrow> sds \<Rightarrow> nat \<Rightarrow> byte list \<Rightarrow> nat \<Rightarrow> (sds \<times> nat) option" where
  "fmt_put garb s i t l = do {
     s \<leftarrow> (if sdsavail s < l then sdsMakeRoomFor garb s l else Some s);
     xs \<leftarrow> get_bytes t 0 l;
     b \<leftarrow> put_bytes (sbuf s) i xs;
     Some (sdsinclen (s\<lparr>sbuf := b\<rparr>) l, i + l) }"

definition fmt_char :: "sds \<Rightarrow> nat \<Rightarrow> byte \<Rightarrow> (sds \<times> nat) option" where
  "fmt_char s i c = do { b \<leftarrow> wr (sbuf s) i c; Some (sdsinclen (s\<lparr>sbuf := b\<rparr>) 1, i + 1) }"

definition fmt_arg_put :: "(nat \<Rightarrow> byte) \<Rightarrow> byte \<Rightarrow> fmt_arg list \<Rightarrow> sds \<Rightarrow> nat \<Rightarrow> (sds \<times> nat \<times> fmt_arg list) option" where
  "fmt_arg_put garb next ap s i =
    (case (ap, next) of
       (Arg_cstr t # ap, _) \<Rightarrow> if next = 115 then do { l \<leftarrow> strlen t; (s, i) \<leftarrow> fmt_put garb s i t l; Some (s, i, ap) } else None
     | (Arg_sds t # ap, _) \<Rightarrow> if next = 83 then do { (s, i) \<leftarrow> fmt_put garb s i (sbuf t) (sdslen t); Some (s, i, ap) } else None
     | (Arg_int v # ap, _) \<Rightarrow> if next = 105 then do { (b, l) \<leftarrow> sdsll2str (map garb [0..<SDS_LLSTR_SIZE]) (scast v); (s, i) \<leftarrow> fmt_put garb s i b l; Some (s, i, ap) } else None
     | (Arg_ll v # ap, _) \<Rightarrow> if next = 73 then do { (b, l) \<leftarrow> sdsll2str (map garb [0..<SDS_LLSTR_SIZE]) v; (s, i) \<leftarrow> fmt_put garb s i b l; Some (s, i, ap) } else None
     | (Arg_uint v # ap, _) \<Rightarrow> if next = 117 then do { (b, l) \<leftarrow> sdsull2str (map garb [0..<SDS_LLSTR_SIZE]) (ucast v); (s, i) \<leftarrow> fmt_put garb s i b l; Some (s, i, ap) } else None
     | (Arg_ull v # ap, _) \<Rightarrow> if next = 85 then do { (b, l) \<leftarrow> sdsull2str (map garb [0..<SDS_LLSTR_SIZE]) v; (s, i) \<leftarrow> fmt_put garb s i b l; Some (s, i, ap) } else None
     | ([], _) \<Rightarrow> None)"

function fmt_loop :: "(nat \<Rightarrow> byte) \<Rightarrow> byte list \<Rightarrow> nat \<Rightarrow> fmt_arg list \<Rightarrow> sds \<Rightarrow> nat \<Rightarrow> (sds \<times> nat) option" where
  "fmt_loop garb fmt f ap s i = do {
     c \<leftarrow> rd fmt f;
     if c = 0 then Some (s, i)
     else do {
       s \<leftarrow> (if sdsavail s = 0 then sdsMakeRoomFor garb s 1 else Some s);
       if c = 37 then do {
         nxt \<leftarrow> rd fmt (f + 1);
         if nxt \<in> {115, 83, 105, 73, 117, 85} then do {
           (s, i, ap) \<leftarrow> fmt_arg_put garb nxt ap s i;
           fmt_loop garb fmt (f + 2) ap s i }
         else do {
           (s, i) \<leftarrow> fmt_char s i nxt;
           fmt_loop garb fmt (f + 2) ap s i } }
       else do {
         (s, i) \<leftarrow> fmt_char s i c;
         fmt_loop garb fmt (f + 1) ap s i } } }"
  by pat_completeness auto
termination by (relation "measure (\<lambda>(garb, fmt, f, ap, s, i). length fmt - f)") (auto simp: rd_eq_Some)

declare fmt_loop.simps [simp del]

definition sdscatfmt :: "(nat \<Rightarrow> byte) \<Rightarrow> sds \<Rightarrow> byte list \<Rightarrow> fmt_arg list \<Rightarrow> sds option" where
  "sdscatfmt garb s fmt ap = do {
     (s, i) \<leftarrow> fmt_loop garb fmt 0 ap s (sdslen s);
     b \<leftarrow> wr (sbuf s) i 0;
     Some (s\<lparr>sbuf := b\<rparr>) }"

end
