(* ===== verification/Sds_Args.thy ===== *)
theory Sds_Args
  imports Sds_Text
begin

text \<open>
  sds.c: quoting, splitting into arguments, splitting at a separator, joining, and decimal numbers: the proofs about
  the definitions of \<open>Sds_Text\<close>.
\<close>

section \<open>Quoting and unquoting\<close>

lemma vprintf_buflen_fits: "0 \<notin> set txt \<Longrightarrow> 1024 \<le> k \<Longrightarrow> length txt < vprintf_buflen txt k"
proof (induction "txt" k rule: vprintf_buflen.induct)
  case (1 t k)
  show ?case
  proof (cases "0 < k \<and> k - 1 \<le> length t \<and> k - 2 < length t \<and> t ! (k - 2) \<noteq> 0")
    case True
    then show ?thesis using 1 by (subst vprintf_buflen.simps) simp
  next
    case False
    have "\<not> k - 1 \<le> length t"
    proof
      assume le: "k - 1 \<le> length t"
      then have "k - 2 < length t" using 1(3) by simp
      moreover have "t ! (k - 2) = 0" using False le 1(3) by auto
      ultimately show False using 1(2) by (metis nth_mem)
    qed
    then show ?thesis using False by (subst vprintf_buflen.simps) simp
  qed
qed

lemma sdscatvprintf_spec:
  assumes "sds_ok s" "0 \<notin> set txt" "sdslen s + length txt < 2 ^ 63"
  shows "\<exists>s'. sdscatvprintf garb s n txt = Some s' \<and> sds_ok s' \<and> sds_str s' = sds_str s @ txt"
proof -
  have "length txt \<le> vprintf_buflen txt (if n * 2 > 1024 then n * 2 else 1024) - 1"
    using vprintf_buflen_fits [OF assms(2), of "n * 2"] vprintf_buflen_fits [OF assms(2), of 1024] by auto
  then show ?thesis using sdscat_spec [OF assms, of garb] by (simp add: sdscatvprintf_def Let_def)
qed

text \<open>The quoted form of a byte and of a string.\<close>

definition repr_byte :: "byte \<Rightarrow> byte list" where
  "repr_byte c =
    (if c = 92 \<or> c = 34 then [92, c] else if c = 10 then [92, 110] else if c = 13 then [92, 114]
     else if c = 9 then [92, 116] else if c = 7 then [92, 97] else if c = 8 then [92, 98]
     else if isprint c then [c] else [92, 120, hex_char (unat c div 16), hex_char (unat c mod 16)])"

definition repr_str :: "byte list \<Rightarrow> byte list" where
  "repr_str v = 34 # concat (map repr_byte v) @ [34]"

lemma hex_char_digit: "n < 16 \<Longrightarrow> is_hex_digit (hex_char n) \<and> hex_digit_to_int (hex_char n) = n \<and> hex_char n \<noteq> 0"
proof -
  assume "n < 16"
  then have "n \<in> set [0..<16]" by simp
  then consider "n = 0" | "n = 1" | "n = 2" | "n = 3" | "n = 4" | "n = 5" | "n = 6" | "n = 7" | "n = 8" | "n = 9" |
    "n = 10" | "n = 11" | "n = 12" | "n = 13" | "n = 14" | "n = 15" by (auto simp: upt_rec)
  then show ?thesis by cases (simp_all add: hex_char_def is_hex_digit_def hex_digit_to_int_def)
qed

lemma unat_byte_less: "unat (c :: byte) < 256"
  using unat_less_2p [of c] by simp

lemma hex_value: "of_nat (hex_digit_to_int (hex_char (unat c div 16)) * 16 + hex_digit_to_int (hex_char (unat c mod 16))) = (c :: byte)"
proof -
  have "unat c div 16 < 16" using unat_byte_less [of c] by simp
  then have "hex_digit_to_int (hex_char (unat c div 16)) * 16 + hex_digit_to_int (hex_char (unat c mod 16)) = unat c"
    using hex_char_digit [of "unat c div 16"] hex_char_digit [of "unat c mod 16"] by simp
  then show ?thesis by simp
qed

lemma hex_chars: "is_hex_digit (hex_char (unat (c :: byte) div 16))" "is_hex_digit (hex_char (unat c mod 16))"
    "hex_char (unat c div 16) \<noteq> 0" "hex_char (unat c mod 16) \<noteq> 0"
  using hex_char_digit [of "unat c div 16"] hex_char_digit [of "unat c mod 16"] unat_byte_less [of c] by auto

lemma repr_char_spec:
  assumes "sds_ok s" "sdslen s + length (repr_byte c) < 2 ^ 63"
  shows "\<exists>s'. repr_char garb c s = Some s' \<and> sds_ok s' \<and> sds_str s' = sds_str s @ repr_byte c"
proof -
  note cv = sdscatvprintf_spec [OF assms(1), of "repr_byte c"] and cl = sdscatlen_spec [OF assms(1), of 2 "repr_byte c"]
  consider (q) "c = 92 \<or> c = 34" | (e) "c \<in> {10, 13, 9, 7, 8}" | (p) "c \<notin> {92, 34, 10, 13, 9, 7, 8}" "isprint c"
    | (x) "c \<notin> {92, 34, 10, 13, 9, 7, 8}" "\<not> isprint c" by auto
  then show ?thesis
  proof cases
    case q then show ?thesis using cv [of garb 3] assms(2) by (auto simp: repr_char_def repr_byte_def)
  next
    case e then show ?thesis using cl [of garb] assms(2) by (auto simp: repr_char_def repr_byte_def)
  next
    case p
    then have "c \<noteq> 0" by (auto simp: isprint_def)
    then show ?thesis using p cv [of garb 2] assms(2) by (auto simp: repr_char_def repr_byte_def)
  next
    case x
    then show ?thesis using cv [of garb 6] assms(2) hex_chars [of c] by (auto simp: repr_char_def repr_byte_def)
  qed
qed

lemma sdscatrepr_spec:
  assumes "sds_ok s" "sdslen s + length (repr_str p) < 2 ^ 63"
  shows "\<exists>s'. sdscatrepr garb s p = Some s' \<and> sds_ok s' \<and> sds_str s' = sds_str s @ repr_str p"
proof -
  have len: "length (repr_str p) = 2 + sum_list (map (length \<circ> repr_byte) p)"
    by (simp add: repr_str_def length_concat)
  obtain s1 where s1: "sdscatlen garb s [34] 1 = Some s1" "sds_ok s1" "sds_str s1 = sds_str s @ [34]"
    using sdscatlen_spec [OF assms(1), of 1 "[34]" garb] assms(2) len by auto
  have "length (sds_str s1) + sum_list (map (length \<circ> repr_byte) p) < 2 ^ 63"
    using s1(3) length_sds_str [OF assms(1)] assms(2) len by simp
  from sbuf.cats [where f = repr_byte and g = "repr_char garb" and lp = "repr_loop garb", OF s1(2) this]
  obtain s2 where s2: "repr_loop garb p s1 = Some s2" "sds_ok s2" "sds_str s2 = sds_str s1 @ concat (map repr_byte p)"
    using repr_char_spec length_sds_str by (metis repr_loop.simps)
  have "sdslen s2 + 1 < 2 ^ 63" using s2(3) s1(3) length_sds_str [OF s2(2)] length_sds_str [OF assms(1)] assms(2) len
    by (simp add: length_concat)
  then obtain s3 where "sdscatlen garb s2 [34] 1 = Some s3" "sds_ok s3" "sds_str s3 = sds_str s2 @ [34]"
    using sdscatlen_spec [OF s2(2), of 1 "[34]" garb] by auto
  then show ?thesis using s1 s2 by (simp add: sdscatrepr_def repr_str_def)
qed

lemma rd_app_Suc [simp]: "rd (xs @ ys) (Suc (length xs)) = rd ys 1" "rd (xs @ ys) (Suc (Suc (length xs))) = rd ys 2"
    "rd (xs @ ys) (Suc (Suc (Suc (length xs)))) = rd ys 3"
  using rd_append_right [of xs ys 1] rd_append_right [of xs ys 2] rd_append_right [of xs ys 3] by (simp_all add: numeral_eq_Suc)

lemma rd_Cons_num [simp]: "rd (x # xs) 0 = Some x" "rd (x # xs) 1 = rd xs 0" "rd (x # xs) (Suc n) = rd xs n" "rd (x # xs) (numeral k) = rd xs (pred_numeral k)"
  by (simp_all add: rd_def numeral_eq_Suc)

lemma cat_more_spec:
  assumes "sds_ok cur" "sdslen cur + 1 < 2 ^ 63" "rd b p = Some d" "d \<noteq> 0"
  shows "\<exists>cur'. cat_more garb b p inq insq cur c = Some (ArgMore (p + 1) inq insq cur') \<and> sds_ok cur' \<and> sds_str cur' = sds_str cur @ [c]"
  using sdscatlen_spec [OF assms(1), of 1 "[c]" garb] assms by (auto simp: cat_more_def adv_char_def)

lemma unescape_values: "unescape 110 = 10" "unescape 114 = 13" "unescape 116 = 9" "unescape 97 = 7" "unescape 98 = 8" "unescape 92 = 92" "unescape 34 = 34"
  by (simp_all add: unescape_def)

text \<open>The token loop reads one quoted byte.\<close>

lemma arg_step_repr:
  assumes ok: "sds_ok cur" "sdslen cur + 1 < 2 ^ 63" and b: "b = pre @ repr_byte c @ rest"
  shows "\<exists>cur'. arg_step garb b (length pre) True False cur = Some (ArgMore (length pre + length (repr_byte c)) True False cur') \<and>
     sds_ok cur' \<and> sds_str cur' = sds_str cur @ [c]"
proof -
  note cm = cat_more_spec [OF ok, where garb = garb and inq = True and insq = False]
  consider (e) d where "repr_byte c = [92, d]" "d \<noteq> 120" "d \<noteq> 0" "unescape d = c" | (p) "repr_byte c = [c]" "c \<noteq> 92" "c \<noteq> 34" "c \<noteq> 0"
    | (x) "repr_byte c = [92, 120, hex_char (unat c div 16), hex_char (unat c mod 16)]"
  proof -
    have "c = 92 \<or> c = 34 \<or> c \<in> {10, 13, 9, 7, 8} \<or> (c \<notin> {92, 34, 10, 13, 9, 7, 8} \<and> isprint c) \<or> (c \<notin> {92, 34, 10, 13, 9, 7, 8} \<and> \<not> isprint c)" by auto
    moreover have "isprint c \<Longrightarrow> c \<noteq> 0" by (auto simp: isprint_def)
    ultimately show ?thesis using that unescape_values by (auto simp: repr_byte_def)
  qed
  then show ?thesis
  proof cases
    case e
    have r: "rd b (length pre) = Some 92" "rd b (length pre + 1) = Some d" using e b by simp_all
    have h: "hex_escape b (length pre) = Some None" using r e by (simp add: hex_escape_def)
    show ?thesis using cm [OF r(2) e(3), of "unescape d"] r h e by (simp add: arg_step_def)
  next
    case p
    have r: "rd b (length pre) = Some c" using p b by simp
    have h: "hex_escape b (length pre) = Some None" using r p by (simp add: hex_escape_def)
    show ?thesis using cm [OF r p(4), of c] r h p by (simp add: arg_step_def)
  next
    case x
    have r: "rd b (length pre) = Some 92" "rd b (length pre + 1) = Some 120" "rd b (length pre + 2) = Some (hex_char (unat c div 16))"
      "rd b (length pre + 3) = Some (hex_char (unat c mod 16))" using x b by simp_all
    have h: "hex_escape b (length pre) = Some (Some c)"
      using r hex_chars [of c] hex_value [of c] unfolding hex_escape_def by simp
    have l: "length pre + length (repr_byte c) = length pre + 3 + 1" using x by simp
    show ?thesis unfolding l using cm [OF r(4) hex_chars(4), of c] r(1) h by (simp add: arg_step_def)
  qed
qed

lemma arg_loop_repr:
  "sds_ok cur \<Longrightarrow> sdslen cur + length v < 2 ^ 62 \<Longrightarrow> b = pre @ concat (map repr_byte v) @ 34 # e # rest \<Longrightarrow> e = 0 \<or> isspace e \<Longrightarrow>
     \<exists>cur'. arg_loop garb b (length pre) True False cur = Some (Some (length pre + length (concat (map repr_byte v)) + 1, cur')) \<and>
       sds_ok cur' \<and> sds_str cur' = sds_str cur @ v"
proof (induction v arbitrary: cur pre)
  case Nil
  have r: "rd b (length pre) = Some 34" "rd b (length pre + 1) = Some e" using Nil by simp_all
  have "arg_step garb b (length pre) True False cur = Some (ArgDone (length pre + 1) cur)"
    using r Nil(4) by (auto simp: arg_step_def hex_escape_def close_quote_def adv_char_def)
  then have "arg_loop garb b (length pre) True False cur = Some (Some (length pre + 1, cur))" by (subst arg_loop.simps) simp
  then show ?case using Nil(1) by simp
next
  case (Cons c v)
  have "sdslen cur + 1 < 2 ^ 63" using Cons.prems(2) by simp
  from arg_step_repr [OF Cons.prems(1) this, of b pre c "concat (map repr_byte v) @ 34 # e # rest" garb]
  obtain cur1 where c1: "arg_step garb b (length pre) True False cur = Some (ArgMore (length pre + length (repr_byte c)) True False cur1)"
    "sds_ok cur1" "sds_str cur1 = sds_str cur @ [c]" using Cons.prems(3) by auto
  have l: "sdslen cur1 + length v < 2 ^ 62" using Cons.prems c1 length_sds_str [OF c1(2)] length_sds_str [OF Cons.prems(1)] by simp
  have st: "arg_loop garb b (length pre) True False cur = arg_loop garb b (length (pre @ repr_byte c)) True False cur1"
    using c1(1) by (subst arg_loop.simps) simp
  have "b = (pre @ repr_byte c) @ concat (map repr_byte v) @ 34 # e # rest" using Cons.prems(3) by simp
  from Cons.IH [OF c1(2) l this Cons.prems(4)] show ?case unfolding st using c1(3) by (auto simp: add.assoc)
qed

text \<open>A whole token, from its opening quote on.\<close>

lemma arg_loop_token:
  assumes "length v < 2 ^ 62" "b = pre @ repr_str v @ e # rest" "e = 0 \<or> isspace e" "sdsempty garb = Some cur"
  shows "\<exists>cur'. arg_loop garb b (length pre) False False cur = Some (Some (length pre + length (repr_str v), cur')) \<and>
     sds_ok cur' \<and> sds_str cur' = v"
proof -
  have cur: "sds_ok cur" "sds_str cur = []" "sdslen cur = 0" using sdsempty_spec [of garb] assms(4) by auto
  have r: "rd b (length pre) = Some 34" using assms(2) by (simp add: repr_str_def)
  have st: "arg_step garb b (length pre) False False cur = Some (ArgMore (length pre + 1) True False cur)"
    using r by (simp add: arg_step_def adv_char_def)
  have "b = (pre @ [34]) @ concat (map repr_byte v) @ 34 # e # rest" using assms(2) by (simp add: repr_str_def)
  from arg_loop_repr [OF cur(1) _ this assms(3), of garb] obtain cur' where
    "arg_loop garb b (length pre + 1) True False cur = Some (Some (length pre + 1 + length (concat (map repr_byte v)) + 1, cur'))"
    "sds_ok cur'" "sds_str cur' = v" using assms(1) cur by auto
  then show ?thesis using st by (simp add: arg_loop.simps [of garb b "length pre" False] repr_str_def)
qed

text \<open>Quoted strings separated by single blanks.\<close>

fun quoted_line :: "byte list list \<Rightarrow> byte list" where
  "quoted_line [] = []"
| "quoted_line [v] = repr_str v"
| "quoted_line (v # w # vs) = repr_str v @ 32 # quoted_line (w # vs)"

lemma repr_str_hd: "\<exists>r. repr_str v = 34 # r" by (simp add: repr_str_def)

lemma quoted_line_hd: "vs \<noteq> [] \<Longrightarrow> \<exists>r. quoted_line vs = 34 # r"
  using repr_str_hd by (cases vs rule: quoted_line.cases) (auto, metis append_Cons)

lemma skip_blanks_none: "rd b p = Some c \<Longrightarrow> c = 0 \<or> \<not> isspace c \<Longrightarrow> skip_blanks b p = Some p"
  by (subst skip_blanks.simps) auto

lemma isspace_values: "isspace 32" "\<not> isspace 34" by (simp_all add: isspace_def)

lemma args_loop_quoted:
  assumes "\<forall>v \<in> set vs. length v < 2 ^ 62"
  shows "b = pre @ blank @ quoted_line vs @ 0 # rest \<Longrightarrow> blank \<in> {[], [32]} \<Longrightarrow>
     \<exists>ss. args_loop garb b (length pre) vec = Some (Some (vec @ ss)) \<and> (\<forall>s \<in> set ss. sds_ok s) \<and> map sds_str ss = vs"
  using assms
proof (induction vs arbitrary: pre blank vec)
  case Nil
  have r: "rd b (length (pre @ blank)) = Some 0" using Nil(1) by (simp add: rd_def nth_append)
  have "skip_blanks b (length pre) = Some (length (pre @ blank))"
  proof (cases "blank = []")
    case True then show ?thesis using skip_blanks_none [OF r] by simp
  next
    case False
    then have bl: "blank = [32]" using Nil(2) by simp
    then have "rd b (length pre) = Some 32" using Nil(1) by simp
    then show ?thesis using skip_blanks_none [OF r] isspace_values bl by (subst skip_blanks.simps) simp
  qed
  then show ?case using r by (simp add: args_loop.simps [of garb b "length pre"])
next
  case (Cons v vs)
  obtain q where q: "quoted_line (v # vs) = 34 # q" using quoted_line_hd by blast
  have r: "rd b (length (pre @ blank)) = Some 34" using Cons.prems(1) q by (simp add: rd_def nth_append)
  have sk: "skip_blanks b (length pre) = Some (length (pre @ blank))"
  proof (cases "blank = []")
    case True then show ?thesis using skip_blanks_none [OF r] isspace_values by simp
  next
    case False
    then have bl: "blank = [32]" using Cons.prems(2) by simp
    then have "rd b (length pre) = Some 32" using Cons.prems(1) by simp
    then show ?thesis using skip_blanks_none [OF r] isspace_values bl by (subst skip_blanks.simps) simp
  qed
  obtain cur where cur: "sdsempty garb = Some cur" using sdsempty_spec [of garb] by blast
  define tl where "tl = (if vs = [] then [] else 32 # quoted_line vs) @ 0 # rest"
  have bt: "b = (pre @ blank) @ repr_str v @ tl" using Cons.prems(1) by (cases vs) (simp_all add: tl_def)
  obtain e t where e: "tl = e # t" "e = 0 \<or> isspace e" using isspace_values by (cases "vs = []") (auto simp: tl_def)
  obtain cur' where c': "arg_loop garb b (length (pre @ blank)) False False cur =
      Some (Some (length (pre @ blank) + length (repr_str v), cur'))" "sds_ok cur'" "sds_str cur' = v"
    using arg_loop_token [of v b "pre @ blank" e t garb cur] bt e cur Cons.prems(3) by auto
  have step: "args_loop garb b (length pre) vec = args_loop garb b (length ((pre @ blank) @ repr_str v)) (vec @ [cur'])"
    using sk r cur c' by (subst args_loop.simps) (simp add: add.assoc)
  have blk: "(if vs = [] then [] else [32]) \<in> {[], [32 :: byte]}" by simp
  have "b = ((pre @ blank) @ repr_str v) @ (if vs = [] then [] else [32]) @ quoted_line vs @ 0 # rest" using bt by (simp add: tl_def)
  from Cons.IH [OF this blk, of "vec @ [cur']"] Cons.prems(3) obtain ss where
    "args_loop garb b (length ((pre @ blank) @ repr_str v)) (vec @ [cur']) = Some (Some ((vec @ [cur']) @ ss))"
    "\<forall>s \<in> set ss. sds_ok s" "map sds_str ss = vs" by auto
  then show ?case using step c' by (intro exI [of _ "cur' # ss"]) simp
qed

text \<open>A line of quoted strings, built the way the callers of \<open>sdscatrepr\<close> do.\<close>

fun catrepr_line :: "(nat \<Rightarrow> byte) \<Rightarrow> byte list list \<Rightarrow> sds \<Rightarrow> sds option" where
  "catrepr_line garb [] s = Some s"
| "catrepr_line garb [v] s = sdscatrepr garb s v"
| "catrepr_line garb (v # w # vs) s = do {
     s \<leftarrow> sdscatrepr garb s v;
     s \<leftarrow> sdscatlen garb s [32] 1;
     catrepr_line garb (w # vs) s }"

lemma catrepr_line_spec:
  "sds_ok s \<Longrightarrow> sdslen s + length (quoted_line vs) < 2 ^ 63 \<Longrightarrow>
     \<exists>s'. catrepr_line garb vs s = Some s' \<and> sds_ok s' \<and> sds_str s' = sds_str s @ quoted_line vs"
proof (induction vs arbitrary: s rule: quoted_line.induct)
  case 1 then show ?case by simp
next
  case (2 v) then show ?case using sdscatrepr_spec [OF 2(1)] by simp
next
  case (3 v w vs)
  obtain s1 where s1: "sdscatrepr garb s v = Some s1" "sds_ok s1" "sds_str s1 = sds_str s @ repr_str v"
    using sdscatrepr_spec [OF 3(2), of v garb] 3(3) by auto
  have l1: "sdslen s1 = sdslen s + length (repr_str v)" using s1 length_sds_str 3(2) by (metis length_append)
  obtain s2 where s2: "sdscatlen garb s1 [32] 1 = Some s2" "sds_ok s2" "sds_str s2 = sds_str s1 @ [32]"
    using sdscatlen_spec [OF s1(2), of 1 "[32]" garb] 3(3) l1 by auto
  have "sdslen s2 = sdslen s1 + 1" using s2 length_sds_str s1(2) by (metis length_append_singleton Suc_eq_plus1)
  then show ?case using 3(1) [OF s2(2)] 3(3) l1 s1 s2 by auto
qed

lemma length_repr_byte: "1 \<le> length (repr_byte c)"
  by (simp add: repr_byte_def)

lemma length_repr_str: "length v < length (repr_str v)"
proof -
  have "length v \<le> length (concat (map repr_byte v))"
  proof (induction v)
    case (Cons a v) then show ?case using length_repr_byte [of a] by (simp del: length_concat)
  qed simp
  then show ?thesis by (simp add: repr_str_def)
qed

lemma length_quoted_line: "v \<in> set vs \<Longrightarrow> length v < length (quoted_line vs)"
proof (induction vs rule: quoted_line.induct)
  case (3 u w vs)
  then show ?case using length_repr_str [of u] by (cases "v = u") auto
qed (use length_repr_str in auto)

text \<open>
  C14: Quoting and unquoting are inverse: a line of arguments written with sdscatrepr, separated by blanks, is read back by
  sdssplitargs as exactly these arguments, whatever bytes they contain.
\<close>

theorem sdssplitargs_sdscatrepr:
  assumes "length (quoted_line vs) < 2 ^ 62"
  shows "\<exists>e line args. sdsempty garb = Some e \<and> catrepr_line garb vs e = Some line \<and>
     sdssplitargs garb (sbuf line) = Some (Some args) \<and> (\<forall>a \<in> set args. sds_ok a) \<and> map sds_str args = vs"
proof -
  obtain e where e: "sdsempty garb = Some e" "sds_ok e" "sds_str e = []" "sdslen e = 0" using sdsempty_spec [of garb] by blast
  obtain l where l: "catrepr_line garb vs e = Some l" "sds_ok l" "sds_str l = quoted_line vs"
    using catrepr_line_spec [OF e(2), of vs garb] assms e by auto
  have "sdslen l < length (sbuf l)" "sbuf l ! sdslen l = 0" using l(2) by (auto simp: sds_ok_def)
  then have "sbuf l = quoted_line vs @ 0 # drop (Suc (sdslen l)) (sbuf l)"
    using l(3) unfolding sds_str_def by (metis id_take_nth_drop)
  then have "sbuf l = [] @ [] @ quoted_line vs @ 0 # drop (Suc (sdslen l)) (sbuf l)" by simp
  moreover have "\<forall>v \<in> set vs. length v < 2 ^ 62" using length_quoted_line assms by fastforce
  ultimately obtain ss where "args_loop garb (sbuf l) (length ([] :: byte list)) [] = Some (Some ([] @ ss))" "\<forall>s \<in> set ss. sds_ok s" "map sds_str ss = vs"
    using args_loop_quoted [of vs "sbuf l" "[]" "[]" _ garb "[]"] by blast
  then show ?thesis using e l by (auto simp: sdssplitargs_def)
qed

theorem sdssplitargs_sdscatrepr_witness:
  "\<exists>e line args. sdsempty (\<lambda>_. 7) = Some e \<and> catrepr_line (\<lambda>_. 7) [[115, 101, 116], [], [34, 0, 255, 10]] e = Some line \<and>
     sdssplitargs (\<lambda>_. 7) (sbuf line) = Some (Some args) \<and> (\<forall>a \<in> set args. sds_ok a) \<and> map sds_str args = [[115, 101, 116], [], [34, 0, 255, 10]]"
  by (rule sdssplitargs_sdscatrepr) (simp add: repr_str_def repr_byte_def isprint_def)

section \<open>Splitting any line\<close>

lemma hex_escape_total:
  assumes "b = line @ [0]" "p < length b"
  shows "\<exists>r. hex_escape b p = Some r \<and> (\<forall>h. r = Some h \<longrightarrow> p + 3 < length line)"
proof -
  have z: "q < length line" if "q < length b" "b ! q \<noteq> 0" for q
    using that assms(1) by (metis length_append_singleton less_antisym nth_append_length)
  show ?thesis
  proof (cases "b ! p = 92 \<and> b ! (p + 1) = 120 \<and> is_hex_digit (b ! (p + 2)) \<and> is_hex_digit (b ! (p + 3))")
    case True
    have "p < length line" using z assms(2) True by auto
    then have "p + 1 < length line" using z [of "p + 1"] True assms(1) by auto
    then have "p + 2 < length line" using z [of "p + 2"] True assms(1) is_hex_digit_nonzero [of "b ! (p + 2)"] by auto
    then have "p + 3 < length line" using z [of "p + 3"] True assms(1) is_hex_digit_nonzero [of "b ! (p + 3)"] by auto
    then show ?thesis using True assms(1) by (simp add: hex_escape_def rd_def)
  next
    case False
    have "p < length line" if "b ! p = 92" using z assms(2) that by auto
    moreover have "p + 1 < length line" if "b ! (p + 1) = 120" "p < length line" using z [of "p + 1"] that assms(1) by auto
    moreover have "p + 2 < length line" if "is_hex_digit (b ! (p + 2))" "p + 1 < length line"
      using z [of "p + 2"] that assms(1) is_hex_digit_nonzero [of "b ! (p + 2)"] by auto
    ultimately show ?thesis using False assms
      by (cases "b ! p = 92"; cases "b ! (p + 1) = 120"; cases "is_hex_digit (b ! (p + 2))") (simp_all add: hex_escape_def rd_def)
  qed
qed

definition arg_state_ok :: "byte list \<Rightarrow> nat \<Rightarrow> sds \<Rightarrow> bool" where
  "arg_state_ok line p cur \<longleftrightarrow> p \<le> length line \<and> sds_ok cur \<and> sdslen cur \<le> p"

lemma arg_step_total:
  assumes b: "b = line @ [0]" "length line < 2 ^ 62" and st: "arg_state_ok line p cur"
  shows "arg_step garb b p inq insq cur = Some ArgErr \<or>
     (\<exists>p' cur'. arg_step garb b p inq insq cur = Some (ArgDone p' cur') \<and> arg_state_ok line p' cur') \<or>
     (\<exists>p' q s cur'. arg_step garb b p inq insq cur = Some (ArgMore p' q s cur') \<and> arg_state_ok line p' cur')"
    (is "?G (arg_step garb b p inq insq cur)")
proof -
  have ok: "sds_ok cur" "sdslen cur \<le> p" "p \<le> length line" using st by (auto simp: arg_state_ok_def)
  have r: "rd b p = Some (b ! p)" using ok b by simp
  have z: "q < length line" if "q < length b" "b ! q \<noteq> 0" for q
    using that b(1) by (metis length_append_singleton less_antisym nth_append_length)
  have cm: "?G (cat_more garb b q i s cur c)" if q: "p \<le> q" "q < length line" "b ! q \<noteq> 0" for q i s c
  proof -
    have "sdslen cur + 1 < 2 ^ 63" using ok b q by simp
    moreover have "rd b q = Some (b ! q)" using q b(1) by simp
    ultimately obtain cur' where
      c': "cat_more garb b q i s cur c = Some (ArgMore (q + 1) i s cur')" "sds_ok cur'" "sds_str cur' = sds_str cur @ [c]"
      using cat_more_spec [OF ok(1) _ _ q(3)] by blast
    have "sdslen cur' = sdslen cur + 1" using c' ok(1) length_sds_str by (metis length_append_singleton Suc_eq_plus1)
    then show ?thesis using c' q ok by (auto simp: arg_state_ok_def)
  qed
  have cl: "?G (close_quote b p cur)" if "b ! p \<noteq> 0"
  proof -
    have "p < length line" using z [of p] that b ok by auto
    then show ?thesis using that ok b by (simp add: close_quote_def adv_char_def arg_state_ok_def)
  qed
  have ad: "adv_char b p = Some (if b ! p \<noteq> 0 then p + 1 else p)" using r by (simp add: adv_char_def)
  have pz: "p < length line" if "b ! p \<noteq> 0" using z [of p] that b ok by auto
  have r1: "rd b (p + 1) = Some (b ! (p + 1))" if "b ! p \<noteq> 0" using pz [OF that] b by simp
  have p1: "p + 1 < length line" if "b ! p \<noteq> 0" "b ! (p + 1) \<noteq> 0" using z [of "p + 1"] pz [OF that(1)] that b by auto
  obtain hx where hx: "hex_escape b p = Some hx" "\<forall>h. hx = Some h \<longrightarrow> p + 3 < length line" using hex_escape_total [OF b(1), of p] ok b by auto
  consider (q) inq | (sq) "\<not> inq" insq | (n) "\<not> inq" "\<not> insq" by blast
  then show ?thesis
  proof cases
    case q
    show ?thesis
    proof (cases hx)
      case (Some h)
      have "b ! (p + 3) \<noteq> 0" using hex_escape_Some [of b p h] hx Some is_hex_digit_nonzero by auto
      then show ?thesis using cm [of "p + 3"] hx Some q r by (simp add: arg_step_def)
    next
      case None
      consider (a) "b ! p = 92" "b ! (p + 1) \<noteq> 0" | (b) "b ! p = 92" "b ! (p + 1) = 0" | (c) "b ! p = 34" | (d) "b ! p = 0"
        | (e) "b ! p \<noteq> 92" "b ! p \<noteq> 34" "b ! p \<noteq> 0" by blast
      then show ?thesis
      proof cases
        case a then show ?thesis using cm [of "p + 1"] p1 r1 r hx(1) None q by (simp add: arg_step_def)
      next
        case b then show ?thesis using cm [of p] pz r1 r hx(1) None q by (simp add: arg_step_def)
      next
        case c then show ?thesis using cl r hx(1) None q by (simp add: arg_step_def)
      next
        case d then show ?thesis using r hx(1) None q by (simp add: arg_step_def)
      next
        case e then show ?thesis using cm [of p] pz r hx(1) None q by (simp add: arg_step_def)
      qed
    qed
  next
    case sq
    consider (a) "b ! p = 92" "b ! (p + 1) = 39" | (b) "b ! p = 92" "b ! (p + 1) \<noteq> 39" | (c) "b ! p = 39" | (d) "b ! p = 0"
        | (e) "b ! p \<noteq> 92" "b ! p \<noteq> 39" "b ! p \<noteq> 0" by blast
    then show ?thesis
    proof cases
      case a then show ?thesis using cm [of "p + 1"] p1 r1 r sq by (simp add: arg_step_def)
    next
      case b then show ?thesis using cm [of p] pz r1 r sq by (simp add: arg_step_def)
    next
      case c then show ?thesis using cl r sq by (simp add: arg_step_def)
    next
      case d then show ?thesis using r sq by (simp add: arg_step_def)
    next
      case e then show ?thesis using cm [of p] pz r sq by (simp add: arg_step_def)
    qed
  next
    case n
    have adv: "arg_state_ok line (if b ! p \<noteq> 0 then p + 1 else p) cur" using st pz by (auto simp: arg_state_ok_def)
    show ?thesis using n r ad adv cm [of p] pz by (auto simp: arg_step_def)
  qed
qed

lemma arg_loop_total:
  "b = line @ [0] \<Longrightarrow> length line < 2 ^ 62 \<Longrightarrow> arg_state_ok line p cur \<Longrightarrow>
     \<exists>r. arg_loop garb b p inq insq cur = Some r \<and> (\<forall>p' cur'. r = Some (p', cur') \<longrightarrow> arg_state_ok line p' cur')"
proof (induction garb b p inq insq cur rule: arg_loop.induct)
  case (1 garb b p inq insq cur)
  from arg_step_total [OF 1(2-4), of garb inq insq] show ?case
  proof (elim disjE exE conjE)
    assume "arg_step garb b p inq insq cur = Some ArgErr"
    then show ?thesis by (subst arg_loop.simps) simp
  next
    fix p' cur'
    assume "arg_step garb b p inq insq cur = Some (ArgDone p' cur')" "arg_state_ok line p' cur'"
    then show ?thesis by (subst arg_loop.simps) simp
  next
    fix p' q s cur'
    assume a: "arg_step garb b p inq insq cur = Some (ArgMore p' q s cur')" "arg_state_ok line p' cur'"
    then show ?thesis using 1(1) [OF a(1) refl 1(2,3) a(2)] by (subst arg_loop.simps) simp
  qed
qed

lemma skip_blanks_total: "b = line @ [0] \<Longrightarrow> p \<le> length line \<Longrightarrow> \<exists>p'. skip_blanks b p = Some p' \<and> p' \<le> length line"
proof (induction b p rule: skip_blanks.induct)
  case (1 b p)
  have r: "rd b p = Some (b ! p)" using 1 by simp
  show ?case
  proof (cases "b ! p \<noteq> 0 \<and> isspace (b ! p)")
    case True
    then have "p + 1 \<le> length line" using 1(2,3) by (metis Suc_eq_plus1 Suc_leI le_neq_implies_less nth_append_length)
    then show ?thesis using 1(1) [OF r True 1(2)] True r by (subst skip_blanks.simps) simp
  next
    case False then show ?thesis using r 1(3) by (subst skip_blanks.simps) auto
  qed
qed

lemma sdssplitargs_total:
  assumes "length line < 2 ^ 62"
  shows "\<exists>r. sdssplitargs garb (line @ [0]) = Some r \<and> (\<forall>args. r = Some args \<longrightarrow> (\<forall>a \<in> set args. sds_ok a \<and> length (sds_str a) \<le> length line))"
proof -
  have "\<exists>r. args_loop garb b p vec = Some r \<and> (\<forall>args. r = Some args \<longrightarrow> (\<forall>a \<in> set args. sds_ok a \<and> sdslen a \<le> length line))"
    if "b = line @ [0]" "p \<le> length line" "\<forall>a \<in> set vec. sds_ok a \<and> sdslen a \<le> length line" for b p vec
    using that
  proof (induction garb b p vec rule: args_loop.induct)
    case (1 garb b p vec)
    obtain p1 where p1: "skip_blanks b p = Some p1" "p1 \<le> length line" using skip_blanks_total [OF 1(2,3)] by blast
    have r: "rd b p1 = Some (b ! p1)" using p1 1(2) by simp
    obtain e where e: "sdsempty garb = Some e" "sds_ok e" "sdslen e = 0" using sdsempty_spec [of garb] by blast
    have "arg_state_ok line p1 e" using e p1 by (simp add: arg_state_ok_def)
    from arg_loop_total [OF 1(2) assms this, of garb False False] obtain q where
      q: "arg_loop garb b p1 False False e = Some q" "\<forall>p' cur'. q = Some (p', cur') \<longrightarrow> arg_state_ok line p' cur'" by blast
    show ?case
    proof (cases "b ! p1 \<noteq> 0")
      case True
      show ?thesis
      proof (cases q)
        case None then show ?thesis using p1 r e q True by (subst args_loop.simps) simp
      next
        case (Some pc)
        obtain p2 c2 where pc: "pc = (p2, c2)" by (cases pc)
        then have s2: "arg_state_ok line p2 c2" using q Some by blast
        then have "\<forall>a \<in> set (vec @ [c2]). sds_ok a \<and> sdslen a \<le> length line" "p2 \<le> length line" using 1(4) by (auto simp: arg_state_ok_def)
        then show ?thesis using 1(1) [OF p1(1) r True e(1) q(1) Some pc [symmetric] 1(2)] p1 r e q True Some pc by (subst args_loop.simps) simp
      qed
    next
      case False then show ?thesis using p1 r 1(4) by (subst args_loop.simps) simp
    qed
  qed
  from this [of "line @ [0]" 0 "[]"] obtain r where r: "sdssplitargs garb (line @ [0]) = Some r"
    "\<forall>args. r = Some args \<longrightarrow> (\<forall>a \<in> set args. sds_ok a \<and> sdslen a \<le> length line)"
    unfolding sdssplitargs_def by auto
  show ?thesis by (rule exI [of _ r]) (use r in \<open>auto simp: length_sds_str\<close>)
qed

text \<open>
  C15: sdssplitargs ends, and reads no byte behind the terminator, on every C string: it returns the arguments as well-formed strings, or the
  null pointer for unbalanced quotes.
\<close>

theorem sdssplitargs_safe:
  assumes "length line < 2 ^ 62"
  shows "\<exists>r. sdssplitargs garb (line @ [0]) = Some r \<and> (\<forall>args. r = Some args \<longrightarrow> (\<forall>a \<in> set args. sds_ok a \<and> length (sds_str a) \<le> length line))"
  by (rule sdssplitargs_total [OF assms])

theorem sdssplitargs_safe_witness:
  "\<exists>r. sdssplitargs (\<lambda>_. 0) ([34, 97, 92] @ [0]) = Some r \<and> (\<forall>args. r = Some args \<longrightarrow> (\<forall>a \<in> set args. sds_ok a \<and> length (sds_str a) \<le> length [34 :: byte, 97, 92]))"
  by (rule sdssplitargs_safe) simp

section \<open>Splitting and joining\<close>

text \<open>The strings between separators, joined again.\<close>

fun join_spec :: "byte list \<Rightarrow> byte list list \<Rightarrow> byte list" where
  "join_spec sep [] = []"
| "join_spec sep [a] = a"
| "join_spec sep (a # b # as) = a @ sep @ join_spec sep (b # as)"

lemma join_spec_snoc: "join_spec sep (ts @ [t]) = concat (map (\<lambda>t. t @ sep) ts) @ t"
  by (induction sep ts rule: join_spec.induct) auto

lemma join_loop_spec:
  "sds_ok j \<Longrightarrow> \<forall>s \<in> set ss. sds_ok s \<Longrightarrow> sdslen j + length (join_spec sep (map sds_str ss)) < 2 ^ 63 \<Longrightarrow>
     \<exists>s'. join_loop garb sep ss j = Some s' \<and> sds_ok s' \<and> sds_str s' = sds_str j @ join_spec sep (map sds_str ss)"
proof (induction garb sep ss j rule: join_loop.induct)
  case (1 garb sep j) then show ?case by simp
next
  case (2 garb sep a j)
  then show ?case using sdscatsds_spec [of j a garb] length_sds_str [of a] by simp
next
  case (3 garb sep a b as j)
  have la: "length (sds_str a) = sdslen a" using 3 length_sds_str by simp
  obtain j1 where j1: "sdscatsds garb j a = Some j1" "sds_ok j1" "sds_str j1 = sds_str j @ sds_str a"
    using sdscatsds_spec [of j a garb] 3(2-4) la by auto
  have l1: "sdslen j1 = sdslen j + sdslen a" using j1 length_sds_str [OF j1(2)] length_sds_str [OF 3(2)] la by simp
  obtain j2 where j2: "sdscatlen garb j1 sep (length sep) = Some j2" "sds_ok j2" "sds_str j2 = sds_str j1 @ sep"
    using sdscatlen_spec [OF j1(2), of "length sep" sep garb] 3(4) l1 la by auto
  have l2: "sdslen j2 = sdslen j1 + length sep" using j2 length_sds_str [OF j1(2)] length_sds_str [OF j2(2)] by simp
  have "\<exists>s'. join_loop garb sep (b # as) j2 = Some s' \<and> sds_ok s' \<and> sds_str s' = sds_str j2 @ join_spec sep (map sds_str (b # as))"
    using 3(1) [OF j1(1) j2(1) j2(2)] 3(3,4) l1 l2 la by auto
  then show ?case using j1 j2 by auto
qed

lemma sdsjoinsds_spec:
  assumes "\<forall>s \<in> set ss. sds_ok s" "length (join_spec sep (map sds_str ss)) < 2 ^ 63"
  shows "\<exists>s'. sdsjoinsds garb ss sep = Some s' \<and> sds_ok s' \<and> sds_str s' = join_spec sep (map sds_str ss)"
proof -
  obtain e where e: "sdsempty garb = Some e" "sds_ok e" "sds_str e = []" "sdslen e = 0" using sdsempty_spec [of garb] by blast
  then show ?thesis using join_loop_spec [OF e(2) assms(1), of sep garb] assms(2) by (auto simp: sdsjoinsds_def)
qed

definition no_match :: "byte list \<Rightarrow> byte list \<Rightarrow> nat \<Rightarrow> nat \<Rightarrow> bool" where
  "no_match s sep a e \<longleftrightarrow> (\<forall>i. a \<le> i \<longrightarrow> i + length sep \<le> e \<longrightarrow> take (length sep) (drop i s) \<noteq> sep)"

lemma no_match_sublist:
  assumes "no_match s sep a e" "a \<le> e" "e \<le> length s"
  shows "\<not> sublist sep (take (e - a) (drop a s))"
proof
  assume "sublist sep (take (e - a) (drop a s))"
  then obtain ps ss where t: "take (e - a) (drop a s) = ps @ sep @ ss" by (auto simp: sublist_def)
  have len: "length ps + length sep + length ss = e - a" using arg_cong [OF t, of length] assms by simp
  have "take (length sep) (drop (length ps) (take (e - a) (drop a s))) = sep" unfolding t by simp
  then have "take (length sep) (drop (a + length ps) s) = sep" using len by (simp add: drop_take min_def add.commute split: if_splits)
  moreover have "take (length sep) (drop (a + length ps) s) \<noteq> sep"
    using assms(1) len assms(2) unfolding no_match_def by (metis le_add1 le_add_diff_inverse add.assoc add_le_cancel_left)
  ultimately show False by simp
qed

lemma split_loop_spec:
  assumes "sep \<noteq> []" "len \<le> length s" "len < 2 ^ 63"
  shows "start \<le> j \<Longrightarrow> j \<le> len \<Longrightarrow> no_match s sep start (j + length sep - 1) \<Longrightarrow>
     \<forall>t \<in> set toks. sds_ok t \<and> \<not> sublist sep (sds_str t) \<Longrightarrow> concat (map (\<lambda>t. sds_str t @ sep) toks) = take start s \<Longrightarrow>
     \<exists>st toks'. split_loop garb s len sep j start toks = Some (st, toks') \<and> st \<le> len \<and> no_match s sep st len \<and>
       (\<forall>t \<in> set toks'. sds_ok t \<and> \<not> sublist sep (sds_str t)) \<and> concat (map (\<lambda>t. sds_str t @ sep) toks') = take st s"
  using assms
proof (induction garb s len sep j start toks rule: split_loop.induct)
  case (1 garb s len sep j start toks)
  have ls: "0 < length sep" using 1(8) by simp
  show ?case
  proof (cases "int j < int len - (int (length sep) - 1)")
    case True
    then have c: "int j < int len - (int (length sep) - 1) \<and> sep \<noteq> []" using 1(8) by simp
    have jl: "j + length sep \<le> len" using True by simp
    have g: "get_bytes s j (length sep) = Some (take (length sep) (drop j s))" using jl 1(9) by (simp add: get_bytes_def)
    show ?thesis
    proof (cases "take (length sep) (drop j s) = sep")
      case m: True
      obtain t where t: "sdsnewlen garb (Some (drop start s)) (j - start) = Some t" "sds_ok t" "sds_str t = take (j - start) (drop start s)"
      proof -
        have "j - start \<le> length (drop start s)" using jl 1(9) by simp
        moreover have "j - start < 2 ^ 63" using jl 1(10) by linarith
        ultimately show ?thesis using sdsnewlen_spec that by blast
      qed
      have "j \<le> j + length sep - 1" using ls by linarith
      then have "no_match s sep start j" using 1(5) unfolding no_match_def by (meson order_trans)
      then have ns: "\<not> sublist sep (sds_str t)" using no_match_sublist [of s sep start j] t 1(3) jl 1(9) by simp
      have nm: "no_match s sep (j + length sep) (j + length sep + length sep - 1)"
      proof -
        have False if "j + length sep \<le> i" "i + length sep \<le> j + length sep + length sep - 1" for i using that ls by linarith
        then show ?thesis unfolding no_match_def by blast
      qed
      have cc: "concat (map (\<lambda>t. sds_str t @ sep) (toks @ [t])) = take (j + length sep) s"
      proof -
        have "take start s @ take (j - start) (drop start s) = take j s" using 1(3) by (metis le_add_diff_inverse take_add)
        moreover have "take j s @ sep = take (j + length sep) s" using m by (metis take_add)
        ultimately have "(take start s @ take (j - start) (drop start s)) @ sep = take (j + length sep) s" by (simp only:)
        then show ?thesis using 1(7) t(3) by simp
      qed
      have tk: "\<forall>t \<in> set (toks @ [t]). sds_ok t \<and> \<not> sublist sep (sds_str t)" using 1(6) t ns by simp
      have "split_loop garb s len sep j start toks = split_loop garb s len sep (j + length sep) (j + length sep) (toks @ [t])"
        using c g m t by (subst split_loop.simps) simp
      then show ?thesis using 1(1) [OF c g m t(1) le_refl jl nm tk cc 1(8-10)] by simp
    next
      case nm: False
      have "no_match s sep start (j + 1 + length sep - 1)"
        unfolding no_match_def
      proof (intro allI impI)
        fix i assume i: "start \<le> i" "i + length sep \<le> j + 1 + length sep - 1"
        show "take (length sep) (drop i s) \<noteq> sep"
        proof (cases "i = j")
          case False then show ?thesis using i ls 1(5) unfolding no_match_def by auto
        qed (use nm in simp)
      qed
      moreover have "split_loop garb s len sep j start toks = split_loop garb s len sep (j + 1) start toks"
        using c g nm by (subst split_loop.simps) simp
      ultimately show ?thesis using 1(2) [OF c g nm] 1(3-10) jl ls by simp
    qed
  next
    case False
    then have "no_match s sep start len" using 1(5) ls unfolding no_match_def by auto
    then show ?thesis using False 1(3,4,6,7) by (subst split_loop.simps) auto
  qed
qed

text \<open>
  C16: Splitting at a separator and joining are inverse: sdssplitlen returns well-formed strings none of which contains the separator,
  and sdsjoinsds puts the original bytes together again.
\<close>

theorem sdssplitlen_sdsjoinsds:
  assumes "s \<noteq> []" "sep \<noteq> []" "length s < 2 ^ 31"
  shows "\<exists>toks j. sdssplitlen garb s (int (length s)) sep = Some (Some toks) \<and>
     (\<forall>t \<in> set toks. sds_ok t \<and> \<not> sublist sep (sds_str t)) \<and> sdsjoinsds garb toks sep = Some j \<and> sds_str j = s"
proof -
  have nm: "no_match s sep 0 (0 + length sep - 1)" using assms(2) by (cases sep) (auto simp: no_match_def)
  have l: "length s < 2 ^ 63" using assms(3) by simp
  from split_loop_spec [OF assms(2) le_refl l le0 le0 nm, of "[]" garb] obtain st toks where
    st: "split_loop garb s (length s) sep 0 0 [] = Some (st, toks)" "st \<le> length s" "no_match s sep st (length s)"
    "\<forall>t \<in> set toks. sds_ok t \<and> \<not> sublist sep (sds_str t)" "concat (map (\<lambda>t. sds_str t @ sep) toks) = take st s" by auto
  obtain t where t: "sdsnewlen garb (Some (drop st s)) (length s - st) = Some t" "sds_ok t" "sds_str t = drop st s"
  proof -
    have "length s - st < 2 ^ 63" using l by linarith
    then show ?thesis using sdsnewlen_spec [of "length s - st" "drop st s" garb] that by auto
  qed
  have nt: "\<not> sublist sep (sds_str t)" using no_match_sublist [OF st(3,2)] t(3) by simp
  have sp: "sdssplitlen garb s (int (length s)) sep = Some (Some (toks @ [t]))" using st(1) t(1) assms by (simp add: sdssplitlen_def not_less_eq_eq)
  have js: "join_spec sep (map sds_str (toks @ [t])) = s"
    using st(5) t(3) by (simp add: join_spec_snoc comp_def)
  have ok: "\<forall>t \<in> set (toks @ [t]). sds_ok t \<and> \<not> sublist sep (sds_str t)" using st(4) t(2) nt by simp
  then have "\<forall>t \<in> set (toks @ [t]). sds_ok t" by blast
  from sdsjoinsds_spec [OF this, of sep garb] js l obtain j where "sdsjoinsds garb (toks @ [t]) sep = Some j" "sds_str j = s" by auto
  then show ?thesis using sp ok by blast
qed

theorem sdssplitlen_sdsjoinsds_witness:
  "\<exists>toks j. sdssplitlen (\<lambda>_. 1) [97, 13, 10, 13, 10, 98] (int (length [97 :: byte, 13, 10, 13, 10, 98])) [13, 10] = Some (Some toks) \<and>
     (\<forall>t \<in> set toks. sds_ok t \<and> \<not> sublist [13, 10] (sds_str t)) \<and> sdsjoinsds (\<lambda>_. 1) toks [13, 10] = Some j \<and> sds_str j = [97, 13, 10, 13, 10, 98]"
  by (rule sdssplitlen_sdsjoinsds) simp_all

section \<open>Numbers\<close>

lemma ull_digits_spec:
  "p + length (dec (unat v)) \<le> length b \<Longrightarrow>
     ull_digits b p v = Some (patch b p (rev (dec (unat v))), p + length (dec (unat v)))"
proof (induction b p v rule: ull_digits.induct)
  case (1 b p v)
  have c: "chr_0 + ucast (v mod 10) = (chr_0 + of_nat (unat v mod 10) :: byte)"
    by (simp add: word_unat_eq_iff unsigned_ucast_eq unat_word_ariths unat_mod take_bit_eq_mod unat_of_nat flip: unat_mod)
  have vd: "unat (v div 10) = unat v div 10" by (simp add: unat_div)
  have p: "p < length b" using 1(2) dec_not_Nil [of "unat v"] by (metis add_less_same_cancel1 add_lessD1 length_greater_0_conv less_le_trans less_add_same_cancel1)
  have w: "wr b p (chr_0 + ucast (v mod 10)) = Some (b[p := chr_0 + of_nat (unat v mod 10)])" using p c by simp
  show ?case
  proof (cases "v div 10 \<noteq> 0")
    case True
    then have ge: "\<not> unat v < 10" using vd by (metis div_less unat_eq_0)
    have d: "dec (unat v) = dec (unat v div 10) @ [chr_0 + of_nat (unat v mod 10)]" using ge by (subst dec.simps) simp
    have l: "Suc p + length (dec (unat (v div 10))) \<le> length (b[p := chr_0 + of_nat (unat v mod 10)])" using 1(2) d vd by simp
    have "ull_digits b p v = ull_digits (b[p := chr_0 + of_nat (unat v mod 10)]) (Suc p) (v div 10)"
      using w True by (subst ull_digits.simps) simp
    also have "\<dots> = Some (patch (b[p := chr_0 + of_nat (unat v mod 10)]) (Suc p) (rev (dec (unat v div 10))), Suc p + length (dec (unat v div 10)))"
      using 1(1) [OF w True l] vd by simp
    also have "patch (b[p := chr_0 + of_nat (unat v mod 10)]) (Suc p) (rev (dec (unat v div 10))) = patch b p (rev (dec (unat v)))"
      using p d by (simp add: patch_def take_Suc_conv_app_nth)
    finally show ?thesis using d by simp
  next
    case False
    then have lt: "unat v < 10" using vd by (metis div_eq_0_iff unat_0 zero_neq_numeral)
    have d: "dec (unat v) = [chr_0 + of_nat (unat v mod 10)]" using lt by (subst dec.simps) simp
    have "ull_digits b p v = Some (b[p := chr_0 + of_nat (unat v mod 10)], Suc p)" using w False by (subst ull_digits.simps) simp
    then show ?thesis using d p by (simp add: list_update_patch)
  qed
qed

lemma reverse_bytes_spec:
  "length mid = p + 1 - s \<Longrightarrow> length pre = s \<Longrightarrow> s \<le> p + 1 \<Longrightarrow> reverse_bytes (pre @ mid @ post) s p = Some (pre @ rev mid @ post)"
proof (induction "length mid" arbitrary: mid pre post s p rule: less_induct)
  case less
  show ?case
  proof (cases "s < p")
    case True
    obtain x mid' y where m: "mid = x # mid' @ [y]"
    proof -
      obtain x r where "mid = x # r" using less(2) True by (cases mid) auto
      moreover then have "r \<noteq> []" using less(2) True by auto
      ultimately show ?thesis using that by (metis append_butlast_last_id)
    qed
    have lm: "length mid' = p - 1 + 1 - (s + 1)" "p = s + length mid' + 1" using m less(2) True by simp_all
    have rs: "rd (pre @ mid @ post) s = Some x" "rd (pre @ mid @ post) p = Some y"
      using m less(3) lm by (simp_all add: rd_def nth_append)
    have w1: "wr (pre @ mid @ post) s y = Some (pre @ y # mid' @ y # post)" using m less(3) by (simp add: wr_def list_update_append)
    have w2: "wr (pre @ y # mid' @ y # post) p x = Some (pre @ y # mid' @ x # post)" using less(3) lm by (simp add: wr_def list_update_append)
    have "reverse_bytes ((pre @ [y]) @ mid' @ x # post) (s + 1) (p - 1) = Some ((pre @ [y]) @ rev mid' @ x # post)"
      by (rule less(1)) (use m lm less(3) True in auto)
    then show ?thesis using True rs w1 w2 m by (subst reverse_bytes.simps) simp
  next
    case False
    then have "length mid \<le> 1" using less(2) by simp
    then have "rev mid = mid" by (cases mid) (auto simp: Suc_le_eq)
    then show ?thesis using False by (subst reverse_bytes.simps) simp
  qed
qed

lemma digits_then_reverse:
  assumes "length ds < length b" "ds \<noteq> []"
  shows "\<exists>b'. wr (patch b 0 (rev ds)) (length ds) 0 = Some b' \<and> reverse_bytes b' 0 (length ds - 1) = Some (ds @ 0 # drop (Suc (length ds)) b)"
proof -
  have "wr (patch b 0 (rev ds)) (length ds) 0 = Some (rev ds @ 0 # drop (Suc (length ds)) b)"
    using assms by (simp add: patch_def wr_def list_update_append upd_conv_take_nth_drop flip: Cons_nth_drop_Suc)
  moreover have "reverse_bytes ([] @ rev ds @ 0 # drop (Suc (length ds)) b) 0 (length ds - 1) = Some ([] @ rev (rev ds) @ 0 # drop (Suc (length ds)) b)"
    by (rule reverse_bytes_spec) (use assms in auto)
  ultimately show ?thesis by simp
qed

lemma sdsll2str_spec:
  assumes "length b = SDS_LLSTR_SIZE"
  shows "sdsll2str b v = Some (dec_int (sint v) @ 0 # drop (Suc (length (dec_int (sint v)))) b, length (dec_int (sint v)))"
proof -
  define u where "u = (if v <s 0 then - v else v)"
  have lu: "length (dec_int (sint v)) \<le> 20" by (rule length_dec_int_s64)
  have di: "dec_int (sint v) = (if v <s 0 then chr_minus # dec (unat u) else dec (unat u))"
    using unat_neg_sint [of v] unat_pos_sint [of v] by (auto simp: u_def dec_int_def word_sless_alt)
  have l: "length (dec (unat u)) < length b" using lu di assms by (auto simp: SDS_LLSTR_SIZE_def split: if_splits)
  have e1: "ull_digits b 0 u = Some (patch b 0 (rev (dec (unat u))), length (dec (unat u)))"
    using ull_digits_spec [of 0 u b] l by simp
  have e2: "(if v <s 0 then do { b \<leftarrow> wr (patch b 0 (rev (dec (unat u)))) (length (dec (unat u))) chr_minus; Some (b, Suc (length (dec (unat u)))) }
      else Some (patch b 0 (rev (dec (unat u))), length (dec (unat u)))) = Some (patch b 0 (rev (dec_int (sint v))), length (dec_int (sint v)))"
  proof (cases "v <s 0")
    case True
    have "(patch b 0 (rev (dec (unat u))))[length (dec (unat u)) := chr_minus] = patch b 0 (rev (dec (unat u)) @ [chr_minus])"
      using l by (simp add: patch_def list_update_append upd_conv_take_nth_drop)
    then show ?thesis using True l di by (simp add: wr_def)
  next
    case False then show ?thesis using di by simp
  qed
  have ne: "dec_int (sint v) \<noteq> []" by (simp add: dec_int_def)
  have lb: "length (dec_int (sint v)) < length b" using lu assms by (simp add: SDS_LLSTR_SIZE_def)
  show ?thesis using e1 e2 digits_then_reverse [OF lb ne] unfolding sdsll2str_def u_def [symmetric] by auto
qed

text \<open>
  C31: sdsfromlonglong writes the decimal representation of its argument, the most negative value included.
\<close>

theorem sdsfromlonglong_correct:
  "\<exists>s. sdsfromlonglong garb v = Some s \<and> sds_ok s \<and> sds_str s = dec_int (sint v)"
proof -
  let ?d = "dec_int (sint v)"
  have e: "sdsll2str (map garb [0..<SDS_LLSTR_SIZE]) v = Some (?d @ 0 # drop (Suc (length ?d)) (map garb [0..<SDS_LLSTR_SIZE]), length ?d)"
    by (rule sdsll2str_spec) simp
  have "length ?d < 2 ^ 63" using length_dec_int_s64 [of v] by simp
  then show ?thesis using sdsnewlen_spec [of "length ?d" "?d @ 0 # drop (Suc (length ?d)) (map garb [0..<SDS_LLSTR_SIZE])" garb] e
    by (auto simp: sdsfromlonglong_def)
qed



end
