(* ===== verification/Client.thy ===== *)
theory Client
  imports Sds_Args
begin

text \<open>
  networking.c, the output side: how replies are queued on a client and written to its socket. The
  client structure of server.h holds what the modelled code reads and writes; the strings in it are the byte
  lists that the theory \<open>Sds_List\<close> shows the strings of sds.c to behave like.
\<close>

section \<open>The client structure\<close>

text \<open>The flags word, as the set of the bits that are on.\<close>

datatype cflag = CLIENT_SLAVE | CLIENT_MASTER | CLIENT_MONITOR | CLIENT_MULTI | CLIENT_BLOCKED | CLIENT_DIRTY_CAS |
  CLIENT_CLOSE_AFTER_REPLY | CLIENT_LUA | CLIENT_ASKING | CLIENT_CLOSE_ASAP | CLIENT_DIRTY_EXEC |
  CLIENT_MASTER_FORCE_REPLY | CLIENT_PUBSUB | CLIENT_PENDING_WRITE | CLIENT_REPLY_OFF | CLIENT_REPLY_SKIP_NEXT |
  CLIENT_REPLY_SKIP | CLIENT_MODULE | CLIENT_FORCE_AOF | CLIENT_FORCE_REPL | CLIENT_PREVENT_AOF_PROP | CLIENT_PREVENT_REPL_PROP

text \<open>
  \<open>cbuf\<close> is the used part of the static buffer, so \<open>bufpos\<close> is its length. A node of the reply list is
  \<open>None\<close> while it is the placeholder of a length that is not known yet.
\<close>

record client =
  fd :: int
  cdb :: nat
  querybuf :: "byte list"
  argv :: "byte list list"
  cmd :: "byte list option"
  reqtype :: nat
  multibulklen :: int
  bulklen :: int
  reply :: "byte list option list"
  reply_bytes :: nat
  sentlen :: nat
  obuf_soft_limit_reached_time :: int
  flags :: "cflag set"
  repl_can_write :: bool
  authenticated :: bool
  mstate :: "(byte list option \<times> byte list list) list"
  watched_keys :: "(nat \<times> byte list) list"
  pubsub_channels :: "byte list list"
  pubsub_patterns :: "byte list list"
  cbuf :: "byte list"

abbreviation bufpos :: "client \<Rightarrow> nat" where "bufpos c \<equiv> length (cbuf c)"

abbreviation PROTO_REPLY_CHUNK_BYTES :: nat where "PROTO_REPLY_CHUNK_BYTES \<equiv> 16384"
abbreviation NET_MAX_WRITES_PER_EVENT :: nat where "NET_MAX_WRITES_PER_EVENT \<equiv> 65536"
abbreviation OBJ_SHARED_BULKHDR_LEN :: int where "OBJ_SHARED_BULKHDR_LEN \<equiv> 32"

text \<open>The part of the server configuration the output limits use; \<open>node_size\<close> is \<open>sizeof(listNode)\<close>.\<close>

record obuf_limit =
  hard_limit_bytes :: nat
  soft_limit_bytes :: nat
  soft_limit_seconds :: int

record out_cfg =
  client_obuf_limits :: "nat \<Rightarrow> obuf_limit"
  unixtime :: int
  node_size :: nat

definition clientHasPendingReplies :: "client \<Rightarrow> bool" where
  "clientHasPendingReplies c \<longleftrightarrow> bufpos c \<noteq> 0 \<or> reply c \<noteq> []"

text \<open>
  The client is put on \<open>server.clients_pending_write\<close> exactly when its flag is set, so the flag stands for the
  list. \<open>repl_can_write\<close> is the test on \<open>replstate\<close>, true for a client that is not a slave.
\<close>

definition prepareClientToWrite :: "client \<Rightarrow> client \<times> bool" where
  "prepareClientToWrite c =
    (if CLIENT_LUA \<in> flags c \<or> CLIENT_MODULE \<in> flags c then (c, True)
     else if CLIENT_REPLY_OFF \<in> flags c \<or> CLIENT_REPLY_SKIP \<in> flags c then (c, False)
     else if CLIENT_MASTER \<in> flags c \<and> CLIENT_MASTER_FORCE_REPLY \<notin> flags c then (c, False)
     else if fd c \<le> 0 then (c, False)
     else if \<not> clientHasPendingReplies c \<and> CLIENT_PENDING_WRITE \<notin> flags c \<and> repl_can_write c
     then (c\<lparr>flags := insert CLIENT_PENDING_WRITE (flags c)\<rparr>, True)
     else (c, True))"

section \<open>Output buffer limits\<close>

definition getClientOutputBufferMemoryUsage :: "out_cfg \<Rightarrow> client \<Rightarrow> nat" where
  "getClientOutputBufferMemoryUsage cfg c = reply_bytes c + (node_size cfg + 5) * length (reply c)"

text \<open>The classes 0 to 3: normal, slave, pubsub, master.\<close>

definition getClientType :: "client \<Rightarrow> nat" where
  "getClientType c =
    (if CLIENT_MASTER \<in> flags c then 3
     else if CLIENT_SLAVE \<in> flags c \<and> CLIENT_MONITOR \<notin> flags c then 1
     else if CLIENT_PUBSUB \<in> flags c then 2
     else 0)"

definition checkClientOutputBufferLimits :: "out_cfg \<Rightarrow> client \<Rightarrow> client \<times> bool" where
  "checkClientOutputBufferLimits cfg c =
    (let used_mem = getClientOutputBufferMemoryUsage cfg c;
         cls = getClientType c;
         cls = (if cls = 3 then 0 else cls);
         lim = client_obuf_limits cfg cls;
         hard = (hard_limit_bytes lim \<noteq> 0 \<and> used_mem \<ge> hard_limit_bytes lim);
         soft = (soft_limit_bytes lim \<noteq> 0 \<and> used_mem \<ge> soft_limit_bytes lim)
     in if soft then
          (if obuf_soft_limit_reached_time c = 0 then (c\<lparr>obuf_soft_limit_reached_time := unixtime cfg\<rparr>, hard)
           else if unixtime cfg - obuf_soft_limit_reached_time c \<le> soft_limit_seconds lim then (c, hard)
           else (c, True))
        else (c\<lparr>obuf_soft_limit_reached_time := 0\<rparr>, hard))"

definition freeClientAsync :: "client \<Rightarrow> client" where
  "freeClientAsync c = (if CLIENT_CLOSE_ASAP \<in> flags c \<or> CLIENT_LUA \<in> flags c then c
     else c\<lparr>flags := insert CLIENT_CLOSE_ASAP (flags c)\<rparr>)"

definition asyncCloseClientOnOutputBufferLimitReached :: "out_cfg \<Rightarrow> client \<Rightarrow> client" where
  "asyncCloseClientOnOutputBufferLimitReached cfg c =
    (if reply_bytes c = 0 \<or> CLIENT_CLOSE_ASAP \<in> flags c then c
     else let (c, over) = checkClientOutputBufferLimits cfg c in if over then freeClientAsync c else c)"

section \<open>Queueing bytes\<close>

definition addReplyToBuffer :: "client \<Rightarrow> byte list \<Rightarrow> client \<times> bool" where
  "addReplyToBuffer c s =
    (let available = PROTO_REPLY_CHUNK_BYTES - bufpos c in
     if CLIENT_CLOSE_AFTER_REPLY \<in> flags c then (c, True)
     else if reply c \<noteq> [] then (c, False)
     else if length s > available then (c, False)
     else (c\<lparr>cbuf := cbuf c @ s\<rparr>, True))"

text \<open>Glue to the last node when it is a string with room for it, add a node otherwise.\<close>

definition glue_or_add :: "client \<Rightarrow> byte list \<Rightarrow> client" where
  "glue_or_add c s =
    (if reply c = [] then c\<lparr>reply := [Some s], reply_bytes := reply_bytes c + length s\<rparr>
     else case last (reply c) of
       Some tail \<Rightarrow>
         if length tail + length s \<le> PROTO_REPLY_CHUNK_BYTES
         then c\<lparr>reply := butlast (reply c) @ [Some (tail @ s)], reply_bytes := reply_bytes c + length s\<rparr>
         else c\<lparr>reply := reply c @ [Some s], reply_bytes := reply_bytes c + length s\<rparr>
     | None \<Rightarrow> c\<lparr>reply := reply c @ [Some s], reply_bytes := reply_bytes c + length s\<rparr>)"

definition addReplyStringToList :: "out_cfg \<Rightarrow> client \<Rightarrow> byte list \<Rightarrow> client" where
  "addReplyStringToList cfg c s =
    (if CLIENT_CLOSE_AFTER_REPLY \<in> flags c then c
     else asyncCloseClientOnOutputBufferLimitReached cfg (glue_or_add c s))"

definition addReplySdsToList :: "out_cfg \<Rightarrow> client \<Rightarrow> byte list \<Rightarrow> client" where
  "addReplySdsToList cfg c s =
    (if CLIENT_CLOSE_AFTER_REPLY \<in> flags c then c
     else asyncCloseClientOnOutputBufferLimitReached cfg (glue_or_add c s))"

definition addReplyObjectToList :: "out_cfg \<Rightarrow> client \<Rightarrow> byte list \<Rightarrow> client" where
  "addReplyObjectToList cfg c s =
    (if CLIENT_CLOSE_AFTER_REPLY \<in> flags c then c
     else asyncCloseClientOnOutputBufferLimitReached cfg (glue_or_add c s))"

definition addReplyString :: "out_cfg \<Rightarrow> client \<Rightarrow> byte list \<Rightarrow> client" where
  "addReplyString cfg c s =
    (let (c, w) = prepareClientToWrite c in
     if \<not> w then c
     else let (c, ok) = addReplyToBuffer c s in if ok then c else addReplyStringToList cfg c s)"

definition addReplySds :: "out_cfg \<Rightarrow> client \<Rightarrow> byte list \<Rightarrow> client" where
  "addReplySds cfg c s =
    (let (c, w) = prepareClientToWrite c in
     if \<not> w then c
     else let (c, ok) = addReplyToBuffer c s in if ok then c else addReplySdsToList cfg c s)"

text \<open>
  A string object holds its bytes, raw or embedded, or an integer that fits a \<open>long\<close>. The decimal text of the
  integer goes through a buffer of 32 bytes.
\<close>

datatype strobj = OBJ_ENCODING_RAW "byte list" | OBJ_ENCODING_EMBSTR "byte list" | OBJ_ENCODING_INT s64

definition ll_text :: "s64 \<Rightarrow> byte list" where
  "ll_text v = (case ll2string (replicate 32 0) 32 v of Some (b, n) \<Rightarrow> take n b | None \<Rightarrow> [])"

fun getDecodedObject :: "strobj \<Rightarrow> byte list" where
  "getDecodedObject (OBJ_ENCODING_RAW s) = s"
| "getDecodedObject (OBJ_ENCODING_EMBSTR s) = s"
| "getDecodedObject (OBJ_ENCODING_INT v) = ll_text v"

definition reply_decoded :: "out_cfg \<Rightarrow> client \<Rightarrow> byte list \<Rightarrow> client" where
  "reply_decoded cfg c s = (let (c, ok) = addReplyToBuffer c s in if ok then c else addReplyObjectToList cfg c s)"

definition addReply :: "out_cfg \<Rightarrow> client \<Rightarrow> strobj \<Rightarrow> client" where
  "addReply cfg c obj =
    (let (c, w) = prepareClientToWrite c in
     if \<not> w then c
     else case obj of
       OBJ_ENCODING_INT v \<Rightarrow>
         if reply c = [] \<and> PROTO_REPLY_CHUNK_BYTES - bufpos c \<ge> 32
         then (let (c', ok) = addReplyToBuffer c (ll_text v) in if ok then c' else reply_decoded cfg c (ll_text v))
         else reply_decoded cfg c (ll_text v)
     | _ \<Rightarrow> reply_decoded cfg c (getDecodedObject obj))"

section \<open>Queueing protocol\<close>

definition chars :: "string \<Rightarrow> byte list" where
  "chars s = map of_char s"

abbreviation crlf :: "byte list" where "crlf \<equiv> [13, 10]"

abbreviation shared :: "byte list \<Rightarrow> strobj" where "shared s \<equiv> OBJ_ENCODING_EMBSTR s"

definition addReplyErrorLength :: "out_cfg \<Rightarrow> client \<Rightarrow> byte list \<Rightarrow> client" where
  "addReplyErrorLength cfg c s =
    addReplyString cfg (addReplyString cfg (addReplyString cfg c (chars ''-ERR '')) s) crlf"

definition addReplyError :: "out_cfg \<Rightarrow> client \<Rightarrow> string \<Rightarrow> client" where
  "addReplyError cfg c err = addReplyErrorLength cfg c (chars err)"

text \<open>The formatted text loses its line breaks.\<close>

definition addReplyErrorFormat :: "out_cfg \<Rightarrow> client \<Rightarrow> byte list \<Rightarrow> client" where
  "addReplyErrorFormat cfg c txt = addReplyErrorLength cfg c (map (\<lambda>b. if b = 13 \<or> b = 10 then 32 else b) txt)"

definition addReplyStatusLength :: "out_cfg \<Rightarrow> client \<Rightarrow> byte list \<Rightarrow> client" where
  "addReplyStatusLength cfg c s =
    addReplyString cfg (addReplyString cfg (addReplyString cfg c (chars ''+'')) s) crlf"

definition addReplyStatus :: "out_cfg \<Rightarrow> client \<Rightarrow> string \<Rightarrow> client" where
  "addReplyStatus cfg c s = addReplyStatusLength cfg c (chars s)"

text \<open>The shared headers are the same bytes, kept as objects.\<close>

definition addReplyLongLongWithPrefix :: "out_cfg \<Rightarrow> client \<Rightarrow> s64 \<Rightarrow> byte \<Rightarrow> client" where
  "addReplyLongLongWithPrefix cfg c ll pfx =
    (if (pfx = 42 \<or> pfx = 36) \<and> sint ll < OBJ_SHARED_BULKHDR_LEN \<and> sint ll \<ge> 0
     then addReply cfg c (shared (pfx # dec_int (sint ll) @ crlf))
     else addReplyString cfg c (pfx # ll_text ll @ crlf))"

definition addReplyLongLong :: "out_cfg \<Rightarrow> client \<Rightarrow> s64 \<Rightarrow> client" where
  "addReplyLongLong cfg c ll =
    (if ll = 0 then addReply cfg c (shared (chars '':0'' @ crlf))
     else if ll = 1 then addReply cfg c (shared (chars '':1'' @ crlf))
     else addReplyLongLongWithPrefix cfg c ll 58)"

text \<open>The callers pass a length that is not negative: the table of shared headers starts at zero.\<close>

definition addReplyMultiBulkLen :: "out_cfg \<Rightarrow> client \<Rightarrow> s64 \<Rightarrow> client" where
  "addReplyMultiBulkLen cfg c l =
    (if sint l < OBJ_SHARED_BULKHDR_LEN then addReply cfg c (shared (42 # dec_int (sint l) @ crlf))
     else addReplyLongLongWithPrefix cfg c l 42)"

text \<open>The number of decimal digits of an integer object; C division truncates towards zero.\<close>

function digits_left :: "int \<Rightarrow> nat \<Rightarrow> nat" where
  "digits_left n len = (let n' = (if n < 0 then - (- n div 10) else n div 10) in if n' \<noteq> 0 then digits_left n' (len + 1) else len)"
  by pat_completeness auto
termination
proof (relation "measure (\<lambda>(n, len). nat \<bar>n\<bar>)")
  fix n n' :: int and l :: nat
  assume n': "n' = (if n < 0 then - (- n div 10) else n div 10)" "n' \<noteq> 0"
  show "((n', l + 1), n, l) \<in> measure (\<lambda>(n, len). nat \<bar>n\<bar>)"
  proof (cases "n < 0")
    case True then show ?thesis using n' by (simp add: abs_if) linarith
  next
    case False
    then have "0 < n" using n' by (cases "n = 0") auto
    then show ?thesis using n' False by (simp add: abs_if) linarith
  qed
qed simp

declare digits_left.simps [simp del]

definition addReplyBulkLen :: "out_cfg \<Rightarrow> client \<Rightarrow> strobj \<Rightarrow> client" where
  "addReplyBulkLen cfg c obj =
    (let len = (case obj of
           OBJ_ENCODING_INT v \<Rightarrow>
             (let n = sint v in if n < 0 then digits_left (sint (- v)) 2 else digits_left n 1)
         | _ \<Rightarrow> length (getDecodedObject obj))
     in if int len < OBJ_SHARED_BULKHDR_LEN then addReply cfg c (shared (36 # dec len @ crlf))
        else addReplyLongLongWithPrefix cfg c (of_nat len) 36)"

definition addReplyBulk :: "out_cfg \<Rightarrow> client \<Rightarrow> strobj \<Rightarrow> client" where
  "addReplyBulk cfg c obj = addReply cfg (addReply cfg (addReplyBulkLen cfg c obj) obj) (shared crlf)"

definition addReplyBulkCBuffer :: "out_cfg \<Rightarrow> client \<Rightarrow> byte list \<Rightarrow> client" where
  "addReplyBulkCBuffer cfg c p =
    addReply cfg (addReplyString cfg (addReplyLongLongWithPrefix cfg c (of_nat (length p)) 36) p) (shared crlf)"

definition addReplyBulkSds :: "out_cfg \<Rightarrow> client \<Rightarrow> byte list \<Rightarrow> client" where
  "addReplyBulkSds cfg c s =
    addReply cfg (addReplySds cfg (addReplyLongLongWithPrefix cfg c (of_nat (length s)) 36) s) (shared crlf)"

definition addReplyBulkLongLong :: "out_cfg \<Rightarrow> client \<Rightarrow> s64 \<Rightarrow> client" where
  "addReplyBulkLongLong cfg c ll = addReplyBulkCBuffer cfg c (ll_text ll)"

text \<open>
  A deferred length: a placeholder node, and later its text, glued to the node that follows. A node is named by its position,
  which later additions do not change; \<open>None\<close> is the null pointer of a client that takes no replies.
\<close>

definition addDeferredMultiBulkLength :: "client \<Rightarrow> client \<times> nat option" where
  "addDeferredMultiBulkLength c =
    (let (c, w) = prepareClientToWrite c in
     if \<not> w then (c, None) else (c\<lparr>reply := reply c @ [None]\<rparr>, Some (length (reply c))))"

definition setDeferredMultiBulkLength :: "out_cfg \<Rightarrow> client \<Rightarrow> nat option \<Rightarrow> s64 \<Rightarrow> client" where
  "setDeferredMultiBulkLength cfg c node l =
    (case node of
       None \<Rightarrow> c
     | Some ln \<Rightarrow>
         (let len = 42 # dec_int (sint l) @ crlf;
              c = c\<lparr>reply := (reply c)[ln := Some len], reply_bytes := reply_bytes c + length len\<rparr>;
              c = (if Suc ln < length (reply c) then
                     (case reply c ! Suc ln of
                        Some nxt \<Rightarrow> c\<lparr>reply := take ln (reply c) @ Some (len @ nxt) # drop (Suc (Suc ln)) (reply c)\<rparr>
                      | None \<Rightarrow> c)
                   else c)
          in asyncCloseClientOnOutputBufferLimitReached cfg c))"

section \<open>Writing to the socket\<close>

text \<open>
  The socket is an input: for every \<open>write\<close> call the number of bytes it has room for, or a negative result, and no room (-1) once the
  list is used up; a call writes no more than it is asked to. The loop also returns the bytes sent and the last result.
  \<open>limit\<close> says that the server is below its memory limit.
  A placeholder at the head of the list and a failed assertion are \<open>None\<close>.
\<close>

definition next_write :: "int list \<Rightarrow> nat \<Rightarrow> int" where
  "next_write ws n = (case ws of [] \<Rightarrow> - 1 | w # _ \<Rightarrow> min w (int n))"

function write_loop :: "bool \<Rightarrow> int list \<Rightarrow> client \<Rightarrow> byte list \<Rightarrow> int \<Rightarrow> (client \<times> byte list \<times> int) option" where
  "write_loop limit ws c sent nwritten =
    (if \<not> clientHasPendingReplies c then Some (c, sent, nwritten)
     else if bufpos c > 0 then
       (let nwritten = next_write ws (bufpos c - sentlen c) in
        if nwritten \<le> 0 then Some (c, sent, nwritten)
        else
          let sent = sent @ take (nat nwritten) (drop (sentlen c) (cbuf c));
              c = c\<lparr>sentlen := sentlen c + nat nwritten\<rparr>;
              c = (if sentlen c = bufpos c then c\<lparr>cbuf := [], sentlen := 0\<rparr> else c)
          in if length sent > NET_MAX_WRITES_PER_EVENT \<and> limit then Some (c, sent, nwritten)
             else write_loop limit (tl ws) c sent nwritten)
     else
       (case hd (reply c) of
          None \<Rightarrow> None
        | Some ob \<Rightarrow>
            if length ob = 0 then write_loop limit ws (c\<lparr>reply := tl (reply c)\<rparr>) sent nwritten
            else
              let nwritten = next_write ws (length ob - sentlen c) in
              if nwritten \<le> 0 then Some (c, sent, nwritten)
              else
                let sent = sent @ take (nat nwritten) (drop (sentlen c) ob);
                    c = c\<lparr>sentlen := sentlen c + nat nwritten\<rparr>;
                    c = (if sentlen c = length ob
                         then c\<lparr>reply := tl (reply c), sentlen := 0, reply_bytes := reply_bytes c - length ob\<rparr>
                         else c)
                in if reply c = [] \<and> reply_bytes c \<noteq> 0 then None
                   else if length sent > NET_MAX_WRITES_PER_EVENT \<and> limit then Some (c, sent, nwritten)
                   else write_loop limit (tl ws) c sent nwritten))"
  by pat_completeness auto
termination
proof (relation "measures [\<lambda>(limit, ws, c, sent, n). length ws, \<lambda>(limit, ws, c, sent, n). length (reply c)]", goal_cases)
  case (2 limit ws c sent n)
  then have "ws \<noteq> []" by (auto simp: next_write_def split: list.splits)
  then show ?case by simp
next
  case (3 limit ws c sent n)
  then have "reply c \<noteq> []" by (auto simp: clientHasPendingReplies_def)
  then show ?case by simp
next
  case (4 limit ws c sent n)
  then have "ws \<noteq> []" by (auto simp: next_write_def split: list.splits)
  then show ?case by simp
qed simp

declare write_loop.simps [simp del]

text \<open>
  The result says whether the client is still valid; \<open>again\<close> tells the error EAGAIN from other errors after a failed write.
\<close>

definition writeToClient :: "bool \<Rightarrow> bool \<Rightarrow> int list \<Rightarrow> client \<Rightarrow> (client \<times> byte list \<times> bool) option" where
  "writeToClient limit again ws c = do {
     (c, sent, nwritten) \<leftarrow> write_loop limit ws c [] 0;
     if nwritten = - 1 \<and> \<not> again then Some (c, sent, False)
     else if \<not> clientHasPendingReplies c then
       Some (c\<lparr>sentlen := 0\<rparr>, sent, CLIENT_CLOSE_AFTER_REPLY \<notin> flags c)
     else Some (c, sent, True) }"

end
