(* ===== verification/Client_Output.thy ===== *)
theory Client_Output
  imports Client
begin

text \<open>
  networking.c: the stream of bytes a client is sent. All ways to queue a reply append to it, the replies are well-formed
  protocol, and the socket receives it in order.
\<close>

section \<open>The stream of output bytes\<close>

definition node_bytes :: "byte list option \<Rightarrow> byte list" where
  "node_bytes n = (case n of None \<Rightarrow> [] | Some s \<Rightarrow> s)"

definition nodes :: "byte list option list \<Rightarrow> byte list" where
  "nodes ns = concat (map node_bytes ns)"

text \<open>What is queued and not yet sent.\<close>

definition pending :: "client \<Rightarrow> byte list" where
  "pending c = drop (sentlen c) (cbuf c @ nodes (reply c))"

text \<open>
  The bytes already sent belong to the static buffer while it is in use and to the first node of the list otherwise; the list
  holds no placeholder; the byte count is right.
\<close>

definition sent_ok :: "client \<Rightarrow> bool" where
  "sent_ok c \<longleftrightarrow> (if cbuf c \<noteq> [] then sentlen c < length (cbuf c) else sentlen c = 0 \<or> (\<exists>s ns. reply c = Some s # ns \<and> sentlen c < length s))"

definition out_ok :: "client \<Rightarrow> bool" where
  "out_ok c \<longleftrightarrow> sent_ok c \<and> length (cbuf c) \<le> PROTO_REPLY_CHUNK_BYTES \<and> None \<notin> set (reply c) \<and> reply_bytes c = length (nodes (reply c))"

text \<open>The client takes replies.\<close>

definition writable :: "client \<Rightarrow> bool" where
  "writable c \<longleftrightarrow> snd (prepareClientToWrite c) \<and> CLIENT_CLOSE_AFTER_REPLY \<notin> flags c"

lemma nodes_simps [simp]: "nodes [] = []" "nodes (n # ns) = node_bytes n @ nodes ns" "nodes (ns @ ms) = nodes ns @ nodes ms"
    "node_bytes None = []" "node_bytes (Some s) = s"
  by (simp_all add: nodes_def node_bytes_def)

text \<open>Everything but the bookkeeping of limits and of the write handler.\<close>

definition same_out :: "client \<Rightarrow> client \<Rightarrow> bool" where
  "same_out c d \<longleftrightarrow> cbuf d = cbuf c \<and> reply d = reply c \<and> reply_bytes d = reply_bytes c \<and> sentlen d = sentlen c \<and> writable d = writable c"

lemma prepare_same: "same_out c (fst (prepareClientToWrite c))"
  by (auto simp: same_out_def prepareClientToWrite_def writable_def clientHasPendingReplies_def)

lemma writable_upd [simp]:
  "writable (c\<lparr>cbuf := b\<rparr>) = writable c" "writable (c\<lparr>reply := r\<rparr>) = writable c"
  "writable (c\<lparr>reply_bytes := k\<rparr>) = writable c" "writable (c\<lparr>sentlen := k\<rparr>) = writable c"
  "writable (c\<lparr>obuf_soft_limit_reached_time := t\<rparr>) = writable c"
  by (auto simp: writable_def prepareClientToWrite_def)

lemma same_out_refl [simp]: "same_out c c"
  by (simp add: same_out_def)

lemma check_same: "same_out c (fst (checkClientOutputBufferLimits cfg c))"
  by (simp add: checkClientOutputBufferLimits_def Let_def) (simp add: same_out_def)

lemma writable_asap [simp]: "writable (c\<lparr>flags := insert CLIENT_CLOSE_ASAP (flags c)\<rparr>) = writable c"
  by (simp add: writable_def prepareClientToWrite_def)

lemma free_async_same: "same_out c (freeClientAsync c)"
  by (simp add: freeClientAsync_def) (simp add: same_out_def)

lemma same_out_trans: "same_out c d \<Longrightarrow> same_out d e \<Longrightarrow> same_out c e"
  by (simp add: same_out_def)

lemma async_same: "same_out c (asyncCloseClientOnOutputBufferLimitReached cfg c)"
  using check_same [of c cfg] free_async_same same_out_trans
  by (cases "checkClientOutputBufferLimits cfg c") (auto simp: asyncCloseClientOnOutputBufferLimitReached_def)

lemma same_out_ok: "same_out c d \<Longrightarrow> out_ok d = out_ok c \<and> pending d = pending c \<and> writable d = writable c"
  by (simp add: same_out_def out_ok_def sent_ok_def pending_def)

lemma glue_or_add_spec:
  assumes "None \<notin> set ns"
  shows "reply c = ps @ None # ns \<Longrightarrow> \<exists>ns'. reply (glue_or_add c s) = ps @ None # ns' \<and> None \<notin> set ns' \<and> nodes ns' = nodes ns @ s"
    and "reply c = ns \<Longrightarrow> None \<notin> set (reply (glue_or_add c s)) \<and> nodes (reply (glue_or_add c s)) = nodes ns @ s"
proof -
  show "\<exists>ns'. reply (glue_or_add c s) = ps @ None # ns' \<and> None \<notin> set ns' \<and> nodes ns' = nodes ns @ s" if "reply c = ps @ None # ns"
  proof (cases ns rule: rev_cases)
    case Nil then show ?thesis using that by (auto simp: glue_or_add_def intro: exI [of _ "[Some s]"])
  next
    case (snoc ms m)
    then obtain t where t: "m = Some t" using assms by (cases m) auto
    show ?thesis
    proof (cases "length t + length s \<le> PROTO_REPLY_CHUNK_BYTES")
      case True
      then have "reply (glue_or_add c s) = ps @ None # ms @ [Some (t @ s)]" using that snoc t by (simp add: glue_or_add_def butlast_append)
      then show ?thesis using snoc t assms by auto
    next
      case False
      then have "reply (glue_or_add c s) = ps @ None # ns @ [Some s]" using that snoc t by (simp add: glue_or_add_def)
      then show ?thesis using assms by auto
    qed
  qed
  show "None \<notin> set (reply (glue_or_add c s)) \<and> nodes (reply (glue_or_add c s)) = nodes ns @ s" if "reply c = ns"
  proof (cases ns rule: rev_cases)
    case Nil then show ?thesis using that by (simp add: glue_or_add_def)
  next
    case (snoc ms m)
    then obtain t where t: "m = Some t" using assms by (cases m) auto
    show ?thesis using that snoc t assms by (cases "length t + length s \<le> PROTO_REPLY_CHUNK_BYTES") (auto simp: glue_or_add_def)
  qed
qed

lemma glue_or_add_rest: "cbuf (glue_or_add c s) = cbuf c" "sentlen (glue_or_add c s) = sentlen c"
    "reply_bytes (glue_or_add c s) = reply_bytes c + length s" "writable (glue_or_add c s) = writable c"
  by (auto simp: glue_or_add_def split: option.splits)

lemma glue_or_add_hd: "reply c = Some t # ns \<Longrightarrow> \<exists>t' ns'. reply (glue_or_add c s) = Some t' # ns' \<and> length t \<le> length t'"
proof (cases ns rule: rev_cases)
  case Nil
  assume "reply c = Some t # ns"
  then show ?thesis using Nil by (cases "length t + length s \<le> PROTO_REPLY_CHUNK_BYTES") (auto simp: glue_or_add_def)
next
  case (snoc ms m)
  assume "reply c = Some t # ns"
  then show ?thesis using snoc by (auto simp: glue_or_add_def split: option.splits)
qed

lemma glue_or_add_ok:
  assumes "out_ok c" "reply c \<noteq> [] \<or> PROTO_REPLY_CHUNK_BYTES < length (cbuf c) + length s"
  shows "out_ok (glue_or_add c s) \<and> pending (glue_or_add c s) = pending c @ s"
proof -
  have n: "None \<notin> set (reply (glue_or_add c s))" "nodes (reply (glue_or_add c s)) = nodes (reply c) @ s"
    using glue_or_add_spec(2) [of "reply c" c s] assms(1) by (auto simp: out_ok_def)
  have l: "sentlen c \<le> length (cbuf c @ nodes (reply c))"
    using assms(1) by (auto simp: out_ok_def sent_ok_def split: if_splits)
  have "sent_ok (glue_or_add c s)"
    using assms(1) glue_or_add_hd [of c _ _ s] unfolding out_ok_def sent_ok_def glue_or_add_rest by (fastforce split: if_splits)
  then show ?thesis using assms(1) n l by (simp add: out_ok_def pending_def glue_or_add_rest)
qed

lemma addReplyToBuffer_ok:
  assumes "out_ok c" "writable c"
  shows "if reply c = [] \<and> length (cbuf c) + length s \<le> PROTO_REPLY_CHUNK_BYTES
     then \<exists>d. addReplyToBuffer c s = (d, True) \<and> out_ok d \<and> pending d = pending c @ s \<and> writable d
     else addReplyToBuffer c s = (c, False)"
proof -
  have f: "CLIENT_CLOSE_AFTER_REPLY \<notin> flags c" using assms(2) by (simp add: writable_def)
  have l: "sentlen c \<le> length (cbuf c)" if "reply c = []" using assms(1) that by (auto simp: out_ok_def sent_ok_def split: if_splits)
  have iff: "length s > PROTO_REPLY_CHUNK_BYTES - bufpos c \<longleftrightarrow> \<not> length (cbuf c) + length s \<le> PROTO_REPLY_CHUNK_BYTES"
    using assms(1) by (auto simp: out_ok_def)
  show ?thesis
  proof (cases "reply c = [] \<and> length (cbuf c) + length s \<le> PROTO_REPLY_CHUNK_BYTES")
    case True
    then have "addReplyToBuffer c s = (c\<lparr>cbuf := cbuf c @ s\<rparr>, True)" using f iff by (simp add: addReplyToBuffer_def Let_def)
    moreover have "out_ok (c\<lparr>cbuf := cbuf c @ s\<rparr>)"
    proof -
      have "sent_ok (c\<lparr>cbuf := cbuf c @ s\<rparr>)"
        using assms(1) True by (cases "cbuf c = []") (auto simp: out_ok_def sent_ok_def)
      then show ?thesis using assms(1) True by (simp add: out_ok_def)
    qed
    moreover have "pending (c\<lparr>cbuf := cbuf c @ s\<rparr>) = pending c @ s" using True l by (simp add: pending_def)
    ultimately show ?thesis using True assms(2) by simp
  next
    case False
    then show ?thesis using f iff by (auto simp: addReplyToBuffer_def Let_def)
  qed
qed

text \<open>The interface the reply functions offer: bytes go to the end of the stream.\<close>

definition appended :: "client \<Rightarrow> byte list \<Rightarrow> client \<Rightarrow> bool" where
  "appended c s d \<longleftrightarrow> out_ok d \<and> writable d \<and> pending d = pending c @ s"

locale reply_sink =
  fixes add :: "client \<Rightarrow> 'a \<Rightarrow> client" and bytes :: "'a \<Rightarrow> byte list"
  assumes add_appends: "out_ok c \<Longrightarrow> writable c \<Longrightarrow> appended c (bytes x) (add c x)"
begin

lemma add_then: "appended c s d \<Longrightarrow> appended c (s @ bytes x) (add d x)"
  using add_appends [of d x] by (simp add: appended_def)

lemma adds: "appended c s d \<Longrightarrow> appended c (s @ concat (map bytes xs)) (fold (\<lambda>x c. add c x) xs d)"
proof (induction xs arbitrary: d s)
  case (Cons x xs)
  then show ?case using Cons.IH [OF add_then [OF Cons.prems, of x]] by simp
qed simp

end

lemma queue_ok:
  fixes cfg :: out_cfg and s :: "byte list"
  assumes "out_ok c" "writable c"
  defines "d \<equiv> (let (c, ok) = addReplyToBuffer c s in if ok then c else asyncCloseClientOnOutputBufferLimitReached cfg (glue_or_add c s))"
  shows "appended c s d"
proof (cases "reply c = [] \<and> length (cbuf c) + length s \<le> PROTO_REPLY_CHUNK_BYTES")
  case True
  then show ?thesis using addReplyToBuffer_ok [OF assms(1,2), of s] by (auto simp: d_def appended_def)
next
  case False
  then have "d = asyncCloseClientOnOutputBufferLimitReached cfg (glue_or_add c s)" using addReplyToBuffer_ok [OF assms(1,2), of s] by (auto simp: d_def)
  then show ?thesis using glue_or_add_ok [OF assms(1), of s] False same_out_ok [OF async_same [of "glue_or_add c s" cfg]] assms(2) glue_or_add_rest(4) by (auto simp: appended_def)
qed

lemma prepare_ok: "writable c \<Longrightarrow> \<exists>d. prepareClientToWrite c = (d, True) \<and> same_out c d"
  using prepare_same [of c] by (cases "prepareClientToWrite c") (auto simp: writable_def)

lemma not_closing: "writable c \<Longrightarrow> CLIENT_CLOSE_AFTER_REPLY \<notin> flags c" by (simp add: writable_def)

lemma list_fns: "writable c \<Longrightarrow> addReplyStringToList cfg c s = asyncCloseClientOnOutputBufferLimitReached cfg (glue_or_add c s)"
    "writable c \<Longrightarrow> addReplySdsToList cfg c s = asyncCloseClientOnOutputBufferLimitReached cfg (glue_or_add c s)"
    "writable c \<Longrightarrow> addReplyObjectToList cfg c s = asyncCloseClientOnOutputBufferLimitReached cfg (glue_or_add c s)"
  by (simp_all add: addReplyStringToList_def addReplySdsToList_def addReplyObjectToList_def not_closing)

lemma buffer_False: "addReplyToBuffer c s = (d, False) \<Longrightarrow> d = c"
  by (auto simp: addReplyToBuffer_def Let_def split: if_splits)

lemma queue_eq:
  assumes "writable c" "\<And>c. writable c \<Longrightarrow> f c = asyncCloseClientOnOutputBufferLimitReached cfg (glue_or_add c s)"
  shows "(let (c, ok) = addReplyToBuffer c s in if ok then c else f c) =
    (let (c, ok) = addReplyToBuffer c s in if ok then c else asyncCloseClientOnOutputBufferLimitReached cfg (glue_or_add c s))"
  using assms buffer_False [of c s] by (auto split: prod.splits)

lemma prepared_queue:
  assumes "out_ok c" "writable c" "\<And>c. writable c \<Longrightarrow> f c = asyncCloseClientOnOutputBufferLimitReached cfg (glue_or_add c s)"
  shows "appended c s (let (c, w) = prepareClientToWrite c in if \<not> w then c else let (c, ok) = addReplyToBuffer c s in if ok then c else f c)"
proof -
  obtain d where d: "prepareClientToWrite c = (d, True)" "same_out c d" using prepare_ok [OF assms(2)] by blast
  have dd: "out_ok d" "writable d" "pending d = pending c" using same_out_ok [OF d(2)] assms by auto
  then show ?thesis using queue_eq [OF dd(2), of f cfg s] assms(3) queue_ok [OF dd(1,2), of s cfg] d(1) by (simp add: appended_def)
qed

interpretation str_sink: reply_sink "addReplyString cfg" "\<lambda>s. s"
  by unfold_locales (unfold addReplyString_def, rule prepared_queue, simp_all add: list_fns)

interpretation sds_sink: reply_sink "addReplySds cfg" "\<lambda>s. s"
  by unfold_locales (unfold addReplySds_def, rule prepared_queue, simp_all add: list_fns)

lemma ll_text_dec: "ll_text v = dec_int (sint v)"
proof -
  have "length (dec_int (sint v)) < 32" using length_dec_int_s64 [of v] by simp
  then show ?thesis using ll2string_spec [of 32 "replicate 32 0" v] by (simp add: ll_text_def patch_def)
qed

lemma int_fast_path:
  assumes "out_ok c" "writable c" "reply c = []" "PROTO_REPLY_CHUNK_BYTES - bufpos c \<ge> 32"
  shows "(let (c', ok) = addReplyToBuffer c (ll_text v) in if ok then c' else reply_decoded cfg c (ll_text v)) = reply_decoded cfg c (ll_text v)"
proof -
  have "length (cbuf c) + length (ll_text v) \<le> PROTO_REPLY_CHUNK_BYTES" using assms(4) length_dec_int_s64 [of v] by (simp add: ll_text_dec)
  then show ?thesis using addReplyToBuffer_ok [OF assms(1,2), of "ll_text v"] assms(3) by (auto simp: reply_decoded_def)
qed

lemma addReply_decoded:
  assumes "out_ok c" "writable c"
  shows "addReply cfg c ob = (let (c, w) = prepareClientToWrite c in if \<not> w then c else reply_decoded cfg c (getDecodedObject ob))"
proof -
  obtain d where d: "prepareClientToWrite c = (d, True)" "same_out c d" using prepare_ok [OF assms(2)] by blast
  have dd: "out_ok d" "writable d" using same_out_ok [OF d(2)] assms by auto
  show ?thesis using d int_fast_path [OF dd] by (cases ob) (simp_all add: addReply_def)
qed

interpretation obj_sink: reply_sink "addReply cfg" getDecodedObject
proof
  fix c x
  assume a: "out_ok c" "writable c"
  show "appended c (getDecodedObject x) (addReply cfg c x)"
    unfolding addReply_decoded [OF a] reply_decoded_def by (rule prepared_queue [OF a]) (simp add: list_fns)
qed

section \<open>Replies are well-formed protocol\<close>

definition bulk :: "byte list \<Rightarrow> byte list" where
  "bulk s = 36 # dec (length s) @ crlf @ s @ crlf"

lemma appended_refl: "out_ok c \<Longrightarrow> writable c \<Longrightarrow> appended c [] c"
  by (simp add: appended_def)

lemma appended_trans: "appended c s d \<Longrightarrow> appended d t e \<Longrightarrow> appended c (s @ t) e"
  by (simp add: appended_def)

lemma addReplyErrorLength_ok:
  assumes "out_ok c" "writable c"
  shows "appended c (chars ''-ERR '' @ s @ crlf) (addReplyErrorLength cfg c s)"
  using str_sink.adds [OF appended_refl [OF assms], where xs = "[chars ''-ERR '', s, crlf]" and cfg = cfg]
  by (simp add: addReplyErrorLength_def)

lemma addReplyLongLongWithPrefix_ok:
  assumes "out_ok c" "writable c"
  shows "appended c (p # dec_int (sint v) @ crlf) (addReplyLongLongWithPrefix cfg c v p)"
  using str_sink.add_appends [OF assms, of "p # ll_text v @ crlf" cfg] obj_sink.add_appends [OF assms, of "shared (p # dec_int (sint v) @ crlf)" cfg]
  by (simp add: addReplyLongLongWithPrefix_def ll_text_dec)

lemma addReplyLongLong_ok:
  assumes "out_ok c" "writable c"
  shows "appended c (58 # dec_int (sint v) @ crlf) (addReplyLongLong cfg c v)"
proof -
  have d: "dec_int 0 = [48]" "dec_int 1 = [49]" by (simp_all add: dec_int_def dec.simps)
  show ?thesis
    using addReplyLongLongWithPrefix_ok [OF assms, of 58 v cfg] obj_sink.add_appends [OF assms, of "shared (chars '':0'' @ crlf)" cfg]
      obj_sink.add_appends [OF assms, of "shared (chars '':1'' @ crlf)" cfg]
    by (auto simp: addReplyLongLong_def chars_def d)
qed

lemma digits_left_dec: "digits_left n l + 1 = l + length (dec (nat \<bar>n\<bar>))"
proof (induction n l rule: digits_left.induct)
  case (1 n l)
  define n' where "n' = (if n < 0 then - (- n div 10) else n div 10)"
  have a: "nat \<bar>n'\<bar> = nat \<bar>n\<bar> div 10"
  proof (cases "n < 0")
    case True
    then have "0 \<le> - n div 10" by simp
    then show ?thesis using True by (simp add: n'_def nat_div_distrib)
  next
    case False then show ?thesis by (simp add: n'_def nat_div_distrib)
  qed
  show ?case
  proof (cases "n' = 0")
    case True
    then have "nat \<bar>n\<bar> < 10" using a by (metis abs_0 div_eq_0_iff nat_zero_as_int of_nat_0 zero_neq_numeral)
    then show ?thesis using True by (simp add: digits_left.simps [of n l] Let_def dec.simps [of "nat \<bar>n\<bar>"] flip: n'_def)
  next
    case False
    then have "\<not> nat \<bar>n\<bar> < 10" using a by (metis div_less nat_0_iff abs_le_zero_iff order_refl)
    then have "length (dec (nat \<bar>n\<bar>)) = Suc (length (dec (nat \<bar>n\<bar> div 10)))" by (simp add: dec.simps [of "nat \<bar>n\<bar>"])
    then show ?thesis using 1 [OF n'_def False] False a by (simp add: digits_left.simps [of n l] Let_def flip: n'_def)
  qed
qed

lemma sint_uminus_abs: "nat \<bar>sint (- v :: s64)\<bar> = nat \<bar>sint v\<bar>"
proof (cases "v = LLONG_MIN")
  case True then show ?thesis by simp
next
  case False
  have "sint v \<noteq> - (2 ^ 63)"
  proof
    assume "sint v = - (2 ^ 63)"
    then have "sint v = sint LLONG_MIN" by simp
    then have "v = LLONG_MIN" unfolding sint_inj .
    then show False using False by simp
  qed
  moreover have "- (2 ^ 63) \<le> sint v" "sint v < 2 ^ 63" using sint_greater_eq [of v] sint_less [of v] by auto
  ultimately have "- (2 ^ 63) \<le> - sint v" "- sint v < 2 ^ 63" by auto
  then have "sint (word_of_int (- sint v) :: s64) = - sint v" by (rule sint_of_int_s64_range)
  then show ?thesis by simp
qed

lemma addReplyBulkLen_ok:
  assumes "out_ok c" "writable c" "length (getDecodedObject ob) < 2 ^ 63"
  shows "appended c (36 # dec (length (getDecodedObject ob)) @ crlf) (addReplyBulkLen cfg c ob)"
proof -
  define len where "len = (case ob of
           OBJ_ENCODING_INT v \<Rightarrow> (let n = sint v in if n < 0 then digits_left (sint (- v)) 2 else digits_left n 1)
         | _ \<Rightarrow> length (getDecodedObject ob))"
  have l: "len = length (getDecodedObject ob)"
  proof (cases ob)
    case (OBJ_ENCODING_INT v)
    then show ?thesis using digits_left_dec [of "sint (- v)" 2] digits_left_dec [of "sint v" 1] sint_uminus_abs [of v]
      by (auto simp: len_def ll_text_dec dec_int_def Let_def)
  qed (simp_all add: len_def)
  have eq: "addReplyBulkLen cfg c ob = (if int len < OBJ_SHARED_BULKHDR_LEN then addReply cfg c (shared (36 # dec len @ crlf))
      else addReplyLongLongWithPrefix cfg c (of_nat len) 36)" by (simp add: addReplyBulkLen_def len_def Let_def)
  have "sint (of_nat len :: s64) = int len" using assms(3) l by (intro sint_of_nat_s64) simp
  then show ?thesis
    using addReplyLongLongWithPrefix_ok [OF assms(1,2), of 36 "of_nat len" cfg] obj_sink.add_appends [OF assms(1,2), of "shared (36 # dec len @ crlf)" cfg]
    unfolding eq l by (simp add: dec_int_def)
qed

lemma addReplyBulk_ok:
  assumes "out_ok c" "writable c" "length (getDecodedObject ob) < 2 ^ 63"
  shows "appended c (bulk (getDecodedObject ob)) (addReplyBulk cfg c ob)"
proof -
  have "appended c (36 # dec (length (getDecodedObject ob)) @ crlf) (addReplyBulkLen cfg c ob)" by (rule addReplyBulkLen_ok [OF assms])
  from obj_sink.adds [OF this, where cfg = cfg and xs = "[ob, shared crlf]"] show ?thesis by (simp add: addReplyBulk_def bulk_def)
qed

text \<open>
  C33: A string object is sent as a bulk string: the length announced in the header is the number of bytes that follow, for raw strings
  and for integers whose text is produced on the fly, the most negative one included.
\<close>

theorem addReplyBulk_encodes:
  assumes "out_ok c" "writable c" "length (getDecodedObject ob) < 2 ^ 63"
  shows "appended c (bulk (getDecodedObject ob)) (addReplyBulk cfg c ob)"
  using assms by (rule addReplyBulk_ok)

lemma addReplyBulkCBuffer_ok:
  assumes "out_ok c" "writable c" "length p < 2 ^ 63"
  shows "appended c (bulk p) (addReplyBulkCBuffer cfg c p)"
proof -
  have "appended c (36 # dec (length p) @ crlf) (addReplyLongLongWithPrefix cfg c (of_nat (length p)) 36)"
    using addReplyLongLongWithPrefix_ok [OF assms(1,2), of 36 "of_nat (length p)" cfg] assms(3) by (simp add: sint_of_nat_s64 dec_int_def)
  from obj_sink.add_then [OF str_sink.add_then [OF this, where cfg = cfg and x = p], where cfg = cfg and x = "shared crlf"] show ?thesis
    by (simp add: addReplyBulkCBuffer_def bulk_def)
qed

section \<open>Deferred lengths\<close>

text \<open>While a placeholder is in the list, everything is queued behind it.\<close>

definition behind :: "byte list option list \<Rightarrow> client \<Rightarrow> byte list \<Rightarrow> client \<Rightarrow> bool" where
  "behind ps c s d \<longleftrightarrow> (\<exists>ns. reply d = ps @ None # ns \<and> None \<notin> set ns \<and> nodes ns = s) \<and> cbuf d = cbuf c \<and> sentlen d = sentlen c \<and>
     reply_bytes d = reply_bytes c + length s \<and> writable d"

lemma addReplyString_behind: "behind ps c s d \<Longrightarrow> behind ps c (s @ t) (addReplyString cfg d t)"
proof -
  assume b: "behind ps c s d"
  then obtain ns where ns: "reply d = ps @ None # ns" "None \<notin> set ns" "nodes ns = s" and w: "writable d" by (auto simp: behind_def)
  obtain e where e: "prepareClientToWrite d = (e, True)" "same_out d e" using prepare_ok [OF w] by blast
  then have re: "reply e = ps @ None # ns" "writable e" "cbuf e = cbuf c" "sentlen e = sentlen c" "reply_bytes e = reply_bytes c + length s"
    using ns b by (auto simp: same_out_def behind_def)
  then have "addReplyToBuffer e t = (e, False)" using not_closing by (simp add: addReplyToBuffer_def Let_def)
  then have eq: "addReplyString cfg d t = asyncCloseClientOnOutputBufferLimitReached cfg (glue_or_add e t)"
    using e(1) re(2) by (simp add: addReplyString_def list_fns)
  show ?thesis using async_same [of "glue_or_add e t" cfg] glue_or_add_spec(1) [OF ns(2) re(1), of t] ns(3) re glue_or_add_rest [of e t]
    unfolding eq behind_def same_out_def by auto
qed

lemma addReplyStrings_behind: "behind ps c s d \<Longrightarrow> behind ps c (s @ concat ts) (fold (\<lambda>t c. addReplyString cfg c t) ts d)"
proof (induction ts arbitrary: d s)
  case (Cons t ts)
  then show ?case using Cons.IH [OF addReplyString_behind [OF Cons.prems, where cfg = cfg and t = t]] by simp
qed simp

text \<open>A reply whose length is only known at its end.\<close>

definition deferred_reply :: "out_cfg \<Rightarrow> client \<Rightarrow> byte list list \<Rightarrow> client" where
  "deferred_reply cfg c items =
    (let (c, node) = addDeferredMultiBulkLength c;
         c = fold (\<lambda>t c. addReplyString cfg c t) items c
     in setDeferredMultiBulkLength cfg c node (of_nat (length items)))"

lemma deferred_reply_ok:
  assumes ok: "out_ok c" "writable c" and n: "length items < 2 ^ 63"
  shows "appended c (42 # dec (length items) @ crlf @ concat items) (deferred_reply cfg c items)"
proof -
  obtain d where d: "prepareClientToWrite c = (d, True)" "same_out c d" using prepare_ok [OF ok(2)] by blast
  have dd: "out_ok d" "writable d" "pending d = pending c" using same_out_ok [OF d(2)] ok by auto
  let ?ps = "reply d" let ?e = "d\<lparr>reply := ?ps @ [None]\<rparr>"
  let ?f = "fold (\<lambda>t c. addReplyString cfg c t) items ?e"
  have "behind ?ps d [] ?e" using dd(2) by (simp add: behind_def)
  then have b: "behind ?ps d (concat items) ?f" using addReplyStrings_behind [of ?ps d "[]" ?e items cfg] by simp
  then obtain ns where ns: "reply ?f = ?ps @ None # ns" "None \<notin> set ns" "nodes ns = concat items" and f: "cbuf ?f = cbuf d" "sentlen ?f = sentlen d"
    "reply_bytes ?f = reply_bytes d + length (concat items)" "writable ?f" by (auto simp: behind_def)
  let ?len = "42 # dec (length items) @ crlf"
  define g where "g = ?f\<lparr>reply := ?ps @ Some ?len # ns, reply_bytes := reply_bytes ?f + length ?len\<rparr>"
  define h where "h = (case ns of Some nxt # ms \<Rightarrow> g\<lparr>reply := ?ps @ Some (?len @ nxt) # ms\<rparr> | _ \<Rightarrow> g)"
  have di: "dec_int (sint (of_nat (length items) :: s64)) = dec (length items)" using n by (simp add: sint_of_nat_s64 dec_int_def)
  have g': "?f\<lparr>reply := (reply ?f)[length ?ps := Some ?len], reply_bytes := reply_bytes ?f + length ?len\<rparr> = g" by (simp add: g_def ns(1))
  have "deferred_reply cfg c items = asyncCloseClientOnOutputBufferLimitReached cfg h"
  proof -
    have "deferred_reply cfg c items = setDeferredMultiBulkLength cfg ?f (Some (length ?ps)) (of_nat (length items))"
      using d(1) by (simp add: deferred_reply_def addDeferredMultiBulkLength_def)
    also have "\<dots> = asyncCloseClientOnOutputBufferLimitReached cfg h"
    proof (cases ns)
      case Nil
      then have "reply g = ?ps @ [Some ?len]" by (simp add: g_def)
      then show ?thesis unfolding setDeferredMultiBulkLength_def option.case di Let_def g' h_def using Nil by simp
    next
      case (Cons m ms)
      then obtain nxt where m: "m = Some nxt" using ns(2) by (cases m) auto
      have "reply g = ?ps @ Some ?len # Some nxt # ms" using Cons m by (simp add: g_def)
      then show ?thesis unfolding setDeferredMultiBulkLength_def option.case di Let_def g' h_def using Cons m by (simp add: nth_append)
    qed
    finally show ?thesis .
  qed
  moreover have "appended c (?len @ concat items) h"
  proof -
    have nh: "nodes (reply h) = nodes ?ps @ ?len @ concat items" "None \<notin> set (reply h)" "cbuf h = cbuf d" "sentlen h = sentlen d"
      "reply_bytes h = reply_bytes d + length (?len @ concat items)" "writable h"
      using ns f dd(1) by (auto simp: h_def g_def out_ok_def split: list.splits option.splits)
    have hd: "reply h = Some t # ts" if "?ps = Some t # ts'" "ts = tl (reply h)" for t ts ts'
      using that ns by (auto simp: h_def g_def split: list.splits option.splits)
    have so: "sent_ok h" using dd(1) nh(3,4) hd unfolding out_ok_def sent_ok_def by (fastforce split: if_splits)
    have l: "sentlen d \<le> length (cbuf d @ nodes ?ps)" using dd(1) by (auto simp: out_ok_def sent_ok_def split: if_splits)
    show ?thesis using nh so dd l by (simp add: appended_def out_ok_def pending_def flip: dd(3))
  qed
  ultimately show ?thesis using same_out_ok [OF async_same [of h cfg]] by (simp add: appended_def)
qed

section \<open>Sending\<close>

lemma next_write_le: "next_write ws n \<le> int n"
  by (auto simp: next_write_def split: list.splits)

lemma write_buffer_step:
  assumes "out_ok c" "cbuf c \<noteq> []" "0 < n" "n \<le> bufpos c - sentlen c"
  defines "d \<equiv> (let c = c\<lparr>sentlen := sentlen c + n\<rparr> in if sentlen c = bufpos c then c\<lparr>cbuf := [], sentlen := 0\<rparr> else c)"
  shows "out_ok d \<and> take n (drop (sentlen c) (cbuf c)) @ pending d = pending c \<and> writable d = writable c \<and> flags d = flags c"
proof -
  have l: "sentlen c < bufpos c" using assms(1,2) by (simp add: out_ok_def sent_ok_def)
  have t: "take n (drop (sentlen c) (cbuf c)) @ drop (sentlen c + n) (cbuf c) = drop (sentlen c) (cbuf c)"
    by (metis append_take_drop_id drop_drop add.commute)
  show ?thesis
  proof (cases "sentlen c + n = bufpos c")
    case True
    then have "drop (sentlen c + n) (cbuf c) = []" by simp
    then show ?thesis using True t assms(1) l by (auto simp: d_def Let_def out_ok_def sent_ok_def pending_def)
  next
    case False
    then have "sentlen c + n < bufpos c" using assms(4) l by simp
    then show ?thesis using False t assms(1,2) l by (simp add: d_def Let_def out_ok_def sent_ok_def pending_def)
  qed
qed

lemma write_node_step:
  assumes "out_ok c" "cbuf c = []" "reply c = Some ob # ns" "ob \<noteq> []" "0 < n" "n \<le> length ob - sentlen c"
  defines "d \<equiv> (let c = c\<lparr>sentlen := sentlen c + n\<rparr> in
     if sentlen c = length ob then c\<lparr>reply := tl (reply c), sentlen := 0, reply_bytes := reply_bytes c - length ob\<rparr> else c)"
  shows "out_ok d \<and> take n (drop (sentlen c) ob) @ pending d = pending c \<and> writable d = writable c \<and> flags d = flags c \<and>
     (reply d = [] \<longrightarrow> reply_bytes d = 0)"
proof -
  have l: "sentlen c < length ob" using assms(1-4) by (auto simp: out_ok_def sent_ok_def)
  have t: "take n (drop (sentlen c) ob) @ drop (sentlen c + n) ob = drop (sentlen c) ob"
    by (metis append_take_drop_id drop_drop add.commute)
  show ?thesis
  proof (cases "sentlen c + n = length ob")
    case True
    then have "drop (sentlen c + n) ob = []" by simp
    then show ?thesis using True t assms(1-3) l by (auto simp: d_def Let_def out_ok_def sent_ok_def pending_def)
  next
    case False
    then have "sentlen c + n < length ob" using assms(6) l by simp
    then show ?thesis using False t assms(1-4) l by (simp add: d_def Let_def out_ok_def sent_ok_def pending_def)
  qed
qed

lemma write_loop_spec:
  "out_ok c \<Longrightarrow> \<exists>d sent' n'. write_loop limit ws c sent n = Some (d, sent', n') \<and> out_ok d \<and> sent' @ pending d = sent @ pending c \<and>
     writable d = writable c \<and> flags d = flags c"
proof (induction limit ws c sent n rule: write_loop.induct)
  case (1 limit ws c sent n)
  show ?case
  proof (cases "clientHasPendingReplies c")
    case False then show ?thesis using 1(4) by (subst write_loop.simps) simp
  next
    case p: True
    show ?thesis
    proof (cases "bufpos c > 0")
      case True
      define w where "w = next_write ws (bufpos c - sentlen c)"
      have ne: "cbuf c \<noteq> []" using True by simp
      show ?thesis
      proof (cases "w \<le> 0")
        case w: True
        then show ?thesis using 1(4) p True by (subst write_loop.simps) (simp flip: w_def)
      next
        case w: False
        define d where "d = (let c = c\<lparr>sentlen := sentlen c + nat w\<rparr> in if sentlen c = bufpos c then c\<lparr>cbuf := [], sentlen := 0\<rparr> else c)"
        define s' where "s' = sent @ take (nat w) (drop (sentlen c) (cbuf c))"
        have wle: "nat w \<le> bufpos c - sentlen c" using next_write_le [of ws "bufpos c - sentlen c"] w by (simp add: w_def)
        have st: "out_ok d" "s' @ pending d = sent @ pending c" "writable d = writable c" "flags d = flags c"
          using write_buffer_step [OF 1(4) ne _ wle] w by (auto simp: d_def s'_def)
        have e: "write_loop limit ws c sent n = (if length s' > NET_MAX_WRITES_PER_EVENT \<and> limit then Some (d, s', w) else write_loop limit (tl ws) d s' w)"
          using p True w by (subst write_loop.simps) (simp add: Let_def s'_def d_def flip: w_def)
        show ?thesis
        proof (cases "length s' > NET_MAX_WRITES_PER_EVENT \<and> limit")
          case T: True then show ?thesis using e st by simp
        next
          case F: False
          have "\<exists>e sent' n'. write_loop limit (tl ws) d s' w = Some (e, sent', n') \<and> out_ok e \<and> sent' @ pending e = s' @ pending d \<and>
             writable e = writable d \<and> flags e = flags d"
            using 1(1) [OF _ True w_def w s'_def refl _ F, of d] p st(1) by (simp add: d_def Let_def)
          then show ?thesis using e F st by (simp only: if_False)
        qed
      qed
    next
      case b: False
      then have cb: "cbuf c = []" by simp
      obtain x ns where r: "reply c = x # ns" using p cb by (cases "reply c") (auto simp: clientHasPendingReplies_def)
      then obtain ob where ob: "x = Some ob" using 1(4) by (cases x) (auto simp: out_ok_def)
      have hd: "hd (reply c) = Some ob" using r ob by simp
      show ?thesis
      proof (cases "length ob = 0")
        case True
        let ?d = "c\<lparr>reply := tl (reply c)\<rparr>"
        have sl: "sentlen c = 0" using 1(4) cb r ob True by (auto simp: out_ok_def sent_ok_def)
        have d: "out_ok ?d" "pending ?d = pending c" using 1(4) cb r ob True sl by (auto simp: out_ok_def sent_ok_def pending_def)
        have "write_loop limit ws c sent n = write_loop limit ws ?d sent n" using p b hd True by (subst write_loop.simps) simp
        then show ?thesis using 1(2) [OF _ b hd True d(1)] p d(2) by simp
      next
        case ne: False
        define w where "w = next_write ws (length ob - sentlen c)"
        show ?thesis
        proof (cases "w \<le> 0")
          case w: True
          then show ?thesis using 1(4) p b hd ne by (subst write_loop.simps) (simp flip: w_def)
        next
          case w: False
          define d where "d = (let c = c\<lparr>sentlen := sentlen c + nat w\<rparr> in
             if sentlen c = length ob then c\<lparr>reply := tl (reply c), sentlen := 0, reply_bytes := reply_bytes c - length ob\<rparr> else c)"
          define s' where "s' = sent @ take (nat w) (drop (sentlen c) ob)"
          have wle: "nat w \<le> length ob - sentlen c" using next_write_le [of ws "length ob - sentlen c"] w by (simp add: w_def)
          have ne': "ob \<noteq> []" using ne by simp
          have st: "out_ok d" "s' @ pending d = sent @ pending c" "writable d = writable c" "flags d = flags c" "reply d = [] \<longrightarrow> reply_bytes d = 0"
            using write_node_step [OF 1(4) cb r [unfolded ob] ne' _ wle] w by (auto simp: d_def s'_def)
          then have np: "\<not> (reply d = [] \<and> reply_bytes d \<noteq> 0)" by simp
          have e: "write_loop limit ws c sent n = (if reply d = [] \<and> reply_bytes d \<noteq> 0 then None
              else if length s' > NET_MAX_WRITES_PER_EVENT \<and> limit then Some (d, s', w) else write_loop limit (tl ws) d s' w)"
            using p b hd ne w by (subst write_loop.simps) (simp add: Let_def s'_def d_def flip: w_def)
          show ?thesis
          proof (cases "length s' > NET_MAX_WRITES_PER_EVENT \<and> limit")
            case T: True then show ?thesis using e st np by simp
          next
            case F: False
            have "\<exists>e sent' n'. write_loop limit (tl ws) d s' w = Some (e, sent', n') \<and> out_ok e \<and> sent' @ pending e = s' @ pending d \<and>
               writable e = writable d \<and> flags e = flags d"
              using 1(3) [OF _ b hd ne w_def w s'_def refl _ np F, of] p st(1) by (simp add: d_def Let_def)
            then show ?thesis using e F np st by (simp only: if_False)
          qed
        qed
      qed
    qed
  qed
qed

text \<open>Replies and writable events in any order.\<close>

datatype out_event = Queue "byte list" | QueueObject strobj | QueueDeferred "byte list list" | Writable bool "int list"

fun event_bytes :: "out_event \<Rightarrow> byte list" where
  "event_bytes (Queue s) = s"
| "event_bytes (QueueObject ob) = bulk (getDecodedObject ob)"
| "event_bytes (QueueDeferred items) = 42 # dec (length items) @ crlf @ concat items"
| "event_bytes (Writable limit ws) = []"

fun event_ok :: "out_event \<Rightarrow> bool" where
  "event_ok (QueueObject ob) = (length (getDecodedObject ob) < 2 ^ 63)"
| "event_ok (QueueDeferred items) = (length items < 2 ^ 63)"
| "event_ok _ = True"

text \<open>The client and the bytes its socket has taken.\<close>

fun out_step :: "out_cfg \<Rightarrow> out_event \<Rightarrow> client \<times> byte list \<Rightarrow> (client \<times> byte list) option" where
  "out_step cfg (Queue s) (c, sent) = Some (addReplyString cfg c s, sent)"
| "out_step cfg (QueueObject ob) (c, sent) = Some (addReplyBulk cfg c ob, sent)"
| "out_step cfg (QueueDeferred items) (c, sent) = Some (deferred_reply cfg c items, sent)"
| "out_step cfg (Writable limit ws) (c, sent) = do { (c, bs, _) \<leftarrow> writeToClient limit True ws c; Some (c, sent @ bs) }"

fun out_run :: "out_cfg \<Rightarrow> out_event list \<Rightarrow> client \<times> byte list \<Rightarrow> (client \<times> byte list) option" where
  "out_run cfg [] st = Some st"
| "out_run cfg (e # es) st = (out_step cfg e st \<bind> out_run cfg es)"

lemma writeToClient_spec:
  assumes "out_ok c"
  shows "\<exists>d sent v. writeToClient limit True ws c = Some (d, sent, v) \<and> out_ok d \<and> sent @ pending d = pending c \<and> writable d = writable c"
proof -
  obtain d sent n where d: "write_loop limit ws c [] 0 = Some (d, sent, n)" "out_ok d" "sent @ pending d = pending c" "writable d = writable c"
    using write_loop_spec [OF assms, of limit ws "[]" 0] by auto
  show ?thesis
  proof (cases "clientHasPendingReplies d")
    case True then show ?thesis using d by (auto simp: writeToClient_def)
  next
    case False
    then have "cbuf d = []" "reply d = []" by (auto simp: clientHasPendingReplies_def)
    then have "out_ok (d\<lparr>sentlen := 0\<rparr>)" "pending (d\<lparr>sentlen := 0\<rparr>) = pending d" using d(2) by (auto simp: out_ok_def sent_ok_def pending_def)
    then show ?thesis using d False by (simp add: writeToClient_def)
  qed
qed

lemma out_step_spec:
  assumes "out_ok c" "writable c" "event_ok e"
  shows "\<exists>d sent'. out_step cfg e (c, sent) = Some (d, sent') \<and> out_ok d \<and> writable d \<and> sent' @ pending d = (sent @ pending c) @ event_bytes e"
proof (cases e)
  case (Queue s) then show ?thesis using str_sink.add_appends [OF assms(1,2), of s cfg] by (simp add: appended_def)
next
  case (QueueObject ob)
  have "appended c (36 # dec (length (getDecodedObject ob)) @ crlf) (addReplyBulkLen cfg c ob)"
    using addReplyBulkLen_ok [OF assms(1,2)] assms(3) QueueObject by simp
  from obj_sink.adds [OF this, where cfg = cfg and xs = "[ob, shared crlf]"] show ?thesis
    using QueueObject by (simp add: addReplyBulk_def bulk_def appended_def)
next
  case (QueueDeferred items) then show ?thesis using deferred_reply_ok [OF assms(1,2), of items cfg] assms(3) by (simp add: appended_def)
next
  case (Writable limit ws)
  obtain d bs v where "writeToClient limit True ws c = Some (d, bs, v)" "out_ok d" "bs @ pending d = pending c" "writable d = writable c"
    using writeToClient_spec [OF assms(1), of limit ws] by blast
  then show ?thesis using Writable assms(2) by simp
qed

text \<open>
  C8: Every reply byte is sent exactly once and in order: however the replies are spread over the static buffer, the nodes of the list and the
  deferred headers, and however much the socket takes each time it is writable, what it has taken followed by what is still queued is the
  concatenation of the replies.
\<close>

theorem output_in_order:
  assumes "out_ok c" "writable c" "pending c = []" "\<forall>e \<in> set es. event_ok e"
  shows "\<exists>d sent. out_run cfg es (c, []) = Some (d, sent) \<and> sent @ pending d = concat (map event_bytes es)"
proof -
  have "\<exists>d sent'. out_run cfg es (c, sent) = Some (d, sent') \<and> sent' @ pending d = (sent @ pending c) @ concat (map event_bytes es)"
    if "out_ok c" "writable c" for c sent
    using that assms(4)
  proof (induction es arbitrary: c sent)
    case (Cons e es)
    obtain d s1 where d: "out_step cfg e (c, sent) = Some (d, s1)" "out_ok d" "writable d" "s1 @ pending d = (sent @ pending c) @ event_bytes e"
      using out_step_spec [OF Cons.prems(1,2), of e cfg sent] Cons.prems(3) by auto
    show ?case using Cons.IH [OF d(2,3), of s1] Cons.prems(3) d by auto
  qed simp
  from this [OF assms(1,2), of "[]"] show ?thesis using assms(3) by simp
qed

text \<open>A client that has just connected.\<close>

definition fresh_client :: client where
  "fresh_client = \<lparr>fd = 8, cdb = 0, querybuf = [], argv = [], cmd = None, reqtype = 0, multibulklen = 0, bulklen = - 1, reply = [], reply_bytes = 0, sentlen = 0,
     obuf_soft_limit_reached_time = 0, flags = {}, repl_can_write = True, authenticated = False, mstate = [], watched_keys = [], pubsub_channels = [], pubsub_patterns = [], cbuf = []\<rparr>"

definition default_cfg :: out_cfg where
  "default_cfg = \<lparr>client_obuf_limits = (\<lambda>_. \<lparr>hard_limit_bytes = 0, soft_limit_bytes = 0, soft_limit_seconds = 0\<rparr>), unixtime = 1000, node_size = 24\<rparr>"

lemma fresh_client_ok: "out_ok fresh_client" "writable fresh_client" "pending fresh_client = []"
  by (simp_all add: fresh_client_def out_ok_def sent_ok_def pending_def writable_def prepareClientToWrite_def clientHasPendingReplies_def)

theorem output_in_order_witness:
  "\<exists>d sent. out_run default_cfg [Queue [43, 79, 75, 13, 10], Writable True [3], QueueObject (OBJ_ENCODING_INT 12), Writable True [1, 100, 100]]
     (fresh_client, []) = Some (d, sent) \<and> sent @ pending d = [43, 79, 75, 13, 10, 36, 50, 13, 10, 49, 50, 13, 10]"
proof -
  have v: "getDecodedObject (OBJ_ENCODING_INT 12) = [49, 50]" by (simp add: ll_text_dec dec_int_def dec.simps)
  have "concat (map event_bytes [Queue [43, 79, 75, 13, 10], Writable True [3], QueueObject (OBJ_ENCODING_INT 12), Writable True [1, 100, 100]]) =
    [43, 79, 75, 13, 10, 36, 50, 13, 10, 49, 50, 13, 10]"
    by (simp add: bulk_def v dec.simps del: getDecodedObject.simps)
  then show ?thesis
    using output_in_order [OF fresh_client_ok, of "[Queue [43, 79, 75, 13, 10], Writable True [3], QueueObject (OBJ_ENCODING_INT 12), Writable True [1, 100, 100]]" default_cfg]
    by (simp add: v del: getDecodedObject.simps out_run.simps)
qed

theorem addReplyBulk_encodes_witness:
  "appended fresh_client [36, 50, 13, 10, 45, 55, 13, 10] (addReplyBulk default_cfg fresh_client (OBJ_ENCODING_INT (- 7)))"
proof -
  have v: "getDecodedObject (OBJ_ENCODING_INT (- 7)) = [45, 55]" by (simp add: ll_text_dec dec_int_def dec.simps)
  show ?thesis using addReplyBulk_encodes [OF fresh_client_ok(1,2), of "OBJ_ENCODING_INT (- 7)" default_cfg]
    unfolding v by (simp add: bulk_def dec.simps)
qed

end
