(* ===== verification/Proto.thy ===== *)
theory Proto
  imports Client_Output
begin

text \<open>
  networking.c, the input side: the incremental parser for requests and the loop that executes them. What the
  parser leaves in the client between two reads is all it knows about a request that has arrived only in part.
\<close>

section \<open>Requests\<close>

abbreviation PROTO_REQ_INLINE :: nat where "PROTO_REQ_INLINE \<equiv> 1"
abbreviation PROTO_REQ_MULTIBULK :: nat where "PROTO_REQ_MULTIBULK \<equiv> 2"
abbreviation PROTO_INLINE_MAX_SIZE :: nat where "PROTO_INLINE_MAX_SIZE \<equiv> 65536"
abbreviation PROTO_MBULK_BIG_ARG :: nat where "PROTO_MBULK_BIG_ARG \<equiv> 32768"
abbreviation PROTO_IOBUF_LEN :: nat where "PROTO_IOBUF_LEN \<equiv> 16384"

definition freeClientArgv :: "client \<Rightarrow> client" where
  "freeClientArgv c = c\<lparr>argv := [], cmd := None\<rparr>"

definition resetClient :: "client \<Rightarrow> client" where
  "resetClient c =
    (let asking = (cmd c = Some (chars ''asking''));
         c = freeClientArgv c;
         c = c\<lparr>reqtype := 0, multibulklen := 0, bulklen := - 1\<rparr>;
         c = (if CLIENT_MULTI \<notin> flags c \<and> \<not> asking then c\<lparr>flags := flags c - {CLIENT_ASKING}\<rparr> else c);
         c = c\<lparr>flags := flags c - {CLIENT_REPLY_SKIP}\<rparr>
     in if CLIENT_REPLY_SKIP_NEXT \<in> flags c
        then c\<lparr>flags := insert CLIENT_REPLY_SKIP (flags c) - {CLIENT_REPLY_SKIP_NEXT}\<rparr> else c)"

text \<open>
  \<open>strchr\<close> on the bytes of a string, whose terminator follows the last one: it stops at a zero byte.
\<close>

fun strchr :: "byte list \<Rightarrow> byte \<Rightarrow> nat option" where
  "strchr [] ch = None"
| "strchr (x # xs) ch = (if x = ch then Some 0 else if x = 0 then None else map_option Suc (strchr xs ch))"

text \<open>\<open>sdsrange(querybuf,pos,-1)\<close>, on the bytes of the string. The log message of a protocol error is left out.\<close>

definition setProtocolError :: "client \<Rightarrow> nat \<Rightarrow> client" where
  "setProtocolError c pos = c\<lparr>flags := insert CLIENT_CLOSE_AFTER_REPLY (flags c), querybuf := range_spec (int pos) (- 1) (querybuf c)\<rparr>"

text \<open>
  The outer option is memory safety. A line feed of a slave, which only refreshes a timestamp, is treated as any
  other line.
\<close>

definition processInlineBuffer :: "(nat \<Rightarrow> byte) \<Rightarrow> out_cfg \<Rightarrow> client \<Rightarrow> (client \<times> bool) option" where
  "processInlineBuffer garb cfg c =
    (case strchr (querybuf c) 10 of
       None \<Rightarrow>
         Some (if length (querybuf c) > PROTO_INLINE_MAX_SIZE
               then setProtocolError (addReplyError cfg c ''Protocol error: too big inline request'') 0 else c, False)
     | Some newline \<Rightarrow>
         let querylen = (if newline \<noteq> 0 \<and> querybuf c ! (newline - 1) = 13 then newline - 1 else newline)
         in do {
           aux \<leftarrow> sdsnewlen garb (Some (querybuf c @ [0])) querylen;
           args \<leftarrow> sdssplitargs garb (sbuf aux);
           case args of
             None \<Rightarrow> Some (setProtocolError (addReplyError cfg c ''Protocol error: unbalanced quotes in request'') 0, False)
           | Some args \<Rightarrow>
               Some (c\<lparr>querybuf := range_spec (int (querylen + 2)) (- 1) (querybuf c),
                       argv := filter (\<lambda>a. length a \<noteq> 0) (map sds_str args)\<rparr>, True) })"

text \<open>
  Reading a bulk length: the loop is left to wait for more bytes, the function is left with an error, or the length is known and
  the bytes at the returned position are the argument. A big argument is moved to the start of the buffer.
\<close>

datatype bulk_len = Wait client | Failed client | Known nat client

definition read_bulklen :: "out_cfg \<Rightarrow> nat \<Rightarrow> client \<Rightarrow> bulk_len" where
  "read_bulklen cfg pos c =
    (let qb = querybuf c in
     case strchr (drop pos qb) 13 of
       None \<Rightarrow>
         if length qb > PROTO_INLINE_MAX_SIZE
         then Failed (setProtocolError (addReplyError cfg c ''Protocol error: too big bulk count string'') 0)
         else Wait c
     | Some k \<Rightarrow>
         if int (pos + k) > int (length qb) - 2 then Wait c
         else if qb ! pos \<noteq> 36
         then Failed (setProtocolError (addReplyErrorFormat cfg c (chars ''Protocol error: expected '' @ [39, 36, 39] @ chars '', got '' @ [39, qb ! pos, 39])) pos)
         else (case string2ll (take (k - 1) (drop (pos + 1) qb)) of
             None \<Rightarrow> Failed (setProtocolError (addReplyError cfg c ''Protocol error: invalid bulk length'') pos)
           | Some ll \<Rightarrow>
               if sint ll < 0 \<or> sint ll > 512 * 1024 * 1024
               then Failed (setProtocolError (addReplyError cfg c ''Protocol error: invalid bulk length'') pos)
               else
                 let pos = pos + k + 2 in
                 if sint ll \<ge> int PROTO_MBULK_BIG_ARG
                 then Known 0 (c\<lparr>querybuf := range_spec (int pos) (- 1) qb, bulklen := sint ll\<rparr>)
                 else Known pos (c\<lparr>bulklen := sint ll\<rparr>)))"

text \<open>
  The loop over the arguments; it starts with a positive count and returns the position reached and whether the function goes on after it.
\<close>

function mbulk_loop :: "out_cfg \<Rightarrow> nat \<Rightarrow> client \<Rightarrow> client \<times> nat \<times> bool" where
  "mbulk_loop cfg pos c =
    (if multibulklen c \<le> 0 then (c, pos, True)
     else case (if bulklen c = - 1 then read_bulklen cfg pos c else Known pos c) of
       Wait c \<Rightarrow> (c, pos, True)
     | Failed c \<Rightarrow> (c, pos, False)
     | Known pos d \<Rightarrow>
         let qb = querybuf d; len = nat (bulklen d) in
         if length qb - pos < len + 2 then (d, pos, True)
         else if pos = 0 \<and> len \<ge> PROTO_MBULK_BIG_ARG \<and> length qb = len + 2
         then mbulk_loop cfg 0
                (d\<lparr>argv := argv d @ [take (length qb - 2) qb], querybuf := [], bulklen := - 1, multibulklen := multibulklen c - 1\<rparr>)
         else mbulk_loop cfg (pos + len + 2)
                (d\<lparr>argv := argv d @ [take len (drop pos qb)], bulklen := - 1, multibulklen := multibulklen c - 1\<rparr>))"
  by pat_completeness auto
termination by (relation "measure (\<lambda>(cfg, pos, c). nat (multibulklen c))") auto

declare mbulk_loop.simps [simp del]

definition mbulk_args :: "out_cfg \<Rightarrow> nat \<Rightarrow> client \<Rightarrow> client \<times> bool" where
  "mbulk_args cfg pos c =
    (let (c, pos, go) = mbulk_loop cfg pos c in
     if \<not> go then (c, False)
     else let c = (if pos \<noteq> 0 then c\<lparr>querybuf := range_spec (int pos) (- 1) (querybuf c)\<rparr> else c) in (c, multibulklen c = 0))"

text \<open>A failed assertion is \<open>None\<close>.\<close>

definition processMultibulkBuffer :: "out_cfg \<Rightarrow> client \<Rightarrow> (client \<times> bool) option" where
  "processMultibulkBuffer cfg c =
    (if multibulklen c = 0 then
       (if argv c \<noteq> [] then None
        else case strchr (querybuf c) 13 of
          None \<Rightarrow>
            Some (if length (querybuf c) > PROTO_INLINE_MAX_SIZE
                  then setProtocolError (addReplyError cfg c ''Protocol error: too big mbulk count string'') 0 else c, False)
        | Some newline \<Rightarrow>
            if int newline > int (length (querybuf c)) - 2 then Some (c, False)
            else if querybuf c ! 0 \<noteq> 42 then None
            else (case string2ll (take (newline - 1) (drop 1 (querybuf c))) of
                None \<Rightarrow> Some (setProtocolError (addReplyError cfg c ''Protocol error: invalid multibulk length'') 0, False)
              | Some ll \<Rightarrow>
                  if sint ll > 1024 * 1024
                  then Some (setProtocolError (addReplyError cfg c ''Protocol error: invalid multibulk length'') 0, False)
                  else if sint ll \<le> 0 then Some (c\<lparr>querybuf := range_spec (int (newline + 2)) (- 1) (querybuf c)\<rparr>, True)
                  else Some (mbulk_args cfg (newline + 2) (c\<lparr>multibulklen := sint ll, argv := []\<rparr>))))
     else if multibulklen c < 0 then None
     else Some (mbulk_args cfg 0 c))"

text \<open>
  The execution of a command is an argument: \<open>exec\<close> takes the state of the server and the client and returns both, whether the
  client has to be reset, and whether it still exists. \<open>paused\<close> is \<open>clientsArePaused\<close>. The replication offset of a
  master client is left out. A loop that does not end is \<open>None\<close>.
\<close>

partial_function (option) processInputBuffer ::
  "(nat \<Rightarrow> byte) \<Rightarrow> out_cfg \<Rightarrow> ('s \<Rightarrow> client \<Rightarrow> 's \<times> client \<times> bool \<times> bool) \<Rightarrow> ('s \<Rightarrow> bool) \<Rightarrow> 's \<Rightarrow> client \<Rightarrow> ('s \<times> client) option" where
  "processInputBuffer garb cfg exec paused st c =
    (if querybuf c = [] then Some (st, c)
     else if CLIENT_SLAVE \<notin> flags c \<and> paused st then Some (st, c)
     else if CLIENT_BLOCKED \<in> flags c then Some (st, c)
     else if CLIENT_CLOSE_AFTER_REPLY \<in> flags c \<or> CLIENT_CLOSE_ASAP \<in> flags c then Some (st, c)
     else
       (let c = (if reqtype c = 0 then c\<lparr>reqtype := (if querybuf c ! 0 = 42 then PROTO_REQ_MULTIBULK else PROTO_REQ_INLINE)\<rparr> else c) in
        do {
          (c, ok) \<leftarrow> (if reqtype c = PROTO_REQ_INLINE then processInlineBuffer garb cfg c
                      else if reqtype c = PROTO_REQ_MULTIBULK then processMultibulkBuffer cfg c else None);
          if \<not> ok then Some (st, c)
          else if argv c = [] then processInputBuffer garb cfg exec paused st (resetClient c)
          else
            (let (st, c, done, alive) = exec st c;
                 c = (if done then resetClient c else c)
             in if \<not> alive then Some (st, c) else processInputBuffer garb cfg exec paused st c) }))"

text \<open>
  How much is asked from the socket: for a big argument no more than is missing of it. \<open>data\<close> is what the socket delivers; an
  empty \<open>data\<close> is the end of the connection, and an inner \<open>None\<close> in the result a client that was freed.
\<close>

definition readlen :: "client \<Rightarrow> nat" where
  "readlen c =
    (if reqtype c = PROTO_REQ_MULTIBULK \<and> multibulklen c \<noteq> 0 \<and> bulklen c \<noteq> - 1 \<and> bulklen c \<ge> int PROTO_MBULK_BIG_ARG
     then min (nat (bulklen c + 2) - length (querybuf c)) PROTO_IOBUF_LEN
     else PROTO_IOBUF_LEN)"

definition readQueryFromClient ::
  "(nat \<Rightarrow> byte) \<Rightarrow> out_cfg \<Rightarrow> ('s \<Rightarrow> client \<Rightarrow> 's \<times> client \<times> bool \<times> bool) \<Rightarrow> ('s \<Rightarrow> bool) \<Rightarrow> nat \<Rightarrow> byte list \<Rightarrow> 's \<Rightarrow> client \<Rightarrow> ('s \<times> client option) option" where
  "readQueryFromClient garb cfg exec paused client_max_querybuf_len data st c =
    (if length data > readlen c then None
     else if data = [] then Some (st, None)
     else
       let c = c\<lparr>querybuf := querybuf c @ data\<rparr> in
       if length (querybuf c) > client_max_querybuf_len then Some (st, None)
       else do { (st, c) \<leftarrow> processInputBuffer garb cfg exec paused st c; Some (st, Some c) })"

end
