(* ===== verification/Proto_Spec.thy ===== *)
theory Proto_Spec
  imports Proto
begin

text \<open>
  Requests as a client writes them, and what the parser and the loop make of them: however the stream is cut up, the commands are executed as they were sent.
\<close>

section \<open>Requests as clients encode them\<close>

definition cmd_enc :: "byte list list \<Rightarrow> byte list" where
  "cmd_enc xs = 42 # dec (length xs) @ crlf @ concat (map bulk xs)"

definition stream :: "byte list list list \<Rightarrow> byte list" where
  "stream cmds = concat (map cmd_enc cmds)"

definition cmd_ok :: "byte list list \<Rightarrow> bool" where
  "cmd_ok xs \<longleftrightarrow> xs \<noteq> [] \<and> length xs \<le> 2 ^ 20 \<and> (\<forall>x \<in> set xs. length x \<le> 2 ^ 29)"

lemma range_spec_drop [simp]: "range_spec (int pos) (- 1) xs = drop pos xs"
proof -
  have "length xs - pos \<le> nat (int (length xs) - int pos)" by linarith
  then show ?thesis by (simp add: range_spec_def Let_def max_def)
qed

lemma strchr_prefix:
  assumes "q @ rest = xs @ ch # zs" "ch \<notin> set xs" "0 \<notin> set xs"
  shows "strchr q ch = (if length xs < length q then Some (length xs) else None)"
  using assms
proof (induction xs arbitrary: q)
  case Nil then show ?case by (cases q) auto
next
  case (Cons x xs) then show ?case by (cases q) auto
qed

lemma dec_no_ctrl: "13 \<notin> set (dec n)" "0 \<notin> set (dec n)"
  using dec_digits [of n] by (auto simp: isdig_def)

lemma string2ll_dec: "n < 2 ^ 63 \<Longrightarrow> string2ll (dec n) = Some (of_nat n) \<and> sint (of_nat n :: s64) = int n"
  using string2ll_iff [of "dec n" "of_nat n"] sint_of_nat_s64 [of n] by (simp add: dec_int_def)

lemma length_dec_bound: "n \<le> 2 ^ 29 \<Longrightarrow> length (dec n) \<le> 9"
  using length_dec_mono_bound [of n 8] by simp

section \<open>The arguments of a request\<close>

text \<open>What the parser expects to see next, while it reads the arguments \<open>xs\<close> and other requests follow.\<close>

definition args_exp :: "client \<Rightarrow> byte list list \<Rightarrow> byte list \<Rightarrow> byte list \<Rightarrow> bool" where
  "args_exp c xs tl0 s \<longleftrightarrow> multibulklen c = int (length xs) \<and>
     ((bulklen c = - 1 \<and> s = concat (map bulk xs) @ tl0) \<or>
      (\<exists>x ys. xs = x # ys \<and> bulklen c = int (length x) \<and> s = x @ crlf @ concat (map bulk ys) @ tl0))"

text \<open>The buffer is small enough not to be taken for an endless line, or holds nothing but a part of a big argument.\<close>

definition room_ok :: "nat \<Rightarrow> client \<Rightarrow> bool" where
  "room_ok pos c \<longleftrightarrow> length (querybuf c) \<le> PROTO_INLINE_MAX_SIZE \<or>
     (pos = 0 \<and> bulklen c \<ge> int PROTO_MBULK_BIG_ARG \<and> int (length (querybuf c)) \<le> bulklen c + 2)"

text \<open>What is left in the buffer is less than a header or less than the argument.\<close>

definition short_buf :: "client \<Rightarrow> nat \<Rightarrow> bool" where
  "short_buf c n \<longleftrightarrow> (if bulklen c = - 1 then n < 32 else int n < bulklen c + 2)"

text \<open>The parser leaves the rest of the client alone.\<close>

definition parsed :: "client \<Rightarrow> client \<Rightarrow> bool" where
  "parsed c d \<longleftrightarrow> flags d = flags c \<and> reqtype d = reqtype c"

lemma read_bulklen_spec:
  assumes "drop pos (querybuf c) @ rest = bulk x @ tl0" "length x \<le> 2 ^ 29" "length (querybuf c) \<le> PROTO_INLINE_MAX_SIZE" "pos \<le> length (querybuf c)"
  shows "if length (querybuf c) - pos < length (dec (length x)) + 3 then read_bulklen cfg pos c = Wait c
     else \<exists>pos' q. read_bulklen cfg pos c = Known pos' (c\<lparr>querybuf := q, bulklen := int (length x)\<rparr>) \<and> pos' \<le> length q \<and> drop pos' q @ rest = x @ crlf @ tl0 \<and>
       length q \<le> length (querybuf c)"
proof -
  let ?qb = "querybuf c" let ?d = "dec (length x)"
  let ?k = "length ?d + 1"
  have e: "drop pos ?qb @ rest = (36 # ?d) @ 13 # 10 # x @ crlf @ tl0" using assms(1) by (simp add: bulk_def)
  have sc: "strchr (drop pos ?qb) 13 = (if ?k < length ?qb - pos then Some ?k else None)"
    using strchr_prefix [OF e] dec_no_ctrl [of "length x"] by simp
  show ?thesis
  proof (cases "length ?qb - pos < ?k + 2")
    case True
    show ?thesis
    proof (cases "?k < length ?qb - pos")
      case T: True
      then have "int (pos + ?k) > int (length ?qb) - 2" using True assms(4) by linarith
      then show ?thesis using sc T True by (simp add: read_bulklen_def Let_def)
    next
      case False then show ?thesis using sc True assms(3) by (simp add: read_bulklen_def Let_def)
    qed
  next
    case False
    then have lt: "?k < length ?qb - pos" "\<not> int (pos + ?k) > int (length ?qb) - 2" by linarith+
    have nf: "\<not> length ?qb - pos < length ?d + 3" using False by simp
    have len: "?k + 2 \<le> length (drop pos ?qb)" using False by simp
    have tk: "take (?k + 2) (drop pos ?qb) = 36 # ?d @ crlf"
    proof -
      have "take (?k + 2) (drop pos ?qb) = take (?k + 2) (drop pos ?qb @ rest)" using len by simp
      also have "\<dots> = 36 # ?d @ crlf" unfolding e by simp
      finally show ?thesis .
    qed
    have split: "drop pos ?qb = (36 # ?d @ crlf) @ drop (pos + (?k + 2)) ?qb"
      using append_take_drop_id [of "?k + 2" "drop pos ?qb"] unfolding tk by (simp add: add.commute)
    have h: "?qb ! pos = 36"
    proof -
      have "drop pos ?qb ! 0 = 36" unfolding split by simp
      then show ?thesis using assms(4) by simp
    qed
    have "drop (pos + 1) ?qb = ?d @ crlf @ drop (pos + (?k + 2)) ?qb"
    proof -
      have "drop (pos + 1) ?qb = tl (drop pos ?qb)" by (simp add: drop_Suc tl_drop)
      then show ?thesis unfolding split by simp
    qed
    then have t: "take (?k - 1) (drop (pos + 1) ?qb) = ?d" by simp
    have s: "string2ll ?d = Some (of_nat (length x))" "sint (of_nat (length x) :: s64) = int (length x)"
      using string2ll_dec [of "length x"] assms(2) by auto
    have rest: "drop (pos + ?k + 2) ?qb @ rest = x @ crlf @ tl0"
    proof -
      have "drop (pos + (?k + 2)) ?qb @ rest = x @ crlf @ tl0" using e unfolding split by simp
      then show ?thesis by (simp add: add.assoc)
    qed
    have pl: "pos + ?k + 2 \<le> length ?qb" using len assms(4) by simp
    show ?thesis
    proof (cases "int (length x) \<ge> int PROTO_MBULK_BIG_ARG")
      case True
      then have "read_bulklen cfg pos c = Known 0 (c\<lparr>querybuf := drop (pos + ?k + 2) ?qb, bulklen := int (length x)\<rparr>)"
        using sc lt h t s assms(2) by (simp add: read_bulklen_def Let_def del: of_nat_add)
      then show ?thesis unfolding if_not_P [OF nf] using rest by (intro exI [of _ 0] exI [of _ "drop (pos + ?k + 2) ?qb"]) simp
    next
      case F: False
      have "read_bulklen cfg pos c = Known (pos + ?k + 2) (c\<lparr>bulklen := int (length x)\<rparr>)"
        using sc lt h t s assms(2) F by (simp add: read_bulklen_def Let_def del: of_nat_add)
      moreover have "c\<lparr>bulklen := int (length x)\<rparr> = c\<lparr>querybuf := ?qb, bulklen := int (length x)\<rparr>" by simp
      ultimately show ?thesis unfolding if_not_P [OF nf] using rest pl by (intro exI [of _ "pos + ?k + 2"] exI [of _ ?qb]) (simp only: le_refl simp_thms)
    qed
  qed
qed

lemma argv_querybuf_swap: "c\<lparr>argv := a, querybuf := q, bulklen := b, multibulklen := m\<rparr> = c\<lparr>querybuf := q, argv := a, bulklen := b, multibulklen := m\<rparr>"
  by (rule client.equality) simp_all

lemma mbulk_loop_done: "multibulklen c = 0 \<Longrightarrow> mbulk_loop cfg pos c = (c, pos, True)"
  by (subst mbulk_loop.simps) simp

lemma mbulk_loop_arg:
  assumes "multibulklen c = int (Suc m)"
    and "(if bulklen c = - 1 then read_bulklen cfg pos c else Known pos c) = Known p (c\<lparr>querybuf := q, bulklen := int (length x)\<rparr>)"
    and "drop p q @ rest = x @ crlf @ s" "p \<le> length q"
  shows "if length q - p < length x + 2 then mbulk_loop cfg pos c = (c\<lparr>querybuf := q, bulklen := int (length x)\<rparr>, p, True) \<and> rest \<noteq> []
     else \<exists>p' q'. mbulk_loop cfg pos c = mbulk_loop cfg p' (c\<lparr>querybuf := q', argv := argv c @ [x], bulklen := - 1, multibulklen := int m\<rparr>) \<and>
       p' \<le> length q' \<and> drop p' q' @ rest = s \<and> (length q' \<le> length q) \<and>
       (p = 0 \<and> length x \<ge> PROTO_MBULK_BIG_ARG \<and> length q = length x + 2 \<longrightarrow> q' = [])"
proof (cases "length q - p < length x + 2")
  case True
  have "rest \<noteq> []" using True arg_cong [OF assms(3), of length] by auto
  moreover have "mbulk_loop cfg pos c = (c\<lparr>querybuf := q, bulklen := int (length x)\<rparr>, p, True)"
    using assms(1,2) True by (subst mbulk_loop.simps) simp
  ultimately show ?thesis using True by simp
next
  case False
  have len: "length x + 2 \<le> length (drop p q)" using False assms(4) by simp
  have tk: "take (length x + 2) (drop p q) = x @ crlf"
  proof -
    have "take (length x + 2) (drop p q) = take (length x + 2) (drop p q @ rest)" using len by simp
    also have "\<dots> = x @ crlf" unfolding assms(3) by simp
    finally show ?thesis .
  qed
  have split: "drop p q = (x @ crlf) @ drop (p + length x + 2) q"
    using append_take_drop_id [of "length x + 2" "drop p q"] unfolding tk by (simp add: add.commute add.left_commute)
  have tx: "take (length x) (drop p q) = x" unfolding split by simp
  have rs: "drop (p + length x + 2) q @ rest = s" using assms(3) unfolding split by simp
  have step: "mbulk_loop cfg pos c = (if p = 0 \<and> length x \<ge> PROTO_MBULK_BIG_ARG \<and> length q = length x + 2
      then mbulk_loop cfg 0 (c\<lparr>querybuf := [], argv := argv c @ [take (length q - 2) q], bulklen := - 1, multibulklen := int m\<rparr>)
      else mbulk_loop cfg (p + length x + 2) (c\<lparr>querybuf := q, argv := argv c @ [x], bulklen := - 1, multibulklen := int m\<rparr>))"
    using assms(1,2) False tx by (subst mbulk_loop.simps) (simp add: Let_def argv_querybuf_swap)
  show ?thesis
  proof (cases "p = 0 \<and> length x \<ge> PROTO_MBULK_BIG_ARG \<and> length q = length x + 2")
    case True
    then have "take (length q - 2) q = x" "drop (p + length x + 2) q = []" using tx by simp_all
    then have "mbulk_loop cfg pos c = mbulk_loop cfg 0 (c\<lparr>querybuf := [], argv := argv c @ [x], bulklen := - 1, multibulklen := int m\<rparr>)" "rest = s"
      using step True rs by simp_all
    then show ?thesis unfolding if_not_P [OF False] by (intro exI [of _ 0] exI [of _ "[]"]) simp
  next
    case F: False
    have "p + length x + 2 \<le> length q" using len assms(4) by simp
    then show ?thesis unfolding if_not_P [OF False] using step F rs by (intro exI [of _ "p + length x + 2"] exI [of _ q]) auto
  qed
qed

lemma mbulk_loop_spec:
  "\<forall>x \<in> set xs. length x \<le> 2 ^ 29 \<Longrightarrow> pos \<le> length (querybuf c) \<Longrightarrow> room_ok pos c \<Longrightarrow> args_exp c xs more0 (drop pos (querybuf c) @ rest) \<Longrightarrow>
     \<exists>d pos' zs ys. mbulk_loop cfg pos c = (d, pos', True) \<and> pos' \<le> length (querybuf d) \<and> xs = zs @ ys \<and> argv d = argv c @ zs \<and> parsed c d \<and> room_ok pos' d \<and>
       args_exp d ys more0 (drop pos' (querybuf d) @ rest) \<and> (ys \<noteq> [] \<longrightarrow> rest \<noteq> [] \<and> short_buf d (length (querybuf d) - pos'))"
proof (induction xs arbitrary: pos c)
  case Nil
  then have "multibulklen c = 0" by (simp add: args_exp_def)
  then show ?case using Nil mbulk_loop_done [of c cfg pos] by (auto simp: parsed_def)
next
  case (Cons x ys)
  have ml: "multibulklen c = int (Suc (length ys))" using Cons.prems(4) by (simp add: args_exp_def)
  have lx: "length x \<le> 2 ^ 29" using Cons.prems(1) by simp
  let ?r = "if bulklen c = - 1 then read_bulklen cfg pos c else Known pos c"
  consider (wait) "bulklen c = - 1" "?r = Wait c" "rest \<noteq> []" "short_buf c (length (querybuf c) - pos)"
    | (known) p q where "?r = Known p (c\<lparr>querybuf := q, bulklen := int (length x)\<rparr>)" "p \<le> length q" "drop p q @ rest = x @ crlf @ concat (map bulk ys) @ more0"
      "length q \<le> PROTO_INLINE_MAX_SIZE \<or> (p = 0 \<and> length x \<ge> PROTO_MBULK_BIG_ARG \<and> length q \<le> length x + 2)"
  proof (cases "bulklen c = - 1")
    case True
    have e: "drop pos (querybuf c) @ rest = bulk x @ concat (map bulk ys) @ more0" using Cons.prems(4) True by (auto simp: args_exp_def)
    have lq: "length (querybuf c) \<le> PROTO_INLINE_MAX_SIZE" using Cons.prems(3) True by (simp add: room_ok_def)
    note rb = read_bulklen_spec [OF e lx lq Cons.prems(2), of cfg]
    show ?thesis
    proof (cases "length (querybuf c) - pos < length (dec (length x)) + 3")
      case T: True
      have "rest \<noteq> []" using T arg_cong [OF e, of length] by (auto simp: bulk_def)
      moreover have "short_buf c (length (querybuf c) - pos)" using T True length_dec_bound [OF lx] by (simp add: short_buf_def)
      ultimately show ?thesis using wait True T rb by simp
    next
      case F: False
      then obtain p q where "read_bulklen cfg pos c = Known p (c\<lparr>querybuf := q, bulklen := int (length x)\<rparr>)" "p \<le> length q"
        "drop p q @ rest = x @ crlf @ concat (map bulk ys) @ more0" "length q \<le> length (querybuf c)" using rb by auto
      then show ?thesis using known True lq by simp
    qed
  next
    case False
    then have b: "bulklen c = int (length x)" "drop pos (querybuf c) @ rest = x @ crlf @ concat (map bulk ys) @ more0" using Cons.prems(4) by (auto simp: args_exp_def)
    have cc: "c = c\<lparr>querybuf := querybuf c, bulklen := int (length x)\<rparr>" using b(1) by simp
    have rm: "length (querybuf c) \<le> PROTO_INLINE_MAX_SIZE \<or> (pos = 0 \<and> length x \<ge> PROTO_MBULK_BIG_ARG \<and> length (querybuf c) \<le> length x + 2)"
      using Cons.prems(3) b(1) by (auto simp: room_ok_def)
    show ?thesis by (rule known [of pos "querybuf c", OF _ Cons.prems(2) b(2) rm]) (use cc b(1) in \<open>simp\<close>)
  qed
  then show ?case
  proof cases
    case wait
    then have "mbulk_loop cfg pos c = (c, pos, True)" using ml by (subst mbulk_loop.simps) simp
    then show ?thesis using wait Cons.prems by (intro exI [of _ c] exI [of _ pos] exI [of _ "[]"] exI [of _ "x # ys"]) (simp add: parsed_def)
  next
    case (known p q)
    let ?c1 = "c\<lparr>querybuf := q, bulklen := int (length x)\<rparr>"
    note ma = mbulk_loop_arg [OF ml known(1,3,2)]
    show ?thesis
    proof (cases "length q - p < length x + 2")
      case True
      have "args_exp ?c1 (x # ys) more0 (drop p (querybuf ?c1) @ rest)" using ml known(3) by (simp add: args_exp_def)
      moreover have "short_buf ?c1 (length (querybuf ?c1) - p)" using True by (simp add: short_buf_def)
      moreover have "room_ok p ?c1" using known(4) by (auto simp: room_ok_def)
      ultimately show ?thesis using ma True known(2)
        by (intro exI [of _ ?c1] exI [of _ p] exI [of _ "[]"] exI [of _ "x # ys"]) (simp add: parsed_def)
    next
      case False
      then obtain p' q' where pq: "mbulk_loop cfg pos c = mbulk_loop cfg p' (c\<lparr>querybuf := q', argv := argv c @ [x], bulklen := - 1, multibulklen := int (length ys)\<rparr>)"
        "p' \<le> length q'" "drop p' q' @ rest = concat (map bulk ys) @ more0" "length q' \<le> length q"
        "p = 0 \<and> length x \<ge> PROTO_MBULK_BIG_ARG \<and> length q = length x + 2 \<longrightarrow> q' = []" using ma by auto
      let ?c2 = "c\<lparr>querybuf := q', argv := argv c @ [x], bulklen := - 1, multibulklen := int (length ys)\<rparr>"
      have "length q' \<le> PROTO_INLINE_MAX_SIZE"
      proof (cases "length q \<le> PROTO_INLINE_MAX_SIZE")
        case True then show ?thesis using pq(4) by simp
      next
        case F: False
        then have "q' = []" using known(4) pq(5) False by auto
        then show ?thesis by simp
      qed
      then have "room_ok p' ?c2" by (simp add: room_ok_def)
      moreover have "args_exp ?c2 ys more0 (drop p' (querybuf ?c2) @ rest)" using pq(3) by (simp add: args_exp_def)
      moreover have "\<forall>x \<in> set ys. length x \<le> 2 ^ 29" "p' \<le> length (querybuf ?c2)" using Cons.prems(1) pq(2) by simp_all
      ultimately obtain d pos' zs us where d: "mbulk_loop cfg p' ?c2 = (d, pos', True)" "pos' \<le> length (querybuf d)" "ys = zs @ us" "argv d = argv ?c2 @ zs" "parsed ?c2 d" "room_ok pos' d"
        "args_exp d us more0 (drop pos' (querybuf d) @ rest)" "us \<noteq> [] \<longrightarrow> rest \<noteq> [] \<and> short_buf d (length (querybuf d) - pos')"
        using Cons.IH [of p' ?c2] by blast
      show ?thesis using d pq(1) by (intro exI [of _ d] exI [of _ pos'] exI [of _ "x # zs"] exI [of _ us]) (simp add: parsed_def)
    qed
  qed
qed

lemma mbulk_args_spec:
  assumes "\<forall>x \<in> set xs. length x \<le> 2 ^ 29" "pos \<le> length (querybuf c)" "room_ok pos c" "args_exp c xs more0 (drop pos (querybuf c) @ rest)"
  shows "\<exists>d zs ys. mbulk_args cfg pos c = (d, ys = []) \<and> xs = zs @ ys \<and> argv d = argv c @ zs \<and> parsed c d \<and> (ys = [] \<longrightarrow> length (querybuf d) \<le> PROTO_INLINE_MAX_SIZE) \<and>
       args_exp d ys more0 (querybuf d @ rest) \<and> (ys \<noteq> [] \<longrightarrow> rest \<noteq> [] \<and> short_buf d (length (querybuf d)))"
proof -
  obtain d pos' zs ys where d: "mbulk_loop cfg pos c = (d, pos', True)" "pos' \<le> length (querybuf d)" "xs = zs @ ys" "argv d = argv c @ zs" "parsed c d" "room_ok pos' d"
    "args_exp d ys more0 (drop pos' (querybuf d) @ rest)" "ys \<noteq> [] \<longrightarrow> rest \<noteq> [] \<and> short_buf d (length (querybuf d) - pos')"
    using mbulk_loop_spec [OF assms, of cfg] by blast
  let ?e = "d\<lparr>querybuf := drop pos' (querybuf d)\<rparr>"
  have e: "mbulk_args cfg pos c = (?e, multibulklen d = 0)" using d(1) by (simp add: mbulk_args_def Let_def)
  have "multibulklen d = 0 \<longleftrightarrow> ys = []" using d(7) by (simp add: args_exp_def)
  moreover have "ys = [] \<longrightarrow> length (querybuf ?e) \<le> PROTO_INLINE_MAX_SIZE" using d(6,7) by (auto simp: room_ok_def args_exp_def)
  moreover have "args_exp ?e ys more0 (querybuf ?e @ rest)" using d(7) by (simp add: args_exp_def)
  moreover have "short_buf ?e (length (querybuf ?e)) = short_buf d (length (querybuf d) - pos')" by (simp add: short_buf_def)
  ultimately show ?thesis using e d by (intro exI [of _ ?e] exI [of _ zs] exI [of _ ys]) (simp add: parsed_def)
qed

section \<open>Whole requests\<close>

text \<open>What a client is in the middle of, when the requests \<open>cmds\<close> are still to be executed and \<open>s\<close> is to be read.\<close>

definition expects :: "client \<Rightarrow> byte list list list \<Rightarrow> byte list \<Rightarrow> bool" where
  "expects c cmds s \<longleftrightarrow>
     (multibulklen c = 0 \<and> argv c = [] \<and> bulklen c = - 1 \<and> (reqtype c = 0 \<or> reqtype c = PROTO_REQ_MULTIBULK) \<and> s = stream cmds) \<or>
     (\<exists>xs cmds'. reqtype c = PROTO_REQ_MULTIBULK \<and> xs \<noteq> [] \<and> cmds = (argv c @ xs) # cmds' \<and> args_exp c xs (stream cmds') s)"

lemma stream_Cons: "stream (xs # cmds) = 42 # dec (length xs) @ 13 # 10 # concat (map bulk xs) @ stream cmds"
  by (simp add: stream_def cmd_enc_def)

lemma processMultibulkBuffer_spec:
  assumes ex: "expects c cmds (querybuf c @ rest)" and rt: "reqtype c = PROTO_REQ_MULTIBULK" and ne: "querybuf c \<noteq> []"
    and ok: "\<forall>xs \<in> set cmds. cmd_ok xs" and room: "room_ok 0 c"
  shows "\<exists>d cmds' xs. processMultibulkBuffer cfg c = Some (d, True) \<and> cmds = xs # cmds' \<and> argv d = xs \<and> querybuf d @ rest = stream cmds' \<and> length (querybuf d) \<le> PROTO_INLINE_MAX_SIZE \<and> parsed c d \<or>
     processMultibulkBuffer cfg c = Some (d, False) \<and> expects d cmds (querybuf d @ rest) \<and> rest \<noteq> [] \<and> short_buf d (length (querybuf d)) \<and> parsed c d"
    (is "\<exists>d cmds' xs. ?R d cmds' xs")
proof -
  have fin: "\<exists>d cmds' xs. (Some (mbulk_args cfg pos e) = Some (d, True) \<and> cmds = xs # cmds' \<and> argv d = xs \<and> querybuf d @ rest = stream cmds' \<and> length (querybuf d) \<le> PROTO_INLINE_MAX_SIZE \<and> parsed c d) \<or>
     (Some (mbulk_args cfg pos e) = Some (d, False) \<and> expects d cmds (querybuf d @ rest) \<and> rest \<noteq> [] \<and> short_buf d (length (querybuf d)) \<and> parsed c d)"
    if e: "cmds = (argv e @ xs) # cs" "xs \<noteq> []" "args_exp e xs (stream cs) (drop pos (querybuf e) @ rest)" "pos \<le> length (querybuf e)" "room_ok pos e" "parsed c e" for e pos xs cs
  proof -
    have "\<forall>x \<in> set xs. length x \<le> 2 ^ 29" using ok e(1) by (auto simp: cmd_ok_def)
    from mbulk_args_spec [OF this e(4,5,3), of cfg] obtain d zs ys where
      d: "mbulk_args cfg pos e = (d, ys = [])" "xs = zs @ ys" "argv d = argv e @ zs" "parsed e d" "args_exp d ys (stream cs) (querybuf d @ rest)"
        "ys = [] \<longrightarrow> length (querybuf d) \<le> PROTO_INLINE_MAX_SIZE"
        "ys \<noteq> [] \<longrightarrow> rest \<noteq> [] \<and> short_buf d (length (querybuf d))" by blast
    have p: "parsed c d" using e(6) d(4) by (simp add: parsed_def)
    show ?thesis
    proof (cases "ys = []")
      case True
      then have "querybuf d @ rest = stream cs" using d(5) by (auto simp: args_exp_def)
      then show ?thesis using True d p e(1) by auto
    next
      case False
      have "expects d cmds (querybuf d @ rest)"
        unfolding expects_def using False d e(1) p rt by (auto simp: parsed_def)
      then show ?thesis using False d p by auto
    qed
  qed
  show ?thesis
  proof (cases "multibulklen c = 0")
    case F: False
    then obtain xs cs where x: "xs \<noteq> []" "cmds = (argv c @ xs) # cs" "args_exp c xs (stream cs) (querybuf c @ rest)" using ex by (auto simp: expects_def)
    have "multibulklen c > 0" using x by (simp add: args_exp_def)
    then show ?thesis using fin [of c xs cs 0] x room by (simp add: processMultibulkBuffer_def parsed_def)
  next
    case True
    have idle: "argv c = []" "bulklen c = - 1" "querybuf c @ rest = stream cmds"
      using ex True by (auto simp: expects_def args_exp_def)
    obtain xs cs where cm: "cmds = xs # cs" using idle(3) ne by (cases cmds) (auto simp: stream_def)
    have xo: "xs \<noteq> []" "length xs \<le> 2 ^ 20" using ok cm by (auto simp: cmd_ok_def)
    let ?qb = "querybuf c" let ?d = "dec (length xs)" let ?k = "length ?d + 1"
    have e: "?qb @ rest = (42 # ?d) @ 13 # 10 # concat (map bulk xs) @ stream cs" using idle(3) cm by (simp add: stream_Cons)
    have sc: "strchr ?qb 13 = (if ?k < length ?qb then Some ?k else None)" using strchr_prefix [OF e] dec_no_ctrl [of "length xs"] by simp
    have lq: "length ?qb \<le> PROTO_INLINE_MAX_SIZE" using room idle(2) by (simp add: room_ok_def)
    show ?thesis
    proof (cases "length ?qb < ?k + 2")
      case short: True
      have "processMultibulkBuffer cfg c = Some (c, False)"
      proof (cases "?k < length ?qb")
        case T: True
        then have "int ?k > int (length ?qb) - 2" using short by linarith
        then show ?thesis using T sc True idle(1) by (simp add: processMultibulkBuffer_def)
      next
        case F: False then show ?thesis using sc True idle(1) lq by (simp add: processMultibulkBuffer_def)
      qed
      moreover have "rest \<noteq> []" using short arg_cong [OF e, of length] by auto
      moreover have "short_buf c (length ?qb)"
      proof -
        have "length ?d \<le> 9" using length_dec_bound [of "length xs"] xo(2) by simp
        then show ?thesis using short idle(2) by (simp add: short_buf_def)
      qed
      ultimately show ?thesis using ex by (auto simp: parsed_def)
    next
      case long: False
      then have nl: "?k < length ?qb" "\<not> int ?k > int (length ?qb) - 2" by linarith+
      have tk: "take (?k + 2) ?qb = 42 # ?d @ crlf"
      proof -
        have "take (?k + 2) ?qb = take (?k + 2) (?qb @ rest)" using long by simp
        also have "\<dots> = 42 # ?d @ crlf" unfolding e by simp
        finally show ?thesis .
      qed
      have split: "?qb = (42 # ?d @ crlf) @ drop (?k + 2) ?qb" using append_take_drop_id [of "?k + 2" ?qb] unfolding tk by simp
      have h: "?qb ! 0 = 42" by (subst split) simp
      have t: "take (?k - 1) (drop 1 ?qb) = ?d" by (subst split) simp
      have rs: "drop (?k + 2) ?qb @ rest = concat (map bulk xs) @ stream cs"
      proof -
        have "((42 # ?d @ crlf) @ drop (?k + 2) ?qb) @ rest = (42 # ?d @ crlf) @ concat (map bulk xs) @ stream cs" using e split by simp
        then show ?thesis by simp
      qed
      have s: "string2ll ?d = Some (of_nat (length xs))" "sint (of_nat (length xs) :: s64) = int (length xs)" using string2ll_dec [of "length xs"] xo(2) by auto
      let ?e = "c\<lparr>multibulklen := int (length xs), argv := []\<rparr>"
      have pm: "processMultibulkBuffer cfg c = Some (mbulk_args cfg (?k + 2) ?e)"
        using True idle(1) sc nl h t s xo by (simp add: processMultibulkBuffer_def del: of_nat_add)
      have "args_exp ?e xs (stream cs) (drop (?k + 2) (querybuf ?e) @ rest)" using rs idle(2) by (simp add: args_exp_def)
      moreover have "room_ok (?k + 2) ?e" using lq by (simp add: room_ok_def)
      moreover have "?k + 2 \<le> length (querybuf ?e)" "parsed c ?e" "cmds = (argv ?e @ xs) # cs" using long cm by (simp_all add: parsed_def)
      ultimately show ?thesis using fin [of ?e xs cs "?k + 2"] xo(1) unfolding pm by blast
    qed
  qed
qed

section \<open>The input loop\<close>

definition running :: "client \<Rightarrow> bool" where
  "running c \<longleftrightarrow> CLIENT_BLOCKED \<notin> flags c \<and> CLIENT_CLOSE_AFTER_REPLY \<notin> flags c \<and> CLIENT_CLOSE_ASAP \<notin> flags c"

text \<open>
  What the loop needs of the execution of commands: it logs the command it was given and leaves the input buffer alone; the client stays
  connected and is not blocked, and the clients are not paused.
\<close>

definition executor :: "('s \<Rightarrow> client \<Rightarrow> 's \<times> client \<times> bool \<times> bool) \<Rightarrow> ('s \<Rightarrow> bool) \<Rightarrow> ('s \<Rightarrow> byte list list list) \<Rightarrow> bool" where
  "executor exec paused log \<longleftrightarrow>
     (\<forall>st c. running c \<longrightarrow> \<not> paused st \<longrightarrow>
        (\<exists>st' d. exec st c = (st', d, True, True) \<and> log st' = log st @ [argv c] \<and> querybuf d = querybuf c \<and> running d \<and> \<not> paused st'))"

lemma resetClient_fields: "querybuf (resetClient c) = querybuf c" "argv (resetClient c) = []" "reqtype (resetClient c) = 0" "multibulklen (resetClient c) = 0"
    "bulklen (resetClient c) = - 1" "running (resetClient c) = running c"
  by (auto simp: resetClient_def freeClientArgv_def Let_def running_def)

lemma expects_reqtype: "expects c cmds s \<Longrightarrow> reqtype c = 0 \<Longrightarrow> expects (c\<lparr>reqtype := PROTO_REQ_MULTIBULK\<rparr>) cmds s"
  by (simp add: expects_def args_exp_def)

lemma expects_hd: "expects c cmds (querybuf c @ rest) \<Longrightarrow> reqtype c = 0 \<Longrightarrow> querybuf c \<noteq> [] \<Longrightarrow> querybuf c ! 0 = 42"
  by (cases cmds; cases "querybuf c") (auto simp: expects_def stream_Cons, simp add: stream_def)

lemma processInputBuffer_spec:
  assumes exec: "executor exec paused log"
  shows "expects c cmds (querybuf c @ rest) \<Longrightarrow> \<forall>xs \<in> set cmds. cmd_ok xs \<Longrightarrow> room_ok 0 c \<Longrightarrow> running c \<Longrightarrow> \<not> paused st \<Longrightarrow>
     \<exists>st' d done todo. processInputBuffer garb cfg exec paused st c = Some (st', d) \<and> cmds = done @ todo \<and> log st' = log st @ done \<and>
       expects d todo (querybuf d @ rest) \<and> running d \<and> \<not> paused st' \<and> (if rest = [] then todo = [] \<and> querybuf d = [] else short_buf d (length (querybuf d)))"
proof (induction cmds arbitrary: c st)
  case Nil
  have "querybuf c = []" using Nil.prems(1) by (auto simp: expects_def stream_def)
  moreover have "short_buf c 0" using Nil.prems(1) by (simp add: expects_def short_buf_def)
  ultimately show ?case using Nil.prems by (subst processInputBuffer.simps) auto
next
  case (Cons xs cmds)
  show ?case
  proof (cases "querybuf c = []")
    case True
    have "short_buf c 0" using Cons.prems(1) by (auto simp: expects_def short_buf_def args_exp_def)
    moreover have "rest \<noteq> []" 
      using Cons.prems(1) True by (cases rest) (auto simp: expects_def stream_Cons args_exp_def bulk_def neq_Nil_conv)
    ultimately show ?thesis using Cons.prems True by (subst processInputBuffer.simps) auto
  next
    case ne: False
    define c1 where "c1 = (if reqtype c = 0 then c\<lparr>reqtype := (if querybuf c ! 0 = 42 then PROTO_REQ_MULTIBULK else PROTO_REQ_INLINE)\<rparr> else c)"
    have q1: "querybuf c1 = querybuf c" "flags c1 = flags c" by (simp_all add: c1_def)
    have rt: "reqtype c1 = PROTO_REQ_MULTIBULK" using expects_hd [OF Cons.prems(1)] Cons.prems(1) ne by (auto simp: c1_def expects_def)
    have ex1: "expects c1 (xs # cmds) (querybuf c1 @ rest)"
      using expects_reqtype [OF Cons.prems(1)] expects_hd [OF Cons.prems(1)] Cons.prems(1) ne by (auto simp: c1_def)
    have rm1: "room_ok 0 c1" using Cons.prems(3) by (simp add: room_ok_def c1_def)
    have r1: "running c1" using Cons.prems(4) q1 by (simp add: running_def)
    have step: "processInputBuffer garb cfg exec paused st c = do {
          (c, ok) \<leftarrow> processMultibulkBuffer cfg c1;
          if \<not> ok then Some (st, c)
          else if argv c = [] then processInputBuffer garb cfg exec paused st (resetClient c)
          else (let (st, c, done, alive) = exec st c; c = (if done then resetClient c else c)
             in if \<not> alive then Some (st, c) else processInputBuffer garb cfg exec paused st c) }"
      using ne Cons.prems(4,5) rt unfolding running_def by (subst processInputBuffer.simps) (simp add: Let_def flip: c1_def)
    from processMultibulkBuffer_spec [OF ex1 rt _ Cons.prems(2) rm1, of cfg] ne q1(1)
    obtain d cs ys where d: "processMultibulkBuffer cfg c1 = Some (d, True) \<and> xs # cmds = ys # cs \<and> argv d = ys \<and> querybuf d @ rest = stream cs \<and> length (querybuf d) \<le> PROTO_INLINE_MAX_SIZE \<and> parsed c1 d \<or>
      processMultibulkBuffer cfg c1 = Some (d, False) \<and> expects d (xs # cmds) (querybuf d @ rest) \<and> rest \<noteq> [] \<and> short_buf d (length (querybuf d)) \<and> parsed c1 d" by auto
    then show ?thesis
    proof (elim disjE conjE)
      assume a: "processMultibulkBuffer cfg c1 = Some (d, False)" "expects d (xs # cmds) (querybuf d @ rest)" "rest \<noteq> []" "short_buf d (length (querybuf d))" "parsed c1 d"
      have "running d" using r1 a(5) by (simp add: running_def parsed_def)
      then show ?thesis using step a Cons.prems(5) by (intro exI [of _ st] exI [of _ d] exI [of _ "[]"] exI [of _ "xs # cmds"]) simp
    next
      assume a: "processMultibulkBuffer cfg c1 = Some (d, True)" "xs # cmds = ys # cs" "argv d = ys" "querybuf d @ rest = stream cs" "length (querybuf d) \<le> PROTO_INLINE_MAX_SIZE" "parsed c1 d"
      have rd: "running d" using r1 a(6) by (simp add: running_def parsed_def)
      obtain st' e where e: "exec st d = (st', e, True, True)" "log st' = log st @ [argv d]" "querybuf e = querybuf d" "running e" "\<not> paused st'"
        using exec rd Cons.prems(5) unfolding executor_def by blast
      have xne: "xs \<noteq> []" using Cons.prems(2) by (simp add: cmd_ok_def)
      have eq: "processInputBuffer garb cfg exec paused st c = processInputBuffer garb cfg exec paused st' (resetClient e)"
        using step a e(1) xne by simp
      have "expects (resetClient e) cmds (querybuf (resetClient e) @ rest)" using a e(3) by (simp add: expects_def resetClient_fields)
      moreover have "room_ok 0 (resetClient e)"
        using a(5) e(3) by (simp add: room_ok_def resetClient_fields)
      moreover have "running (resetClient e)" using e(4) by (simp add: resetClient_fields)
      ultimately obtain st2 f dn td where f: "processInputBuffer garb cfg exec paused st' (resetClient e) = Some (st2, f)" "cmds = dn @ td" "log st2 = log st' @ dn"
        "expects f td (querybuf f @ rest)" "running f" "\<not> paused st2" "if rest = [] then td = [] \<and> querybuf f = [] else short_buf f (length (querybuf f))"
        using Cons.IH [of "resetClient e" st'] Cons.prems(2) e(5) by auto
      show ?thesis using eq f a(2,3) e(2) by (intro exI [of _ st2] exI [of _ f] exI [of _ "xs # dn"] exI [of _ td]) simp
    qed
  qed
qed

section \<open>A connection\<close>

text \<open>
  The read handler runs once per event: the socket holds \<open>inp\<close>, and event number \<open>i\<close> finds at most \<open>Suc (ks ! i)\<close> bytes of it.
\<close>

fun serve :: "(nat \<Rightarrow> byte) \<Rightarrow> out_cfg \<Rightarrow> ('s \<Rightarrow> client \<Rightarrow> 's \<times> client \<times> bool \<times> bool) \<Rightarrow> ('s \<Rightarrow> bool) \<Rightarrow> nat \<Rightarrow> nat list \<Rightarrow> byte list \<Rightarrow> 's \<Rightarrow> client \<Rightarrow> ('s \<times> client option \<times> byte list) option" where
  "serve garb cfg exec paused limit [] inp st c = Some (st, Some c, inp)"
| "serve garb cfg exec paused limit (k # ks) inp st c =
    (if inp = [] then Some (st, Some c, inp)
     else do {
       let n = min (Suc k) (readlen c);
       (st, oc) \<leftarrow> readQueryFromClient garb cfg exec paused limit (take n inp) st c;
       case oc of None \<Rightarrow> Some (st, None, drop n inp) | Some c \<Rightarrow> serve garb cfg exec paused limit ks (drop n inp) st c })"

lemma expects_bulklen: "expects c cmds s \<Longrightarrow> \<forall>xs \<in> set cmds. cmd_ok xs \<Longrightarrow> bulklen c \<le> 2 ^ 29 \<and> (bulklen c = - 1 \<or> reqtype c = PROTO_REQ_MULTIBULK \<and> multibulklen c \<noteq> 0)"
  by (auto simp: expects_def args_exp_def cmd_ok_def)

lemma expects_querybuf: "expects (c\<lparr>querybuf := q\<rparr>) cmds s = expects c cmds s"
  by (simp add: expects_def args_exp_def)

lemma readlen_room:
  assumes "expects c cmds s" "\<forall>xs \<in> set cmds. cmd_ok xs" "short_buf c (length (querybuf c))" "length ds \<le> readlen c"
  shows "room_ok 0 (c\<lparr>querybuf := querybuf c @ ds\<rparr>)" "length (querybuf c @ ds) \<le> 2 ^ 30" "readlen c > 0"
  using expects_bulklen [OF assms(1,2)] assms(3,4) by (auto simp: room_ok_def short_buf_def readlen_def split: if_splits)

lemma serve_spec:
  assumes exec: "executor exec paused log" and lim: "2 ^ 30 \<le> limit"
  shows "expects c cmds (querybuf c @ inp) \<Longrightarrow> \<forall>xs \<in> set cmds. cmd_ok xs \<Longrightarrow> running c \<Longrightarrow> \<not> paused st \<Longrightarrow> short_buf c (length (querybuf c)) \<Longrightarrow>
    (inp = [] \<longrightarrow> cmds = [] \<and> querybuf c = []) \<Longrightarrow>
    \<exists>st' d unread done todo. serve garb cfg exec paused limit ks inp st c = Some (st', Some d, unread) \<and> cmds = done @ todo \<and> log st' = log st @ done \<and>
      unread = drop (length inp - length unread) inp \<and> length unread \<le> length inp - length ks \<and> (unread = [] \<longrightarrow> todo = [] \<and> querybuf d = [])"
proof (induction ks arbitrary: inp c st cmds)
  case Nil
  then show ?case by auto
next
  case (Cons k ks)
  show ?case
  proof (cases "inp = []")
    case True
    then show ?thesis using Cons.prems(6) by auto
  next
    case ne: False
    let ?n = "min (Suc k) (readlen c)" let ?c = "c\<lparr>querybuf := querybuf c @ take ?n inp\<rparr>"
    have ln: "length (take ?n inp) \<le> readlen c" by simp
    note room = readlen_room [OF Cons.prems(1,2,5) ln]
    have ex: "expects ?c cmds (querybuf ?c @ drop ?n inp)" using Cons.prems(1) by (simp add: expects_querybuf)
    have rn: "running ?c" using Cons.prems(3) by (simp add: running_def)
    obtain st' d dn td where p: "processInputBuffer garb cfg exec paused st ?c = Some (st', d)" "cmds = dn @ td" "log st' = log st @ dn"
      "expects d td (querybuf d @ drop ?n inp)" "running d" "\<not> paused st'" "if drop ?n inp = [] then td = [] \<and> querybuf d = [] else short_buf d (length (querybuf d))"
      using processInputBuffer_spec [OF exec ex Cons.prems(2) room(1) rn Cons.prems(4), of garb cfg] by blast
    have sb: "short_buf d (length (querybuf d))"
    proof (cases "drop ?n inp = []")
      case True
      then have "td = []" "querybuf d = []" using p(7) by (simp_all only: if_True)
      then show ?thesis using p(4) by (simp add: expects_def short_buf_def)
    next
      case False then show ?thesis using p(7) by (simp only: if_False)
    qed
    have emp: "drop ?n inp = [] \<longrightarrow> td = [] \<and> querybuf d = []" using p(7) by (metis (full_types))
    have tne: "take ?n inp \<noteq> []" using ne room(3) by simp
    have rq: "readQueryFromClient garb cfg exec paused limit (take ?n inp) st c = Some (st', Some d)"
      using tne ln room(2) lim p(1) unfolding readQueryFromClient_def by (simp add: Let_def)
    have sv: "serve garb cfg exec paused limit (k # ks) inp st c = serve garb cfg exec paused limit ks (drop ?n inp) st' d"
      using ne rq by (simp add: Let_def)
    have okt: "\<forall>xs \<in> set td. cmd_ok xs" using Cons.prems(2) p(2) by simp
    obtain st2 e u dn2 td2 where r: "serve garb cfg exec paused limit ks (drop ?n inp) st' d = Some (st2, Some e, u)" "td = dn2 @ td2" "log st2 = log st' @ dn2"
      "u = drop (length (drop ?n inp) - length u) (drop ?n inp)" "length u \<le> length (drop ?n inp) - length ks" "u = [] \<longrightarrow> td2 = [] \<and> querybuf e = []"
      using Cons.IH [OF p(4) okt p(5,6) sb emp] by blast
    have pos: "?n \<ge> 1" using room(3) by simp
    have lu: "length u \<le> length inp - length (k # ks)" using r(5) pos by simp
    have "u = drop (length inp - length u) inp"
    proof (cases "?n \<le> length inp")
      case True
      have "length inp - ?n - length u + ?n = length inp - length u \<or> u = []" using True r(5) lu by (cases u) (auto simp del: min.bounded_iff)
      then show ?thesis using r(4) by (auto simp del: min.bounded_iff)
    next
      case False then show ?thesis using r(5) by simp
    qed
    then show ?thesis using sv r p(2,3) lu by (intro exI [of _ st2] exI [of _ e] exI [of _ u] exI [of _ "dn @ dn2"] exI [of _ td2]) simp
  qed
qed


definition recorder :: "byte list list list \<Rightarrow> client \<Rightarrow> byte list list list \<times> client \<times> bool \<times> bool" where
  "recorder l c = (l @ [argv c], c, True, True)"

lemma recorder_executor: "executor recorder (\<lambda>_. False) id"
  by (simp add: executor_def recorder_def)


end
