(* ===== verification/Proto_Safety.thy ===== *)
theory Proto_Safety
  imports Proto_Spec
begin

text \<open>
  The parser on arbitrary bytes: it never fails, it ends, and it answers a malformed request with an error.
\<close>

section \<open>Any input\<close>

text \<open>Queueing a reply leaves the parser alone and clears no flag.\<close>

definition same_in :: "client \<Rightarrow> client \<Rightarrow> bool" where
  "same_in c d \<longleftrightarrow> querybuf d = querybuf c \<and> argv d = argv c \<and> multibulklen d = multibulklen c \<and> bulklen d = bulklen c \<and> reqtype d = reqtype c \<and> flags c \<subseteq> flags d"

lemma same_in_trans: "same_in c d \<Longrightarrow> same_in d e \<Longrightarrow> same_in c e"
  by (auto simp: same_in_def)

lemma async_same_in: "same_in c (asyncCloseClientOnOutputBufferLimitReached cfg c)"
  by (auto simp: asyncCloseClientOnOutputBufferLimitReached_def checkClientOutputBufferLimits_def freeClientAsync_def Let_def same_in_def split: prod.splits if_splits)

lemma glue_same_in: "same_in c (glue_or_add c s)"
  by (auto simp: glue_or_add_def same_in_def split: option.splits)

lemma addReplyString_same_in: "same_in c (addReplyString cfg c s)"
proof -
  have p: "same_in c (fst (prepareClientToWrite c))" for c by (auto simp: prepareClientToWrite_def same_in_def)
  have b: "same_in c (fst (addReplyToBuffer c s))" for c by (auto simp: addReplyToBuffer_def same_in_def Let_def)
  have l: "same_in c (addReplyStringToList cfg c s)" for c
    using same_in_trans [OF glue_same_in async_same_in] by (simp add: addReplyStringToList_def same_in_def)
  obtain d w where d: "prepareClientToWrite c = (d, w)" "same_in c d" using p [of c] by (cases "prepareClientToWrite c") simp
  obtain e ok where e: "addReplyToBuffer d s = (e, ok)" "same_in d e" using b [of d] by (cases "addReplyToBuffer d s") simp
  show ?thesis
    using d e l [of e] same_in_trans [OF d(2) e(2)] same_in_trans [OF same_in_trans [OF d(2) e(2)] l] by (simp add: addReplyString_def)
qed

lemma error_same_in: "same_in c (addReplyError cfg c e)" "same_in c (addReplyErrorFormat cfg c tx)"
proof -
  have "same_in c (addReplyErrorLength cfg c s)" for s
    unfolding addReplyErrorLength_def using addReplyString_same_in same_in_trans by blast
  then show "same_in c (addReplyError cfg c e)" "same_in c (addReplyErrorFormat cfg c tx)" by (simp_all add: addReplyError_def addReplyErrorFormat_def)
qed

lemma protocol_error_stops:
  assumes "same_in c d"
  shows "\<not> running (setProtocolError d pos)" "multibulklen (setProtocolError d pos) = multibulklen c" "querybuf (setProtocolError d pos) = drop pos (querybuf c)"
  using assms by (simp_all add: setProtocolError_def running_def same_in_def)

text \<open>The state of the parser between two reads.\<close>

definition parse_inv :: "client \<Rightarrow> bool" where
  "parse_inv c \<longleftrightarrow> multibulklen c \<ge> 0 \<and> bulklen c \<ge> - 1 \<and> reqtype c \<le> 2 \<and>
     (multibulklen c = 0 \<longrightarrow> argv c = [] \<and> (reqtype c = PROTO_REQ_MULTIBULK \<longrightarrow> querybuf c \<noteq> [] \<and> querybuf c ! 0 = 42)) \<and>
     (multibulklen c > 0 \<longrightarrow> reqtype c = PROTO_REQ_MULTIBULK)"

lemma range_spec_drop2 [simp]: "range_spec (2 + int n) (- 1) xs = drop (n + 2) xs" "range_spec (2 + (int n + int m)) (- 1) xs = drop (n + m + 2) xs"
  using range_spec_drop [of "n + 2" xs] range_spec_drop [of "n + m + 2" xs] by (simp_all add: add_ac)

lemma read_bulklen_cases:
  assumes "pos \<le> length (querybuf c)"
  shows "case read_bulklen cfg pos c of
      Wait d \<Rightarrow> d = c
    | Failed d \<Rightarrow> \<not> running d
    | Known p d \<Rightarrow> p \<le> length (querybuf d) \<and> length (querybuf d) - p < length (querybuf c) - pos \<and> bulklen d \<ge> 0 \<and> multibulklen d = multibulklen c \<and> reqtype d = reqtype c"
proof -
  have st: "\<not> running (setProtocolError (addReplyError cfg c e) p)" "\<not> running (setProtocolError (addReplyErrorFormat cfg c tx) p)" for e p tx
    using protocol_error_stops(1) error_same_in by blast+
  show ?thesis
  proof (cases "strchr (drop pos (querybuf c)) 13")
    case None then show ?thesis using st by (simp add: read_bulklen_def)
  next
    case (Some k)
    show ?thesis
    proof (cases "int (pos + k) > int (length (querybuf c)) - 2")
      case True then show ?thesis using Some by (simp add: read_bulklen_def)
    next
      case False
      then have "pos + k + 2 \<le> length (querybuf c)" by linarith
      then show ?thesis using Some False st by (auto simp: read_bulklen_def Let_def split: option.splits)
    qed
  qed
qed

definition loop_post :: "nat \<Rightarrow> client \<Rightarrow> client \<Rightarrow> nat \<Rightarrow> bool \<Rightarrow> bool" where
  "loop_post pos c d pos' go \<longleftrightarrow>
    (if go then pos' \<le> length (querybuf d) \<and> length (querybuf d) - pos' \<le> length (querybuf c) - pos \<and> multibulklen d \<ge> 0 \<and> bulklen d \<ge> - 1 \<and>
       reqtype d = reqtype c \<and> (multibulklen c > 0 \<and> multibulklen d = 0 \<longrightarrow> length (querybuf d) - pos' < length (querybuf c) - pos)
     else \<not> running d)"

lemma mbulk_loop_safe:
  "pos \<le> length (querybuf c) \<Longrightarrow> multibulklen c \<ge> 0 \<Longrightarrow> bulklen c \<ge> - 1 \<Longrightarrow>
    \<exists>d pos' go. mbulk_loop cfg pos c = (d, pos', go) \<and> loop_post pos c d pos' go"
proof (induction cfg pos c rule: mbulk_loop.induct)
  case (1 cfg pos c)
  show ?case
  proof (cases "multibulklen c = 0")
    case True
    then have "mbulk_loop cfg pos c = (c, pos, True)" by (subst mbulk_loop.simps) simp
    then show ?thesis using 1(3-5) by (auto simp: loop_post_def)
  next
    case False
    then have mp: "\<not> multibulklen c \<le> 0" using 1(4) by simp
    let ?r = "if bulklen c = - 1 then read_bulklen cfg pos c else Known pos c"
    show ?thesis
    proof (cases ?r)
      case (Wait d)
      then have "d = c" using read_bulklen_cases [OF 1(3), of cfg] by (auto split: if_splits)
      then have "mbulk_loop cfg pos c = (c, pos, True)" using mp Wait by (subst mbulk_loop.simps) simp
      then show ?thesis using mp 1(3-5) by (auto simp: loop_post_def)
    next
      case (Failed d)
      then have "\<not> running d" using read_bulklen_cases [OF 1(3), of cfg] by (auto split: if_splits)
      moreover have "mbulk_loop cfg pos c = (d, pos, False)" using mp Failed by (subst mbulk_loop.simps) simp
      ultimately show ?thesis by (auto simp: loop_post_def)
    next
      case (Known p d)
      have d: "p \<le> length (querybuf d)" "length (querybuf d) - p \<le> length (querybuf c) - pos" "bulklen d \<ge> 0" "multibulklen d = multibulklen c" "reqtype d = reqtype c"
        using read_bulklen_cases [OF 1(3), of cfg] Known 1(3-5) by (auto split: if_splits)
      let ?qb = "querybuf d" let ?len = "nat (bulklen d)"
      let ?big = "d\<lparr>argv := argv d @ [take (length ?qb - 2) ?qb], querybuf := [], bulklen := - 1, multibulklen := multibulklen c - 1\<rparr>"
      let ?arg = "d\<lparr>argv := argv d @ [take ?len (drop p ?qb)], bulklen := - 1, multibulklen := multibulklen c - 1\<rparr>"
      have un: "mbulk_loop cfg pos c = (if length ?qb - p < ?len + 2 then (d, p, True)
         else if p = 0 \<and> ?len \<ge> PROTO_MBULK_BIG_ARG \<and> length ?qb = ?len + 2 then mbulk_loop cfg 0 ?big else mbulk_loop cfg (p + ?len + 2) ?arg)"
        using mp Known by (subst mbulk_loop.simps) (simp add: Let_def)
      show ?thesis
      proof (cases "length ?qb - p < ?len + 2")
        case True then show ?thesis using un d mp by (auto simp: loop_post_def)
      next
        case room: False
        show ?thesis
        proof (cases "p = 0 \<and> ?len \<ge> PROTO_MBULK_BIG_ARG \<and> length ?qb = ?len + 2")
          case True
          have "0 \<le> length (querybuf ?big)" "multibulklen ?big \<ge> 0" "bulklen ?big \<ge> - 1" using mp by simp_all
          from 1(1) [OF mp Known refl refl room True this] obtain e q go where e: "mbulk_loop cfg 0 ?big = (e, q, go)" "loop_post 0 ?big e q go" by blast
          have m: "mbulk_loop cfg pos c = (e, q, go)" unfolding un if_not_P [OF room] if_P [OF True] by (rule e(1))
          have "loop_post pos c e q go" using e(2) d(1,2,5) room True by (cases go) (auto simp: loop_post_def)
          then show ?thesis using m by blast
        next
          case False
          have "p + ?len + 2 \<le> length (querybuf ?arg)" "multibulklen ?arg \<ge> 0" "bulklen ?arg \<ge> - 1" using mp room by simp_all
          from 1(2) [OF mp Known refl refl room False this] obtain e q go where e: "mbulk_loop cfg (p + ?len + 2) ?arg = (e, q, go)" "loop_post (p + ?len + 2) ?arg e q go" by blast
          have m: "mbulk_loop cfg pos c = (e, q, go)" unfolding un if_not_P [OF room] if_not_P [OF False] by (rule e(1))
          have "loop_post pos c e q go" using e(2) d(1,2,5) room by (cases go) (auto simp: loop_post_def)
          then show ?thesis using m by blast
        qed
      qed
    qed
  qed
qed

lemma mbulk_args_safe:
  assumes "pos \<le> length (querybuf c)" "multibulklen c > 0" "bulklen c \<ge> - 1" "reqtype c = PROTO_REQ_MULTIBULK"
  shows "\<exists>d ok. mbulk_args cfg pos c = (d, ok) \<and> (if ok then length (querybuf d) < length (querybuf c) - pos else parse_inv d \<or> \<not> running d)"
proof -
  from mbulk_loop_safe [OF assms(1) _ assms(3), of cfg] assms(2) obtain d p go where
    d: "mbulk_loop cfg pos c = (d, p, go)" "loop_post pos c d p go" by auto
  show ?thesis
  proof (cases go)
    case True
    let ?e = "d\<lparr>querybuf := drop p (querybuf d)\<rparr>"
    have "mbulk_args cfg pos c = (?e, multibulklen d = 0)" using d(1) True by (simp add: mbulk_args_def Let_def)
    then show ?thesis using d(2) True assms(2,4) by (auto simp: parse_inv_def loop_post_def)
  next
    case False then show ?thesis using d by (intro exI [of _ d] exI [of _ False]) (simp add: mbulk_args_def Let_def loop_post_def)
  qed
qed

lemma processMultibulkBuffer_safe:
  assumes "parse_inv c" "reqtype c = PROTO_REQ_MULTIBULK" "querybuf c \<noteq> []"
  shows "\<exists>d ok. processMultibulkBuffer cfg c = Some (d, ok) \<and> (if ok then length (querybuf d) < length (querybuf c) else parse_inv d \<or> \<not> running d)"
proof (cases "multibulklen c = 0")
  case False
  then have m: "multibulklen c > 0" "bulklen c \<ge> - 1" using assms by (simp_all add: parse_inv_def)
  then have "processMultibulkBuffer cfg c = Some (mbulk_args cfg 0 c)" by (simp add: processMultibulkBuffer_def)
  then show ?thesis using mbulk_args_safe [of 0 c cfg, OF _ m assms(2)] by (simp only: option.inject le0 simp_thms diff_zero)
next
  case True
  have a: "argv c = []" "querybuf c ! 0 = 42" "bulklen c \<ge> - 1" using assms True by (simp_all add: parse_inv_def)
  have st: "\<not> running (setProtocolError (addReplyError cfg c e) p)" for e p using protocol_error_stops(1) error_same_in by blast
  show ?thesis
  proof (cases "strchr (querybuf c) 13")
    case None
    then have "processMultibulkBuffer cfg c = Some (if length (querybuf c) > PROTO_INLINE_MAX_SIZE
               then setProtocolError (addReplyError cfg c ''Protocol error: too big mbulk count string'') 0 else c, False)" using True a(1) by (simp add: processMultibulkBuffer_def)
    then show ?thesis using assms(1) st by (intro exI conjI) (assumption, simp)
  next
    case (Some k)
    show ?thesis
    proof (cases "int k > int (length (querybuf c)) - 2")
      case T: True then show ?thesis using Some True a(1) assms(1) by (intro exI [of _ c] exI [of _ False]) (simp add: processMultibulkBuffer_def)
    next
      case F: False
      then have k: "k + 2 \<le> length (querybuf c)" by linarith
      show ?thesis
      proof (cases "string2ll (take (k - 1) (drop 1 (querybuf c)))")
        case None
        then have "processMultibulkBuffer cfg c = Some (setProtocolError (addReplyError cfg c ''Protocol error: invalid multibulk length'') 0, False)"
          using Some F True a by (simp add: processMultibulkBuffer_def)
        then show ?thesis using st by (intro exI conjI) (assumption, simp)
      next
        case (Some ll)
        let ?e = "c\<lparr>multibulklen := sint ll, argv := []\<rparr>"
        have un: "processMultibulkBuffer cfg c =
          (if sint ll > 1024 * 1024 then Some (setProtocolError (addReplyError cfg c ''Protocol error: invalid multibulk length'') 0, False)
           else if sint ll \<le> 0 then Some (c\<lparr>querybuf := drop (k + 2) (querybuf c)\<rparr>, True) else Some (mbulk_args cfg (k + 2) ?e))"
          using Some \<open>strchr (querybuf c) 13 = Some k\<close> F True a(1,2) by (simp add: processMultibulkBuffer_def)
        show ?thesis
        proof (cases "sint ll > 1024 * 1024 \<or> sint ll \<le> 0")
          case T: True
          then have "processMultibulkBuffer cfg c = Some (if sint ll > 1024 * 1024 then setProtocolError (addReplyError cfg c ''Protocol error: invalid multibulk length'') 0
            else c\<lparr>querybuf := drop (k + 2) (querybuf c)\<rparr>, sint ll \<le> 0)" using un by auto
          then show ?thesis using st k T by (intro exI conjI) (assumption, auto)
        next
          case G: False
          obtain d ok where d: "mbulk_args cfg (k + 2) ?e = (d, ok)" "if ok then length (querybuf d) < length (querybuf ?e) - (k + 2) else parse_inv d \<or> \<not> running d"
            using mbulk_args_safe [of "k + 2" ?e cfg] k a(3) assms(2) G by fastforce
          have "processMultibulkBuffer cfg c = Some (d, ok)" using un d(1) G by simp
          then show ?thesis by (intro exI conjI) (assumption, use d(2) in \<open>cases ok; simp\<close>)
        qed
      qed
    qed
  qed
qed

lemma strchr_less: "strchr xs ch = Some k \<Longrightarrow> k < length xs"
  by (induction xs ch arbitrary: k rule: strchr.induct) (auto split: if_splits)

lemma sdsnewlen_whole:
  assumes "n < 2 ^ 62" "n \<le> length p"
  shows "\<exists>s. sdsnewlen garb (Some p) n = Some s \<and> sbuf s = take n p @ [0]"
proof -
  obtain s where s: "sdsnewlen garb (Some p) n = Some s" "sds_ok s" "sds_str s = take n p" "sdslen s = n" using sdsnewlen_spec [of n p garb] assms by auto
  have "length (sbuf s) = n + 1"
    using s(1) by (auto simp: sdsnewlen_def Let_def bind_eq_Some_conv put_bytes_def wr_def split: if_splits)
  then have "sbuf s = take n (sbuf s) @ [sbuf s ! n]" by (metis Suc_eq_plus1 lessI order_refl take_Suc_conv_app_nth take_all)
  then show ?thesis using s by (auto simp: sds_str_def sds_ok_def)
qed

lemma processInlineBuffer_safe:
  assumes "parse_inv c" "reqtype c = PROTO_REQ_INLINE" "length (querybuf c) < 2 ^ 62"
  shows "\<exists>d ok. processInlineBuffer garb cfg c = Some (d, ok) \<and> (if ok then length (querybuf d) < length (querybuf c) else parse_inv d \<or> \<not> running d)"
proof -
  have st: "\<not> running (setProtocolError (addReplyError cfg c e) p)" for e p using protocol_error_stops(1) error_same_in by blast
  show ?thesis
  proof (cases "strchr (querybuf c) 10")
    case None
    then have "processInlineBuffer garb cfg c = Some (if length (querybuf c) > PROTO_INLINE_MAX_SIZE
               then setProtocolError (addReplyError cfg c ''Protocol error: too big inline request'') 0 else c, False)" by (simp add: processInlineBuffer_def)
    then show ?thesis using assms(1) st by (intro exI conjI) (assumption, simp)
  next
    case (Some k)
    define n where "n = (if k \<noteq> 0 \<and> querybuf c ! (k - 1) = 13 then k - 1 else k)"
    have k: "k < length (querybuf c)" by (rule strchr_less [OF Some])
    then have n: "n < length (querybuf c)" by (auto simp: n_def)
    obtain s where s: "sdsnewlen garb (Some (querybuf c @ [0])) n = Some s" "sbuf s = take n (querybuf c) @ [0]"
      using sdsnewlen_whole [of n "querybuf c @ [0]" garb] n assms(3) by auto
    obtain r where r: "sdssplitargs garb (sbuf s) = Some r" using sdssplitargs_total [of "take n (querybuf c)" garb] n assms(3) s(2) by auto
    have u: "processInlineBuffer garb cfg c = (case r of
             None \<Rightarrow> Some (setProtocolError (addReplyError cfg c ''Protocol error: unbalanced quotes in request'') 0, False)
           | Some args \<Rightarrow> Some (c\<lparr>querybuf := range_spec (int (n + 2)) (- 1) (querybuf c), argv := filter (\<lambda>a. length a \<noteq> 0) (map sds_str args)\<rparr>, True))"
      unfolding processInlineBuffer_def Some option.case Let_def n_def [symmetric] using s r by (simp split: option.split)
    show ?thesis
    proof (cases r)
      case None show ?thesis unfolding u None option.case by (intro exI conjI) (rule refl, simp add: st)
    next
      case (Some args) show ?thesis unfolding u Some option.case by (intro exI conjI) (rule refl, use n in simp)
    qed
  qed
qed

text \<open>
  What is assumed of the execution of commands: it leaves the input buffer alone, and a client that it asks not to reset is blocked or about to be
  closed.
\<close>

definition keeps_input :: "('s \<Rightarrow> client \<Rightarrow> 's \<times> client \<times> bool \<times> bool) \<Rightarrow> bool" where
  "keeps_input exec \<longleftrightarrow> (\<forall>st c st' d done alive. exec st c = (st', d, done, alive) \<longrightarrow> querybuf d = querybuf c \<and> (done \<or> \<not> running d))"

lemma processInputBuffer_stopped: "\<not> running c \<Longrightarrow> processInputBuffer garb cfg exec paused st c = Some (st, c)"
  by (subst processInputBuffer.simps) (auto simp: running_def)

lemma reset_parse_inv: "parse_inv (resetClient c)"
  by (simp add: parse_inv_def resetClient_fields)

lemma parse_inv_typed:
  "parse_inv c \<Longrightarrow> querybuf c \<noteq> [] \<Longrightarrow>
     parse_inv (if reqtype c = 0 then c\<lparr>reqtype := (if querybuf c ! 0 = 42 then PROTO_REQ_MULTIBULK else PROTO_REQ_INLINE)\<rparr> else c)"
  by (auto simp: parse_inv_def)

lemma processInputBuffer_total:
  assumes exec: "keeps_input exec"
  shows "parse_inv c \<or> \<not> running c \<Longrightarrow> length (querybuf c) < 2 ^ 62 \<Longrightarrow>
    \<exists>st' d. processInputBuffer garb cfg exec paused st c = Some (st', d) \<and> (parse_inv d \<or> \<not> running d)"
proof (induction "length (querybuf c)" arbitrary: c st rule: less_induct)
  case less
  show ?case
  proof (cases "querybuf c = [] \<or> \<not> running c \<or> (CLIENT_SLAVE \<notin> flags c \<and> paused st)")
    case True
    then have "processInputBuffer garb cfg exec paused st c = Some (st, c)" by (subst processInputBuffer.simps) (auto simp: running_def)
    then show ?thesis using less.prems by simp
  next
    case False
    then have ne: "querybuf c \<noteq> []" and r: "running c" and np: "\<not> (CLIENT_SLAVE \<notin> flags c \<and> paused st)" by simp_all
    define c1 where "c1 = (if reqtype c = 0 then c\<lparr>reqtype := (if querybuf c ! 0 = 42 then PROTO_REQ_MULTIBULK else PROTO_REQ_INLINE)\<rparr> else c)"
    have c1: "parse_inv c1" "querybuf c1 = querybuf c" "reqtype c1 = 1 \<or> reqtype c1 = 2"
      using parse_inv_typed [of c] less.prems(1) ne r by (auto simp: c1_def parse_inv_def)
    define rd where "rd = (if reqtype c1 = PROTO_REQ_INLINE then processInlineBuffer garb cfg c1 else if reqtype c1 = PROTO_REQ_MULTIBULK then processMultibulkBuffer cfg c1 else None)"
    obtain d ok where d: "rd = Some (d, ok)" "if ok then length (querybuf d) < length (querybuf c) else parse_inv d \<or> \<not> running d"
    proof (cases "reqtype c1 = PROTO_REQ_INLINE")
      case True
      then have "\<exists>d ok. rd = Some (d, ok) \<and> (if ok then length (querybuf d) < length (querybuf c) else parse_inv d \<or> \<not> running d)"
        using processInlineBuffer_safe [OF c1(1) True, of garb cfg] less.prems(2) unfolding c1(2) rd_def by simp
      then show ?thesis using that by blast
    next
      case False
      then have "reqtype c1 = PROTO_REQ_MULTIBULK" using c1(3) by simp
      then have "\<exists>d ok. rd = Some (d, ok) \<and> (if ok then length (querybuf d) < length (querybuf c) else parse_inv d \<or> \<not> running d)"
        using processMultibulkBuffer_safe [OF c1(1), of cfg] ne unfolding c1(2) rd_def by simp
      then show ?thesis using that by blast
    qed
    have step: "processInputBuffer garb cfg exec paused st c =
        (if \<not> ok then Some (st, d)
          else if argv d = [] then processInputBuffer garb cfg exec paused st (resetClient d)
          else (let (st, c, done, alive) = exec st d; c = (if done then resetClient c else c)
             in if \<not> alive then Some (st, c) else processInputBuffer garb cfg exec paused st c))"
      using ne r np d(1) unfolding running_def rd_def
      by (subst processInputBuffer.simps) (simp add: Let_def flip: c1_def, blast)
    show ?thesis
    proof (cases ok)
      case False then show ?thesis using step d(2) by simp
    next
      case True
      then have l: "length (querybuf d) < length (querybuf c)" using d(2) by simp
      show ?thesis
      proof (cases "argv d = []")
        case T: True
        then show ?thesis using step True less.hyps [of "resetClient d" st] l less.prems(2) reset_parse_inv by (simp add: resetClient_fields)
      next
        case F: False
        obtain st' e dn al where e: "exec st d = (st', e, dn, al)" by (cases "exec st d")
        let ?f = "if dn then resetClient e else e"
        have "querybuf e = querybuf d" "dn \<or> \<not> running e" using exec e unfolding keeps_input_def by blast+
        then have f: "querybuf ?f = querybuf d" "parse_inv ?f \<or> \<not> running ?f" using reset_parse_inv by (auto simp: resetClient_fields)
        have st2: "processInputBuffer garb cfg exec paused st c = (if \<not> al then Some (st', ?f) else processInputBuffer garb cfg exec paused st' ?f)"
          using step True F e by (simp add: Let_def)
        show ?thesis
        proof (cases al)
          case False then show ?thesis using st2 f(2) by simp
        next
          case True
          have "length (querybuf ?f) < length (querybuf c)" "length (querybuf ?f) < 2 ^ 62" using f(1) l less.prems(2) by simp_all
          from less.hyps [OF this(1) f(2) this(2), of st'] st2 True show ?thesis by simp
        qed
      qed
    qed
  qed
qed



section \<open>Protocol errors\<close>

lemma strchr_found: "ch \<notin> set xs \<Longrightarrow> 0 \<notin> set xs \<Longrightarrow> strchr (xs @ ch # ys) ch = Some (length xs)"
  by (induction xs) auto

text \<open>
  C12: A request that starts with an invalid count is answered with one error and executes nothing: the client is marked to be closed once the
  reply is sent, and none of its further input is looked at.
\<close>

theorem invalid_multibulk_length:
  assumes "out_ok c" "writable c" "running c" "\<not> paused st" "reqtype c = 0" "multibulklen c = 0" "argv c = []"
    and "querybuf c = 42 # num @ 13 # 10 # rest" "13 \<notin> set num" "0 \<notin> set num"
    and "case string2ll num of None \<Rightarrow> True | Some ll \<Rightarrow> sint ll > 1024 * 1024"
  shows "\<exists>d. processInputBuffer garb cfg exec paused st c = Some (st, d) \<and>
     pending d = pending c @ chars ''-ERR Protocol error: invalid multibulk length'' @ crlf \<and> CLIENT_CLOSE_AFTER_REPLY \<in> flags d \<and>
     (\<forall>st' e. flags d \<subseteq> flags e \<longrightarrow> processInputBuffer garb cfg exec paused st' e = Some (st', e))"
proof -
  let ?c = "c\<lparr>reqtype := PROTO_REQ_MULTIBULK\<rparr>"
  let ?d = "addReplyError cfg ?c ''Protocol error: invalid multibulk length''"
  let ?e = "setProtocolError ?d 0"
  have s: "strchr (querybuf c) 13 = Some (length num + 1)" using strchr_found [of 13 "42 # num" "10 # rest"] assms(8-10) by simp
  have n: "take (length num) (drop 1 (querybuf c)) = num" "querybuf c ! 0 = 42" "\<not> int (length num + 1) > int (length (querybuf c)) - 2" using assms(8) by simp_all
  have pm: "processMultibulkBuffer cfg ?c = Some (?e, False)"
    using s n assms(6,7,11) by (auto simp: processMultibulkBuffer_def split: option.splits)
  have "processInputBuffer garb cfg exec paused st c = Some (st, ?e)"
    using assms(3-5,8) pm unfolding running_def by (subst processInputBuffer.simps) (simp add: Let_def)
  moreover have "out_ok ?c" "writable ?c" "pending ?c = pending c" 
  proof -
    have "same_out c ?c" by (auto simp: same_out_def writable_def prepareClientToWrite_def clientHasPendingReplies_def)
    then show "out_ok ?c" "writable ?c" "pending ?c = pending c" using same_out_ok assms(1,2) by blast+
  qed
  then have "pending ?d = pending c @ chars ''-ERR Protocol error: invalid multibulk length'' @ crlf"
    using addReplyErrorLength_ok [of ?c "chars ''Protocol error: invalid multibulk length''" cfg] by (simp add: appended_def addReplyError_def chars_def)
  then have "pending ?e = pending c @ chars ''-ERR Protocol error: invalid multibulk length'' @ crlf" by (simp add: pending_def setProtocolError_def)
  moreover have f: "CLIENT_CLOSE_AFTER_REPLY \<in> flags ?e" by (simp add: setProtocolError_def)
  moreover have "processInputBuffer garb cfg exec paused st' e = Some (st', e)" if "flags ?e \<subseteq> flags e" for st' e
    using that f by (intro processInputBuffer_stopped) (auto simp: running_def)
  ultimately show ?thesis by blast
qed

theorem invalid_multibulk_length_witness:
  "\<exists>d. processInputBuffer (\<lambda>_. 0) default_cfg recorder (\<lambda>_. False) [] (fresh_client\<lparr>querybuf := [42, 120, 13, 10, 36]\<rparr>) = Some ([], d) \<and>
     pending d = chars ''-ERR Protocol error: invalid multibulk length'' @ crlf \<and> CLIENT_CLOSE_AFTER_REPLY \<in> flags d"
proof -
  let ?c = "fresh_client\<lparr>querybuf := [42, 120, 13, 10, 36]\<rparr>"
  have a: "out_ok ?c" "writable ?c" "pending ?c = []" "running ?c"
    by (simp_all add: fresh_client_def out_ok_def sent_ok_def pending_def writable_def prepareClientToWrite_def clientHasPendingReplies_def running_def)
  have n: "string2ll [120] = None" by (simp add: string2ll_def)
  have b: "reqtype ?c = 0" "multibulklen ?c = 0" "argv ?c = []" "querybuf ?c = 42 # [120] @ 13 # 10 # [36]" by (simp_all add: fresh_client_def)
  show ?thesis
    using invalid_multibulk_length [OF a(1,2,4) _ b, of "\<lambda>_. False" "[]" "\<lambda>_. 0" default_cfg recorder] a(3) n by auto
qed

section \<open>Inline requests\<close>

text \<open>
  C34: An inline request that ends in a bare line feed takes the byte behind it away from the next request: what is cut off the buffer is the
  line and two bytes, whatever the line ended in.
\<close>

theorem inline_newline_drops_byte:
  assumes "querybuf c = line @ 10 # b # rest" "10 \<notin> set line" "0 \<notin> set line" "line = [] \<or> last line \<noteq> 13" "length line < 2 ^ 62"
    and "sdssplitargs garb (line @ [0]) = Some (Some args)"
  shows "processInlineBuffer garb cfg c = Some (c\<lparr>querybuf := rest, argv := filter (\<lambda>a. length a \<noteq> 0) (map sds_str args)\<rparr>, True)"
proof -
  have s: "strchr (querybuf c) 10 = Some (length line)" using strchr_found [of 10 line "b # rest"] assms(1-3) by simp
  have n: "(if length line \<noteq> 0 \<and> querybuf c ! (length line - 1) = 13 then length line - 1 else length line) = length line"
    using assms(1,4) by (auto simp: nth_append last_conv_nth)
  obtain t where t: "sdsnewlen garb (Some (querybuf c @ [0])) (length line) = Some t" "sbuf t = line @ [0]"
    using sdsnewlen_whole [of "length line" "querybuf c @ [0]" garb] assms(1,5) by auto
  have "drop (length line + 2) (querybuf c) = rest" using assms(1) by simp
  then show ?thesis unfolding processInlineBuffer_def s option.case n Let_def using t assms(6) by simp
qed

theorem inline_newline_drops_byte_witness:
  "\<exists>args. sdssplitargs (\<lambda>_. 0) [0] = Some (Some args) \<and>
     processInlineBuffer (\<lambda>_. 0) default_cfg (fresh_client\<lparr>querybuf := [10, 42, 49]\<rparr>) =
       Some (fresh_client\<lparr>querybuf := [49], argv := filter (\<lambda>a. length a \<noteq> 0) (map sds_str args)\<rparr>, True)"
proof -
  have "skip_blanks [0] 0 = Some 0" by (subst skip_blanks.simps) simp
  then have "sdssplitargs (\<lambda>_. 0) ([] @ [0]) = Some (Some [])" unfolding sdssplitargs_def by (subst args_loop.simps) simp
  from inline_newline_drops_byte [OF _ _ _ _ _ this, of "fresh_client\<lparr>querybuf := [10, 42, 49]\<rparr>" 42 "[49]" default_cfg] this
  show ?thesis by simp
qed

end
