(* ===== verification/Object.thy ===== *)
theory Object
  imports Client_Output
begin

text \<open>
  object.c: string objects. An object is its value; reference counts, which only decide whether a value is copied before it is
  changed, and the access clock are left out. A \<open>long\<close> has 64 bits, so every \<open>long long\<close> is one.
\<close>

abbreviation OBJ_ENCODING_EMBSTR_SIZE_LIMIT :: nat where "OBJ_ENCODING_EMBSTR_SIZE_LIMIT \<equiv> 44"

definition createRawStringObject :: "byte list \<Rightarrow> strobj" where
  "createRawStringObject s = OBJ_ENCODING_RAW s"

definition createEmbeddedStringObject :: "byte list \<Rightarrow> strobj" where
  "createEmbeddedStringObject s = OBJ_ENCODING_EMBSTR s"

definition createStringObject :: "byte list \<Rightarrow> strobj" where
  "createStringObject s =
    (if length s \<le> OBJ_ENCODING_EMBSTR_SIZE_LIMIT then createEmbeddedStringObject s else createRawStringObject s)"

text \<open>The shared integers are integer encoded too.\<close>

definition createStringObjectFromLongLong :: "s64 \<Rightarrow> strobj" where
  "createStringObjectFromLongLong v = OBJ_ENCODING_INT v"

text \<open>On an object nobody else refers to, such as an argument of a command.\<close>

definition tryObjectEncoding :: "strobj \<Rightarrow> strobj" where
  "tryObjectEncoding ob =
    (case ob of
       OBJ_ENCODING_INT v \<Rightarrow> ob
     | _ \<Rightarrow>
         let s = getDecodedObject ob in
         case (if length s \<le> 20 then string2l s else None) of
           Some v \<Rightarrow> OBJ_ENCODING_INT v
         | None \<Rightarrow>
             if length s \<le> OBJ_ENCODING_EMBSTR_SIZE_LIMIT
             then (case ob of OBJ_ENCODING_EMBSTR _ \<Rightarrow> ob | _ \<Rightarrow> createEmbeddedStringObject s)
             else ob)"

definition stringObjectLen :: "strobj \<Rightarrow> nat" where
  "stringObjectLen ob = (case ob of OBJ_ENCODING_INT v \<Rightarrow> unat (sdigits10 v) | _ \<Rightarrow> length (getDecodedObject ob))"

text \<open>The difference of the lengths is returned as an \<open>int\<close>. \<open>memcmp\<close> up to the sign of its result; the comparison with \<open>strcoll\<close> is not modelled.\<close>

fun memcmp :: "byte list \<Rightarrow> byte list \<Rightarrow> int" where
  "memcmp (x # xs) (y # ys) = (if x = y then memcmp xs ys else if x < y then - 1 else 1)"
| "memcmp _ _ = 0"

definition compareStringObjects :: "strobj \<Rightarrow> strobj \<Rightarrow> int" where
  "compareStringObjects a b =
    (let astr = getDecodedObject a; bstr = getDecodedObject b;
         minlen = (if length astr < length bstr then length astr else length bstr);
         cmp = memcmp (take minlen astr) (take minlen bstr)
     in if cmp = 0 then sint (of_int (int (length astr) - int (length bstr)) :: 32 word) else cmp)"

definition equalStringObjects :: "strobj \<Rightarrow> strobj \<Rightarrow> bool" where
  "equalStringObjects a b =
    (case (a, b) of
       (OBJ_ENCODING_INT v, OBJ_ENCODING_INT w) \<Rightarrow> v = w
     | _ \<Rightarrow> compareStringObjects a b = 0)"

text \<open>A null pointer counts as zero.\<close>

definition getLongLongFromObject :: "strobj option \<Rightarrow> s64 option" where
  "getLongLongFromObject ob =
    (case ob of
       None \<Rightarrow> Some 0
     | Some (OBJ_ENCODING_INT v) \<Rightarrow> Some v
     | Some ob \<Rightarrow> string2ll (getDecodedObject ob))"

definition isSdsRepresentableAsLongLong :: "byte list \<Rightarrow> s64 option" where
  "isSdsRepresentableAsLongLong s = string2ll s"

definition isObjectRepresentableAsLongLong :: "strobj \<Rightarrow> s64 option" where
  "isObjectRepresentableAsLongLong ob =
    (case ob of OBJ_ENCODING_INT v \<Rightarrow> Some v | _ \<Rightarrow> isSdsRepresentableAsLongLong (getDecodedObject ob))"

section \<open>What the encodings mean\<close>

lemma string2l_string2ll: "string2l s = string2ll s"
proof -
  have r: "- (2 ^ 63) \<le> sint v" "sint v < 2 ^ 63" for v :: s64 using sint_range_size [of v] by (simp_all add: word_size)
  have "\<not> v <s LLONG_MIN" "\<not> LLONG_MAX <s v" for v :: s64 using r [of v] by (simp_all add: word_sless_alt)
  then show ?thesis by (simp add: string2l_def split: option.split)
qed

lemma tryObjectEncoding_decoded [simp]: "getDecodedObject (tryObjectEncoding ob) = getDecodedObject ob"
proof -
  have "getDecodedObject (OBJ_ENCODING_INT v) = s" if "string2ll s = Some v" for s v
    using that by (simp add: string2ll_iff ll_text_dec)
  then show ?thesis
    by (auto simp: tryObjectEncoding_def string2l_string2ll createEmbeddedStringObject_def Let_def split: strobj.split option.split if_splits)
qed

lemma createStringObject_decoded [simp]: "getDecodedObject (createStringObject s) = s"
  by (simp add: createStringObject_def createEmbeddedStringObject_def createRawStringObject_def)

lemma stringObjectLen_decoded: "stringObjectLen ob = length (getDecodedObject ob)"
  by (auto simp: stringObjectLen_def ll_text_dec sdigits10_length split: strobj.split)

lemma string2ll_dec_int [simp]: "string2ll (dec_int (sint v)) = Some v"
  by (simp add: string2ll_iff)

lemma getLongLongFromObject_decoded: "getLongLongFromObject (Some ob) = string2ll (getDecodedObject ob)"
  by (cases ob) (auto simp: getLongLongFromObject_def ll_text_dec)

lemma memcmp_eq: "length xs = length ys \<Longrightarrow> memcmp xs ys = 0 \<longleftrightarrow> xs = ys"
  by (induction xs ys rule: memcmp.induct) auto

abbreviation fits_int :: "strobj \<Rightarrow> bool" where "fits_int ob \<equiv> length (getDecodedObject ob) < 2 ^ 31"

lemma length_difference: "m < 2 ^ 31 \<Longrightarrow> n < 2 ^ 31 \<Longrightarrow> sint (of_int (int m - int n) :: 32 word) = int m - int n"
  by (subst signed_of_int) (auto simp: signed_take_bit_int_eq_self)

lemma compareStringObjects_eq: "fits_int a \<Longrightarrow> fits_int b \<Longrightarrow> compareStringObjects a b = 0 \<longleftrightarrow> getDecodedObject a = getDecodedObject b"
proof -
  assume f: "fits_int a" "fits_int b"
  let ?x = "getDecodedObject a" let ?y = "getDecodedObject b"
  let ?n = "if length ?x < length ?y then length ?x else length ?y"
  have l: "length (take ?n ?x) = length (take ?n ?y)" by simp
  show ?thesis
  proof (cases "memcmp (take ?n ?x) (take ?n ?y) = 0")
    case True
    then have e: "take ?n ?x = take ?n ?y" using memcmp_eq [OF l] by blast
    have "length ?x = length ?y \<Longrightarrow> ?x = ?y" using e by simp
    then show ?thesis using True length_difference [OF f] unfolding compareStringObjects_def Let_def by auto
  next
    case False
    then have "?x \<noteq> ?y" using memcmp_eq [OF l] by auto
    then show ?thesis using False by (simp add: compareStringObjects_def Let_def)
  qed
qed

text \<open>
  C35: Two string objects are equal exactly when they stand for the same bytes, whatever their encodings, as long as the lengths fit into an \<open>int\<close>.
\<close>

theorem equalStringObjects_bytes:
  assumes "length (getDecodedObject a) < 2 ^ 31" "length (getDecodedObject b) < 2 ^ 31"
  shows "equalStringObjects a b \<longleftrightarrow> getDecodedObject a = getDecodedObject b"
proof (cases "\<exists>v w. a = OBJ_ENCODING_INT v \<and> b = OBJ_ENCODING_INT w")
  case True
  then obtain v w where e: "a = OBJ_ENCODING_INT v" "b = OBJ_ENCODING_INT w" by blast
  have "dec_int (sint v) = dec_int (sint w) \<Longrightarrow> v = w" using string2ll_iff [of "dec_int (sint v)"] by (metis option.inject)
  then show ?thesis using e by (auto simp: equalStringObjects_def ll_text_dec)
next
  case False
  then have "equalStringObjects a b \<longleftrightarrow> compareStringObjects a b = 0" by (auto simp: equalStringObjects_def split: strobj.splits)
  then show ?thesis using compareStringObjects_eq [OF assms] by simp
qed

theorem equalStringObjects_bytes_witness:
  "equalStringObjects (OBJ_ENCODING_INT (- 12)) (OBJ_ENCODING_RAW [45, 49, 50]) \<and> \<not> equalStringObjects (OBJ_ENCODING_INT (- 12)) (OBJ_ENCODING_RAW [45, 49])"
proof -
  have "getDecodedObject (OBJ_ENCODING_INT (- 12)) = [45, 49, 50]" by (simp add: ll_text_dec dec_int_def dec.simps)
  then show ?thesis using equalStringObjects_bytes [of "OBJ_ENCODING_INT (- 12)" "OBJ_ENCODING_RAW [45, 49, 50]"]
    equalStringObjects_bytes [of "OBJ_ENCODING_INT (- 12)" "OBJ_ENCODING_RAW [45, 49]"] by simp
qed

end
