(* ===== verification/Server.thy ===== *)
theory Server
  imports Object Util "HOL-Library.AList"
begin

text \<open>
  The state of the server (server.h) as the commands see it, the command table, replies to a client of the server, and the
  streams of commands for the append only file and the slaves.

  A failed assertion or an allocation that the system refuses ends the process: it sets \<open>panicked\<close>, which nothing clears, so a final
  state with the flag off is one that was reached without either. The hash tables of a database are association lists, which the theory \<open>Dict_Map\<close>
  justifies; their iteration order is that of the list. All clients are connected to one server thread, no script and no monitor
  is running, no client waits for a list, and the server is neither in cluster mode nor has a memory limit.
\<close>

section \<open>Values and databases\<close>

text \<open>The modelled commands do not look into sets, sorted sets and hashes: a number stands for their contents.\<close>

datatype robj = OBJ_STRING strobj | OBJ_LIST "byte list list" | OBJ_SET nat | OBJ_ZSET nat | OBJ_HASH nat | OBJ_MODULE "byte list"

record redisDb =
  dict :: "(byte list \<times> robj) list"
  expires :: "(byte list \<times> int) list"
  db_watched_keys :: "(byte list \<times> nat list) list"

section \<open>The command table\<close>

datatype cmd_flag = CMD_WRITE | CMD_READONLY | CMD_DENYOOM | CMD_ADMIN | CMD_PUBSUB | CMD_NOSCRIPT | CMD_RANDOM | CMD_SORT_FOR_SCRIPT |
  CMD_LOADING | CMD_STALE | CMD_SKIP_MONITOR | CMD_ASKING | CMD_FAST

datatype cmd_proc = GetCommand | SetCommand | SetnxCommand | SetexCommand | PsetexCommand | AppendCommand | StrlenCommand | DelCommand |
  UnlinkCommand | ExistsCommand | SetrangeCommand | GetrangeCommand | IncrCommand | DecrCommand | MgetCommand | IncrbyCommand | DecrbyCommand |
  GetsetCommand | MsetCommand | MsetnxCommand | SelectCommand | SwapdbCommand | MoveCommand | RenameCommand | RenamenxCommand | ExpireCommand |
  ExpireatCommand | PexpireCommand | PexpireatCommand | KeysCommand | DbsizeCommand | AuthCommand | PingCommand | EchoCommand | TypeCommand |
  MultiCommand | ExecCommand | DiscardCommand | FlushdbCommand | FlushallCommand | TtlCommand | TouchCommand | PttlCommand | PersistCommand |
  SubscribeCommand | UnsubscribeCommand | PsubscribeCommand | PunsubscribeCommand | PublishCommand | PubsubCommand | WatchCommand | UnwatchCommand

record redisCommand =
  name :: "byte list"
  cproc :: cmd_proc
  arity :: int
  cflags :: "cmd_flag set"

definition flag_of :: "char \<Rightarrow> cmd_flag option" where
  "flag_of f =
    (if f = CHR ''w'' then Some CMD_WRITE else if f = CHR ''r'' then Some CMD_READONLY else if f = CHR ''m'' then Some CMD_DENYOOM
     else if f = CHR ''a'' then Some CMD_ADMIN else if f = CHR ''p'' then Some CMD_PUBSUB else if f = CHR ''s'' then Some CMD_NOSCRIPT
     else if f = CHR ''R'' then Some CMD_RANDOM else if f = CHR ''S'' then Some CMD_SORT_FOR_SCRIPT else if f = CHR ''l'' then Some CMD_LOADING
     else if f = CHR ''t'' then Some CMD_STALE else if f = CHR ''M'' then Some CMD_SKIP_MONITOR else if f = CHR ''k'' then Some CMD_ASKING
     else if f = CHR ''F'' then Some CMD_FAST else None)"

definition command_entry :: "string \<Rightarrow> cmd_proc \<Rightarrow> int \<Rightarrow> string \<Rightarrow> redisCommand" where
  "command_entry n p a f = \<lparr>name = chars n, cproc = p, arity = a, cflags = set (List.map_filter flag_of f)\<rparr>"

text \<open>The rows of the table whose procedures are modelled, in the order of the source.\<close>

definition redisCommandTable :: "redisCommand list" where
  "redisCommandTable = [
    command_entry ''get'' GetCommand 2 ''rF'',
    command_entry ''set'' SetCommand (- 3) ''wm'',
    command_entry ''setnx'' SetnxCommand 3 ''wmF'',
    command_entry ''setex'' SetexCommand 4 ''wm'',
    command_entry ''psetex'' PsetexCommand 4 ''wm'',
    command_entry ''append'' AppendCommand 3 ''wm'',
    command_entry ''strlen'' StrlenCommand 2 ''rF'',
    command_entry ''del'' DelCommand (- 2) ''w'',
    command_entry ''unlink'' UnlinkCommand (- 2) ''wF'',
    command_entry ''exists'' ExistsCommand (- 2) ''rF'',
    command_entry ''setrange'' SetrangeCommand 4 ''wm'',
    command_entry ''getrange'' GetrangeCommand 4 ''r'',
    command_entry ''substr'' GetrangeCommand 4 ''r'',
    command_entry ''incr'' IncrCommand 2 ''wmF'',
    command_entry ''decr'' DecrCommand 2 ''wmF'',
    command_entry ''mget'' MgetCommand (- 2) ''rF'',
    command_entry ''incrby'' IncrbyCommand 3 ''wmF'',
    command_entry ''decrby'' DecrbyCommand 3 ''wmF'',
    command_entry ''getset'' GetsetCommand 3 ''wm'',
    command_entry ''mset'' MsetCommand (- 3) ''wm'',
    command_entry ''msetnx'' MsetnxCommand (- 3) ''wm'',
    command_entry ''select'' SelectCommand 2 ''lF'',
    command_entry ''swapdb'' SwapdbCommand 3 ''wF'',
    command_entry ''move'' MoveCommand 3 ''wF'',
    command_entry ''rename'' RenameCommand 3 ''w'',
    command_entry ''renamenx'' RenamenxCommand 3 ''wF'',
    command_entry ''expire'' ExpireCommand 3 ''wF'',
    command_entry ''expireat'' ExpireatCommand 3 ''wF'',
    command_entry ''pexpire'' PexpireCommand 3 ''wF'',
    command_entry ''pexpireat'' PexpireatCommand 3 ''wF'',
    command_entry ''keys'' KeysCommand 2 ''rS'',
    command_entry ''dbsize'' DbsizeCommand 1 ''rF'',
    command_entry ''auth'' AuthCommand 2 ''sltF'',
    command_entry ''ping'' PingCommand (- 1) ''tF'',
    command_entry ''echo'' EchoCommand 2 ''F'',
    command_entry ''type'' TypeCommand 2 ''rF'',
    command_entry ''multi'' MultiCommand 1 ''sF'',
    command_entry ''exec'' ExecCommand 1 ''sM'',
    command_entry ''discard'' DiscardCommand 1 ''sF'',
    command_entry ''flushdb'' FlushdbCommand (- 1) ''w'',
    command_entry ''flushall'' FlushallCommand (- 1) ''w'',
    command_entry ''ttl'' TtlCommand 2 ''rF'',
    command_entry ''touch'' TouchCommand (- 2) ''rF'',
    command_entry ''pttl'' PttlCommand 2 ''rF'',
    command_entry ''persist'' PersistCommand 2 ''wF'',
    command_entry ''subscribe'' SubscribeCommand (- 2) ''pslt'',
    command_entry ''unsubscribe'' UnsubscribeCommand (- 1) ''pslt'',
    command_entry ''psubscribe'' PsubscribeCommand (- 2) ''pslt'',
    command_entry ''punsubscribe'' PunsubscribeCommand (- 1) ''pslt'',
    command_entry ''publish'' PublishCommand 3 ''pltF'',
    command_entry ''pubsub'' PubsubCommand (- 2) ''pltR'',
    command_entry ''watch'' WatchCommand (- 2) ''sF'',
    command_entry ''unwatch'' UnwatchCommand 1 ''sF'']"

definition lookupCommand :: "byte list \<Rightarrow> redisCommand option" where
  "lookupCommand nm = List.find (\<lambda>r. name r = map tolower_char nm) redisCommandTable"

text \<open>The comparison of a C string, which ends at its first zero byte, with a literal.\<close>

definition cstr :: "byte list \<Rightarrow> byte list" where
  "cstr s = takeWhile (\<lambda>b. b \<noteq> 0) s"

definition strcasecmp_eq :: "byte list \<Rightarrow> string \<Rightarrow> bool" where
  "strcasecmp_eq s lit \<longleftrightarrow> map tolower_char (cstr s) = map tolower_char (chars lit)"

section \<open>The server\<close>

datatype notify_class = NOTIFY_KEYSPACE | NOTIFY_KEYEVENT | NOTIFY_GENERIC | NOTIFY_STRING | NOTIFY_LIST | NOTIFY_SET | NOTIFY_HASH |
  NOTIFY_ZSET | NOTIFY_EXPIRED | NOTIFY_EVICTED

text \<open>
  \<open>clients_list\<close> are the connected clients, and \<open>clients\<close> their structures. \<open>masterhost\<close> says that the server is a slave, and \<open>write_error\<close>, \<open>few_slaves\<close>
  and \<open>stale\<close> are the conditions under which writes, or all commands, are refused because of the disk, of missing slaves, or of a broken link to the master.
  \<open>mstime\<close> is the clock, which stands still during a command, and \<open>max_alloc\<close> the biggest block the allocator grants.
\<close>

record server =
  db :: "redisDb list"
  clients :: "nat \<Rightarrow> client"
  clients_list :: "nat list"
  server_channels :: "(byte list \<times> nat list) list"
  server_patterns :: "(nat \<times> byte list) list"
  notify_keyspace_events :: "notify_class set"
  dirty :: int
  mstime :: int
  stat_keyspace_hits :: nat
  stat_keyspace_misses :: nat
  stat_expiredkeys :: nat
  stat_numcommands :: nat
  masterhost :: bool
  master :: "nat option"
  current_client :: "nat option"
  loading :: bool
  lazyfree_lazy_expire :: bool
  repl_slave_ro :: bool
  requirepass :: "byte list option"
  write_error :: "byte list option"
  few_slaves :: bool
  stale :: bool
  aof_on :: bool
  aof_stream :: "(nat \<times> byte list list) list"
  repl_stream :: "(nat \<times> byte list list) list"
  ocfg :: out_cfg
  max_alloc :: nat
  panicked :: bool

definition serverAssert :: "bool \<Rightarrow> server \<Rightarrow> server" where
  "serverAssert b s = (if b then s else s\<lparr>panicked := True\<rparr>)"

definition zmalloc_ok :: "nat \<Rightarrow> server \<Rightarrow> server" where
  "zmalloc_ok n s = serverAssert (n \<le> max_alloc s) s"

definition upd_client :: "nat \<Rightarrow> (client \<Rightarrow> client) \<Rightarrow> server \<Rightarrow> server" where
  "upd_client i f s = s\<lparr>clients := (clients s)(i := f (clients s i))\<rparr>"

definition upd_db :: "nat \<Rightarrow> (redisDb \<Rightarrow> redisDb) \<Rightarrow> server \<Rightarrow> server" where
  "upd_db d f s = s\<lparr>db := (db s)[d := f (db s ! d)]\<rparr>"

abbreviation cargs :: "server \<Rightarrow> nat \<Rightarrow> byte list list" where "cargs s i \<equiv> argv (clients s i)"
abbreviation cur_db :: "server \<Rightarrow> nat \<Rightarrow> nat" where "cur_db s i \<equiv> cdb (clients s i)"

section \<open>Replies\<close>

definition reply_obj :: "nat \<Rightarrow> strobj \<Rightarrow> server \<Rightarrow> server" where
  "reply_obj i ob s = upd_client i (\<lambda>c. addReply (ocfg s) c ob) s"

definition reply_bulk :: "nat \<Rightarrow> strobj \<Rightarrow> server \<Rightarrow> server" where
  "reply_bulk i ob s = upd_client i (\<lambda>c. addReplyBulk (ocfg s) c ob) s"

definition reply_cbuffer :: "nat \<Rightarrow> byte list \<Rightarrow> server \<Rightarrow> server" where
  "reply_cbuffer i p s = upd_client i (\<lambda>c. addReplyBulkCBuffer (ocfg s) c p) s"

definition reply_ll :: "nat \<Rightarrow> int \<Rightarrow> server \<Rightarrow> server" where
  "reply_ll i n s = upd_client i (\<lambda>c. addReplyLongLong (ocfg s) c (of_int n)) s"

definition reply_mbulk :: "nat \<Rightarrow> nat \<Rightarrow> server \<Rightarrow> server" where
  "reply_mbulk i n s = upd_client i (\<lambda>c. addReplyMultiBulkLen (ocfg s) c (of_nat n)) s"

definition reply_err :: "nat \<Rightarrow> string \<Rightarrow> server \<Rightarrow> server" where
  "reply_err i e s = upd_client i (\<lambda>c. addReplyError (ocfg s) c e) s"

definition reply_errf :: "nat \<Rightarrow> byte list \<Rightarrow> server \<Rightarrow> server" where
  "reply_errf i e s = upd_client i (\<lambda>c. addReplyErrorFormat (ocfg s) c e) s"

definition reply_status :: "nat \<Rightarrow> string \<Rightarrow> server \<Rightarrow> server" where
  "reply_status i e s = upd_client i (\<lambda>c. addReplyStatus (ocfg s) c e) s"

definition shared_txt :: "string \<Rightarrow> strobj" where
  "shared_txt t = shared (chars t @ crlf)"

abbreviation shared_ok :: strobj where "shared_ok \<equiv> shared_txt ''+OK''"
abbreviation shared_czero :: strobj where "shared_czero \<equiv> shared_txt '':0''"
abbreviation shared_cone :: strobj where "shared_cone \<equiv> shared_txt '':1''"
abbreviation shared_nullbulk :: strobj where "shared_nullbulk \<equiv> shared_txt ''$-1''"
abbreviation shared_nullmultibulk :: strobj where "shared_nullmultibulk \<equiv> shared_txt ''*-1''"
abbreviation shared_emptybulk :: strobj where "shared_emptybulk \<equiv> shared (chars ''$0'' @ crlf @ crlf)"
abbreviation shared_pong :: strobj where "shared_pong \<equiv> shared_txt ''+PONG''"
abbreviation shared_queued :: strobj where "shared_queued \<equiv> shared_txt ''+QUEUED''"
abbreviation shared_wrongtypeerr :: strobj where "shared_wrongtypeerr \<equiv> shared_txt ''-WRONGTYPE Operation against a key holding the wrong kind of value''"
abbreviation shared_nokeyerr :: strobj where "shared_nokeyerr \<equiv> shared_txt ''-ERR no such key''"
abbreviation shared_syntaxerr :: strobj where "shared_syntaxerr \<equiv> shared_txt ''-ERR syntax error''"
abbreviation shared_sameobjecterr :: strobj where "shared_sameobjecterr \<equiv> shared_txt ''-ERR source and destination objects are the same''"
abbreviation shared_outofrangeerr :: strobj where "shared_outofrangeerr \<equiv> shared_txt ''-ERR index out of range''"
abbreviation shared_loadingerr :: strobj where "shared_loadingerr \<equiv> shared_txt ''-LOADING Redis is loading the dataset in memory''"
abbreviation shared_roslaveerr :: strobj where "shared_roslaveerr \<equiv> shared (chars ''-READONLY You can'' @ 39 # chars ''t write against a read only slave.'' @ crlf)"
abbreviation shared_noautherr :: strobj where "shared_noautherr \<equiv> shared_txt ''-NOAUTH Authentication required.''"
abbreviation shared_execaborterr :: strobj where "shared_execaborterr \<equiv> shared_txt ''-EXECABORT Transaction discarded because of previous errors.''"
abbreviation shared_noreplicaserr :: strobj where "shared_noreplicaserr \<equiv> shared_txt ''-NOREPLICAS Not enough good slaves to write.''"
abbreviation shared_masterdownerr :: strobj where
  "shared_masterdownerr \<equiv> shared (chars ''-MASTERDOWN Link with MASTER is down and slave-serve-stale-data is set to '' @ 39 # chars ''no'' @ 39 # chars ''.'' @ crlf)"

text \<open>\<open>checkType\<close> returns whether the type is wrong; the types are told apart by their numbers.\<close>

fun obj_type :: "robj \<Rightarrow> nat" where
  "obj_type (OBJ_STRING _) = 0"
| "obj_type (OBJ_LIST _) = 1"
| "obj_type (OBJ_SET _) = 2"
| "obj_type (OBJ_ZSET _) = 3"
| "obj_type (OBJ_HASH _) = 4"
| "obj_type (OBJ_MODULE _) = 5"

definition checkType :: "nat \<Rightarrow> robj \<Rightarrow> nat \<Rightarrow> server \<Rightarrow> server \<times> bool" where
  "checkType i ob t s = (if obj_type ob \<noteq> t then (reply_obj i shared_wrongtypeerr s, True) else (s, False))"

definition getLongLongFromObjectOrReply :: "nat \<Rightarrow> strobj option \<Rightarrow> string option \<Rightarrow> server \<Rightarrow> server \<times> s64 option" where
  "getLongLongFromObjectOrReply i ob msg s =
    (case getLongLongFromObject ob of
       Some v \<Rightarrow> (s, Some v)
     | None \<Rightarrow> (reply_err i (case msg of Some m \<Rightarrow> m | None \<Rightarrow> ''value is not an integer or out of range'') s, None))"

definition getLongFromObjectOrReply :: "nat \<Rightarrow> strobj option \<Rightarrow> string option \<Rightarrow> server \<Rightarrow> server \<times> s64 option" where
  "getLongFromObjectOrReply i ob msg s =
    (case getLongLongFromObjectOrReply i ob msg s of
       (s, None) \<Rightarrow> (s, None)
     | (s, Some v) \<Rightarrow>
         if v <s LLONG_MIN \<or> LLONG_MAX <s v
         then (reply_err i (case msg of Some m \<Rightarrow> m | None \<Rightarrow> ''value is out of range'') s, None) else (s, Some v))"

section \<open>Propagation\<close>

text \<open>
  What is sent to the slaves and to the append only file, before it is put into the format of the two streams. A slave sends nothing on.
\<close>

definition replicationFeedSlaves :: "nat \<Rightarrow> byte list list \<Rightarrow> server \<Rightarrow> server" where
  "replicationFeedSlaves dbid av s = (if masterhost s then s else s\<lparr>repl_stream := repl_stream s @ [(dbid, av)]\<rparr>)"

definition feedAppendOnlyFile :: "nat \<Rightarrow> byte list list \<Rightarrow> server \<Rightarrow> server" where
  "feedAppendOnlyFile dbid av s = s\<lparr>aof_stream := aof_stream s @ [(dbid, av)]\<rparr>"

definition propagate :: "nat \<Rightarrow> byte list list \<Rightarrow> bool \<Rightarrow> bool \<Rightarrow> server \<Rightarrow> server" where
  "propagate dbid av to_aof to_repl s =
    (let s = (if aof_on s \<and> to_aof then feedAppendOnlyFile dbid av s else s)
     in if to_repl then replicationFeedSlaves dbid av s else s)"

definition forceCommandPropagation :: "nat \<Rightarrow> cflag set \<Rightarrow> server \<Rightarrow> server" where
  "forceCommandPropagation i fs s = upd_client i (\<lambda>c. c\<lparr>flags := flags c \<union> (fs \<inter> {CLIENT_FORCE_REPL, CLIENT_FORCE_AOF})\<rparr>) s"

definition rewriteClientCommandVector :: "nat \<Rightarrow> byte list list \<Rightarrow> server \<Rightarrow> server" where
  "rewriteClientCommandVector i av s =
    (case lookupCommand (av ! 0) of
       Some r \<Rightarrow> upd_client i (\<lambda>c. c\<lparr>argv := av, cmd := Some (name r)\<rparr>) s
     | None \<Rightarrow> serverAssert False s)"

end
