(* ===== verification/Pubsub.thy ===== *)
theory Pubsub
  imports Server
begin

text \<open>
  pubsub.c and notify.c: subscriptions to channels and patterns, publishing, and the notifications about changes in the keyspace.
\<close>

abbreviation mbulkhdr :: "nat \<Rightarrow> strobj" where "mbulkhdr n \<equiv> shared (42 # dec n @ crlf)"
abbreviation shared_bulk :: "string \<Rightarrow> strobj" where "shared_bulk t \<equiv> shared (bulk (chars t))"

section \<open>Subscriptions\<close>

definition clientSubscriptionsCount :: "client \<Rightarrow> nat" where
  "clientSubscriptionsCount c = length (pubsub_channels c) + length (pubsub_patterns c)"

definition pubsubSubscribeChannel :: "nat \<Rightarrow> byte list \<Rightarrow> server \<Rightarrow> server" where
  "pubsubSubscribeChannel i channel s =
    (let s = (if channel \<notin> set (pubsub_channels (clients s i)) then
                let s = upd_client i (\<lambda>c. c\<lparr>pubsub_channels := pubsub_channels c @ [channel]\<rparr>) s;
                    cs = (case map_of (server_channels s) channel of None \<Rightarrow> [] | Some cs \<Rightarrow> cs)
                in s\<lparr>server_channels := AList.update channel (cs @ [i]) (server_channels s)\<rparr>
              else s);
         s = reply_obj i (mbulkhdr 3) s;
         s = reply_obj i (shared_bulk ''subscribe'') s;
         s = reply_bulk i (createStringObject channel) s
     in reply_ll i (int (clientSubscriptionsCount (clients s i))) s)"

definition pubsubUnsubscribeChannel :: "nat \<Rightarrow> byte list \<Rightarrow> bool \<Rightarrow> server \<Rightarrow> server \<times> nat" where
  "pubsubUnsubscribeChannel i channel notify s =
    (let (s, retval) =
           (if channel \<in> set (pubsub_channels (clients s i)) then
              let s = upd_client i (\<lambda>c. c\<lparr>pubsub_channels := remove1 channel (pubsub_channels c)\<rparr>) s;
                  s = serverAssert (map_of (server_channels s) channel \<noteq> None) s;
                  cs = the (map_of (server_channels s) channel);
                  s = serverAssert (i \<in> set cs) s;
                  cs = remove1 i cs
              in (s\<lparr>server_channels := (if cs = [] then AList.delete channel (server_channels s)
                                         else AList.update channel cs (server_channels s))\<rparr>, 1)
            else (s, 0));
         s = (if notify then
                let s = reply_obj i (mbulkhdr 3) s;
                    s = reply_obj i (shared_bulk ''unsubscribe'') s;
                    s = reply_bulk i (createStringObject channel) s
                in reply_ll i (int (length (pubsub_channels (clients s i)) + length (pubsub_patterns (clients s i)))) s
              else s)
     in (s, retval))"

definition pubsubSubscribePattern :: "nat \<Rightarrow> byte list \<Rightarrow> server \<Rightarrow> server" where
  "pubsubSubscribePattern i pattern s =
    (let s = (if pattern \<notin> set (pubsub_patterns (clients s i)) then
                let s = upd_client i (\<lambda>c. c\<lparr>pubsub_patterns := pubsub_patterns c @ [pattern]\<rparr>) s
                in s\<lparr>server_patterns := server_patterns s @ [(i, pattern)]\<rparr>
              else s);
         s = reply_obj i (mbulkhdr 3) s;
         s = reply_obj i (shared_bulk ''psubscribe'') s;
         s = reply_bulk i (createStringObject pattern) s
     in reply_ll i (int (clientSubscriptionsCount (clients s i))) s)"

text \<open>Deleting a node that was not found would follow a null pointer.\<close>

definition pubsubUnsubscribePattern :: "nat \<Rightarrow> byte list \<Rightarrow> bool \<Rightarrow> server \<Rightarrow> server \<times> nat" where
  "pubsubUnsubscribePattern i pattern notify s =
    (let (s, retval) =
           (if pattern \<in> set (pubsub_patterns (clients s i)) then
              let s = upd_client i (\<lambda>c. c\<lparr>pubsub_patterns := remove1 pattern (pubsub_patterns c)\<rparr>) s;
                  s = serverAssert ((i, pattern) \<in> set (server_patterns s)) s
              in (s\<lparr>server_patterns := remove1 (i, pattern) (server_patterns s)\<rparr>, 1)
            else (s, 0));
         s = (if notify then
                let s = reply_obj i (mbulkhdr 3) s;
                    s = reply_obj i (shared_bulk ''punsubscribe'') s;
                    s = reply_bulk i (createStringObject pattern) s
                in reply_ll i (int (length (pubsub_channels (clients s i)) + length (pubsub_patterns (clients s i)))) s
              else s)
     in (s, retval))"

fun unsubscribe_all :: "(byte list \<Rightarrow> server \<Rightarrow> server \<times> nat) \<Rightarrow> byte list list \<Rightarrow> server \<Rightarrow> server \<times> nat" where
  "unsubscribe_all f [] s = (s, 0)"
| "unsubscribe_all f (x # xs) s = (let (s, n) = f x s; (s, m) = unsubscribe_all f xs s in (s, n + m))"

definition pubsubUnsubscribeAllChannels :: "nat \<Rightarrow> bool \<Rightarrow> server \<Rightarrow> server \<times> nat" where
  "pubsubUnsubscribeAllChannels i notify s =
    (let (s, count) = unsubscribe_all (\<lambda>ch. pubsubUnsubscribeChannel i ch notify) (pubsub_channels (clients s i)) s;
         s = (if notify \<and> count = 0 then
                let s = reply_obj i (mbulkhdr 3) s;
                    s = reply_obj i (shared_bulk ''unsubscribe'') s;
                    s = reply_obj i shared_nullbulk s
                in reply_ll i (int (length (pubsub_channels (clients s i)) + length (pubsub_patterns (clients s i)))) s
              else s)
     in (s, count))"

definition pubsubUnsubscribeAllPatterns :: "nat \<Rightarrow> bool \<Rightarrow> server \<Rightarrow> server \<times> nat" where
  "pubsubUnsubscribeAllPatterns i notify s =
    (let (s, count) = unsubscribe_all (\<lambda>p. pubsubUnsubscribePattern i p notify) (pubsub_patterns (clients s i)) s;
         s = (if notify \<and> count = 0 then
                let s = reply_obj i (mbulkhdr 3) s;
                    s = reply_obj i (shared_bulk ''punsubscribe'') s;
                    s = reply_obj i shared_nullbulk s
                in reply_ll i (int (length (pubsub_channels (clients s i)) + length (pubsub_patterns (clients s i)))) s
              else s)
     in (s, count))"

section \<open>Publishing\<close>

definition send_message :: "byte list \<Rightarrow> byte list \<Rightarrow> nat \<Rightarrow> server \<Rightarrow> server" where
  "send_message channel message i s =
    (let s = reply_obj i (mbulkhdr 3) s;
         s = reply_obj i (shared_bulk ''message'') s;
         s = reply_bulk i (createStringObject channel) s
     in reply_bulk i (createStringObject message) s)"

definition send_pmessage :: "byte list \<Rightarrow> byte list \<Rightarrow> nat \<times> byte list \<Rightarrow> server \<Rightarrow> server" where
  "send_pmessage channel message pat s =
    (let i = fst pat;
         s = reply_obj i (mbulkhdr 4) s;
         s = reply_obj i (shared_bulk ''pmessage'') s;
         s = reply_bulk i (createStringObject (snd pat)) s;
         s = reply_bulk i (createStringObject channel) s
     in reply_bulk i (createStringObject message) s)"

text \<open>The second loop; a match that reads past the end of the pattern is a crash.\<close>

fun publish_patterns :: "byte list \<Rightarrow> byte list \<Rightarrow> (nat \<times> byte list) list \<Rightarrow> server \<Rightarrow> server \<times> nat" where
  "publish_patterns channel message [] s = (s, 0)"
| "publish_patterns channel message (pat # pats) s =
    (case stringmatchlen (snd pat) channel False of
       None \<Rightarrow> (serverAssert False s, 0)
     | Some False \<Rightarrow> publish_patterns channel message pats s
     | Some True \<Rightarrow> let (s, n) = publish_patterns channel message pats (send_pmessage channel message pat s) in (s, n + 1))"

definition pubsubPublishMessage :: "byte list \<Rightarrow> byte list \<Rightarrow> server \<Rightarrow> server \<times> nat" where
  "pubsubPublishMessage channel message s =
    (let cs = (case map_of (server_channels s) channel of None \<Rightarrow> [] | Some cs \<Rightarrow> cs);
         s = fold (send_message channel message) cs s;
         (s, n) = publish_patterns channel message (server_patterns s) s
     in (s, length cs + n))"

section \<open>Commands\<close>

definition subscribeCommand :: "nat \<Rightarrow> server \<Rightarrow> server" where
  "subscribeCommand i s =
    upd_client i (\<lambda>c. c\<lparr>flags := insert CLIENT_PUBSUB (flags c)\<rparr>) (fold (pubsubSubscribeChannel i) (drop 1 (cargs s i)) s)"

definition unsubscribed :: "nat \<Rightarrow> server \<Rightarrow> server" where
  "unsubscribed i s = (if clientSubscriptionsCount (clients s i) = 0 then upd_client i (\<lambda>c. c\<lparr>flags := flags c - {CLIENT_PUBSUB}\<rparr>) s else s)"

definition unsubscribeCommand :: "nat \<Rightarrow> server \<Rightarrow> server" where
  "unsubscribeCommand i s =
    unsubscribed i
      (if length (cargs s i) = 1 then fst (pubsubUnsubscribeAllChannels i True s)
       else fold (\<lambda>ch s. fst (pubsubUnsubscribeChannel i ch True s)) (drop 1 (cargs s i)) s)"

definition psubscribeCommand :: "nat \<Rightarrow> server \<Rightarrow> server" where
  "psubscribeCommand i s =
    upd_client i (\<lambda>c. c\<lparr>flags := insert CLIENT_PUBSUB (flags c)\<rparr>) (fold (pubsubSubscribePattern i) (drop 1 (cargs s i)) s)"

definition punsubscribeCommand :: "nat \<Rightarrow> server \<Rightarrow> server" where
  "punsubscribeCommand i s =
    unsubscribed i
      (if length (cargs s i) = 1 then fst (pubsubUnsubscribeAllPatterns i True s)
       else fold (\<lambda>p s. fst (pubsubUnsubscribePattern i p True s)) (drop 1 (cargs s i)) s)"

definition publishCommand :: "nat \<Rightarrow> server \<Rightarrow> server" where
  "publishCommand i s =
    (let (s, receivers) = pubsubPublishMessage (cargs s i ! 1) (cargs s i ! 2) s;
         s = forceCommandPropagation i {CLIENT_FORCE_REPL} s
     in reply_ll i (int receivers) s)"

text \<open>The channels of PUBSUB CHANNELS, with a deferred length.\<close>

fun reply_channels :: "nat \<Rightarrow> byte list option \<Rightarrow> byte list list \<Rightarrow> server \<Rightarrow> server \<times> nat" where
  "reply_channels i pat [] s = (s, 0)"
| "reply_channels i pat (ch # chs) s =
    (case (case pat of None \<Rightarrow> Some True | Some p \<Rightarrow> stringmatchlen p ch False) of
       None \<Rightarrow> (serverAssert False s, 0)
     | Some False \<Rightarrow> reply_channels i pat chs s
     | Some True \<Rightarrow> let (s, n) = reply_channels i pat chs (reply_bulk i (createStringObject ch) s) in (s, n + 1))"

definition pubsubCommand :: "nat \<Rightarrow> server \<Rightarrow> server" where
  "pubsubCommand i s =
    (let av = cargs s i; argc = length av in
     if strcasecmp_eq (av ! 1) ''channels'' \<and> (argc = 2 \<or> argc = 3) then
       (let pat = (if argc = 2 then None else Some (av ! 2));
            (c, replylen) = addDeferredMultiBulkLength (clients s i);
            s = upd_client i (\<lambda>_. c) s;
            (s, mblen) = reply_channels i pat (map fst (server_channels s)) s
        in upd_client i (\<lambda>c. setDeferredMultiBulkLength (ocfg s) c replylen (of_nat mblen)) s)
     else if strcasecmp_eq (av ! 1) ''numsub'' \<and> argc \<ge> 2 then
       fold (\<lambda>ch s. reply_ll i (case map_of (server_channels s) ch of None \<Rightarrow> 0 | Some l \<Rightarrow> int (length l)) (reply_bulk i (createStringObject ch) s))
         (drop 2 av) (reply_mbulk i ((argc - 2) * 2) s)
     else if strcasecmp_eq (av ! 1) ''numpat'' \<and> argc = 2 then reply_ll i (int (length (server_patterns s))) s
     else reply_errf i (chars ''Unknown PUBSUB subcommand or wrong number of arguments for '' @ 39 # cstr (av ! 1) @ [39]) s)"

section \<open>Keyspace notifications\<close>

abbreviation NOTIFY_ALL :: "notify_class set" where
  "NOTIFY_ALL \<equiv> {NOTIFY_GENERIC, NOTIFY_STRING, NOTIFY_LIST, NOTIFY_SET, NOTIFY_HASH, NOTIFY_ZSET, NOTIFY_EXPIRED, NOTIFY_EVICTED}"

text \<open>The classes of a configuration string, up to its terminator; \<open>None\<close> is the result -1.\<close>

fun events_loop :: "string \<Rightarrow> notify_class set \<Rightarrow> notify_class set option" where
  "events_loop [] fs = Some fs"
| "events_loop (c # cs) fs =
    (if c = CHR ''A'' then events_loop cs (fs \<union> NOTIFY_ALL)
     else if c = CHR ''g'' then events_loop cs (insert NOTIFY_GENERIC fs)
     else if c = CHR ''$'' then events_loop cs (insert NOTIFY_STRING fs)
     else if c = CHR ''l'' then events_loop cs (insert NOTIFY_LIST fs)
     else if c = CHR ''s'' then events_loop cs (insert NOTIFY_SET fs)
     else if c = CHR ''h'' then events_loop cs (insert NOTIFY_HASH fs)
     else if c = CHR ''z'' then events_loop cs (insert NOTIFY_ZSET fs)
     else if c = CHR ''x'' then events_loop cs (insert NOTIFY_EXPIRED fs)
     else if c = CHR ''e'' then events_loop cs (insert NOTIFY_EVICTED fs)
     else if c = CHR ''K'' then events_loop cs (insert NOTIFY_KEYSPACE fs)
     else if c = CHR ''E'' then events_loop cs (insert NOTIFY_KEYEVENT fs)
     else None)"

definition keyspaceEventsStringToFlags :: "string \<Rightarrow> notify_class set option" where
  "keyspaceEventsStringToFlags classes = events_loop classes {}"

definition keyspaceEventsFlagsToString :: "notify_class set \<Rightarrow> string" where
  "keyspaceEventsFlagsToString fs =
    (if NOTIFY_ALL \<subseteq> fs then ''A''
     else
       (if NOTIFY_GENERIC \<in> fs then ''g'' else []) @ (if NOTIFY_STRING \<in> fs then ''$'' else []) @
       (if NOTIFY_LIST \<in> fs then ''l'' else []) @ (if NOTIFY_SET \<in> fs then ''s'' else []) @
       (if NOTIFY_HASH \<in> fs then ''h'' else []) @ (if NOTIFY_ZSET \<in> fs then ''z'' else []) @
       (if NOTIFY_EXPIRED \<in> fs then ''x'' else []) @ (if NOTIFY_EVICTED \<in> fs then ''e'' else [])) @
    (if NOTIFY_KEYSPACE \<in> fs then ''K'' else []) @ (if NOTIFY_KEYEVENT \<in> fs then ''E'' else [])"

definition notifyKeyspaceEvent :: "notify_class \<Rightarrow> string \<Rightarrow> byte list \<Rightarrow> nat \<Rightarrow> server \<Rightarrow> server" where
  "notifyKeyspaceEvent cls event key dbid s =
    (if cls \<notin> notify_keyspace_events s then s
     else
       let buf = dec dbid;
           s = (if NOTIFY_KEYSPACE \<in> notify_keyspace_events s
                then fst (pubsubPublishMessage (chars ''__keyspace@'' @ buf @ chars ''__:'' @ key) (chars event) s) else s)
       in if NOTIFY_KEYEVENT \<in> notify_keyspace_events s
          then fst (pubsubPublishMessage (chars ''__keyevent@'' @ buf @ chars ''__:'' @ chars event) key s) else s)"

end
