(* ===== verification/Keyspace.thy ===== *)
theory Keyspace
  imports Pubsub
begin

text \<open>
  db.c: the access of commands to the databases, expiration, and the commands on keys of any type; with the part of multi.c that
  marks the clients watching a key.
\<close>

section \<open>Watched keys\<close>

definition dirty_cas :: "nat \<Rightarrow> server \<Rightarrow> server" where
  "dirty_cas i s = upd_client i (\<lambda>c. c\<lparr>flags := insert CLIENT_DIRTY_CAS (flags c)\<rparr>) s"

definition touchWatchedKey :: "nat \<Rightarrow> byte list \<Rightarrow> server \<Rightarrow> server" where
  "touchWatchedKey d key s =
    (case map_of (db_watched_keys (db s ! d)) key of None \<Rightarrow> s | Some cs \<Rightarrow> fold dirty_cas cs s)"

text \<open>\<open>None\<close> stands for the database number -1, all databases.\<close>

definition touch_on_flush :: "nat option \<Rightarrow> nat \<Rightarrow> nat \<times> byte list \<Rightarrow> server \<Rightarrow> server" where
  "touch_on_flush dbid i wk s =
    (if (dbid = None \<or> dbid = Some (fst wk)) \<and> map_of (dict (db s ! fst wk)) (snd wk) \<noteq> None then dirty_cas i s else s)"

definition touchWatchedKeysOnFlush :: "nat option \<Rightarrow> server \<Rightarrow> server" where
  "touchWatchedKeysOnFlush dbid s =
    fold (\<lambda>i s. fold (touch_on_flush dbid i) (watched_keys (clients s i)) s) (clients_list s) s"

definition signalModifiedKey :: "nat \<Rightarrow> byte list \<Rightarrow> server \<Rightarrow> server" where
  "signalModifiedKey d key s = touchWatchedKey d key s"

definition signalFlushedDb :: "nat option \<Rightarrow> server \<Rightarrow> server" where
  "signalFlushedDb dbid s = touchWatchedKeysOnFlush dbid s"

section \<open>Expiration\<close>

definition dbSyncDelete :: "nat \<Rightarrow> byte list \<Rightarrow> server \<Rightarrow> server \<times> bool" where
  "dbSyncDelete d key s =
    (let s' = upd_db d (\<lambda>r. r\<lparr>expires := AList.delete key (expires r)\<rparr>) s
     in if map_of (dict (db s' ! d)) key \<noteq> None then (upd_db d (\<lambda>r. r\<lparr>dict := AList.delete key (dict r)\<rparr>) s', True) else (s', False))"

text \<open>\<open>dbAsyncDelete\<close> of lazyfree.c unlinks the entry in the same way and leaves the release of the value to another thread.\<close>

definition dbDelete :: "nat \<Rightarrow> byte list \<Rightarrow> server \<Rightarrow> server \<times> bool" where
  "dbDelete d key s = dbSyncDelete d key s"

definition getExpire :: "nat \<Rightarrow> byte list \<Rightarrow> server \<Rightarrow> server \<times> int" where
  "getExpire d key s =
    (case map_of (expires (db s ! d)) key of
       None \<Rightarrow> (s, - 1)
     | Some when \<Rightarrow> (serverAssert (map_of (dict (db s ! d)) key \<noteq> None) s, when))"

definition removeExpire :: "nat \<Rightarrow> byte list \<Rightarrow> server \<Rightarrow> server \<times> bool" where
  "removeExpire d key s =
    (let s = serverAssert (map_of (dict (db s ! d)) key \<noteq> None) s
     in (upd_db d (\<lambda>r. r\<lparr>expires := AList.delete key (expires r)\<rparr>) s, map_of (expires (db s ! d)) key \<noteq> None))"

text \<open>The list of keys that a writable slave expires on its own is left out.\<close>

definition setExpire :: "nat \<Rightarrow> byte list \<Rightarrow> int \<Rightarrow> server \<Rightarrow> server" where
  "setExpire d key when s =
    (let s = serverAssert (map_of (dict (db s ! d)) key \<noteq> None) s
     in upd_db d (\<lambda>r. r\<lparr>expires := AList.update key when (expires r)\<rparr>) s)"

definition propagateExpire :: "nat \<Rightarrow> byte list \<Rightarrow> bool \<Rightarrow> server \<Rightarrow> server" where
  "propagateExpire d key lazy s =
    (let av = [if lazy then chars ''UNLINK'' else chars ''DEL'', key];
         s = (if aof_on s then feedAppendOnlyFile d av s else s)
     in replicationFeedSlaves d av s)"

definition expireIfNeeded :: "nat \<Rightarrow> byte list \<Rightarrow> server \<Rightarrow> server \<times> bool" where
  "expireIfNeeded d key s =
    (let (s, when) = getExpire d key s in
     if when < 0 then (s, False)
     else if loading s then (s, False)
     else if masterhost s then (s, mstime s > when)
     else if mstime s \<le> when then (s, False)
     else
       let s = s\<lparr>stat_expiredkeys := stat_expiredkeys s + 1\<rparr>;
           s = propagateExpire d key (lazyfree_lazy_expire s) s;
           s = notifyKeyspaceEvent NOTIFY_EXPIRED ''expired'' key d s
       in dbSyncDelete d key s)"

section \<open>Looking up, adding and overwriting\<close>

definition lookupKey :: "nat \<Rightarrow> byte list \<Rightarrow> server \<Rightarrow> robj option" where
  "lookupKey d key s = map_of (dict (db s ! d)) key"

definition reads_for_client :: "server \<Rightarrow> bool" where
  "reads_for_client s =
    (case current_client s of
       None \<Rightarrow> False
     | Some j \<Rightarrow> master s \<noteq> Some j \<and>
         (case cmd (clients s j) of None \<Rightarrow> False | Some nm \<Rightarrow> (case lookupCommand nm of None \<Rightarrow> False | Some r \<Rightarrow> CMD_READONLY \<in> cflags r)))"

definition lookupKeyReadWithFlags :: "nat \<Rightarrow> byte list \<Rightarrow> server \<Rightarrow> server \<times> robj option" where
  "lookupKeyReadWithFlags d key s =
    (let (s, expired) = expireIfNeeded d key s in
     if expired \<and> (\<not> masterhost s \<or> reads_for_client s) then (s, None)
     else
       case lookupKey d key s of
         None \<Rightarrow> (s\<lparr>stat_keyspace_misses := stat_keyspace_misses s + 1\<rparr>, None)
       | Some v \<Rightarrow> (s\<lparr>stat_keyspace_hits := stat_keyspace_hits s + 1\<rparr>, Some v))"

definition lookupKeyRead :: "nat \<Rightarrow> byte list \<Rightarrow> server \<Rightarrow> server \<times> robj option" where
  "lookupKeyRead d key s = lookupKeyReadWithFlags d key s"

definition lookupKeyWrite :: "nat \<Rightarrow> byte list \<Rightarrow> server \<Rightarrow> server \<times> robj option" where
  "lookupKeyWrite d key s = (let (s, _) = expireIfNeeded d key s in (s, lookupKey d key s))"

definition lookupKeyReadOrReply :: "nat \<Rightarrow> byte list \<Rightarrow> strobj \<Rightarrow> server \<Rightarrow> server \<times> robj option" where
  "lookupKeyReadOrReply i key rep s =
    (let (s, ob) = lookupKeyRead (cur_db s i) key s in (if ob = None then reply_obj i rep s else s, ob))"

definition lookupKeyWriteOrReply :: "nat \<Rightarrow> byte list \<Rightarrow> strobj \<Rightarrow> server \<Rightarrow> server \<times> robj option" where
  "lookupKeyWriteOrReply i key rep s =
    (let (s, ob) = lookupKeyWrite (cur_db s i) key s in (if ob = None then reply_obj i rep s else s, ob))"

definition dbAdd :: "nat \<Rightarrow> byte list \<Rightarrow> robj \<Rightarrow> server \<Rightarrow> server" where
  "dbAdd d key val s =
    (let s = serverAssert (map_of (dict (db s ! d)) key = None) s in upd_db d (\<lambda>r. r\<lparr>dict := AList.update key val (dict r)\<rparr>) s)"

definition dbOverwrite :: "nat \<Rightarrow> byte list \<Rightarrow> robj \<Rightarrow> server \<Rightarrow> server" where
  "dbOverwrite d key val s =
    (let s = serverAssert (map_of (dict (db s ! d)) key \<noteq> None) s in upd_db d (\<lambda>r. r\<lparr>dict := AList.update key val (dict r)\<rparr>) s)"

definition setKey :: "nat \<Rightarrow> byte list \<Rightarrow> robj \<Rightarrow> server \<Rightarrow> server" where
  "setKey d key val s =
    (let (s, old) = lookupKeyWrite d key s;
         s = (if old = None then dbAdd d key val s else dbOverwrite d key val s);
         (s, _) = removeExpire d key s
     in signalModifiedKey d key s)"

definition dbExists :: "nat \<Rightarrow> byte list \<Rightarrow> server \<Rightarrow> bool" where
  "dbExists d key s \<longleftrightarrow> map_of (dict (db s ! d)) key \<noteq> None"

text \<open>The copy is made for every object that is not raw; a shared raw object gives an equal copy.\<close>

definition dbUnshareStringValue :: "nat \<Rightarrow> byte list \<Rightarrow> strobj \<Rightarrow> server \<Rightarrow> server \<times> strobj" where
  "dbUnshareStringValue d key ob s =
    (case ob of
       OBJ_ENCODING_RAW _ \<Rightarrow> (s, ob)
     | _ \<Rightarrow> let ob = createRawStringObject (getDecodedObject ob) in (dbOverwrite d key (OBJ_STRING ob) s, ob))"

text \<open>\<open>None\<close> stands for -1, all databases. A number out of range gives the result -1.\<close>

definition emptyDb :: "nat option \<Rightarrow> server \<Rightarrow> server \<times> int" where
  "emptyDb dbnum s =
    (case dbnum of
       None \<Rightarrow> (s\<lparr>db := map (\<lambda>r. r\<lparr>dict := [], expires := []\<rparr>) (db s)\<rparr>, int (sum_list (map (length \<circ> dict) (db s))))
     | Some d \<Rightarrow>
         if d \<ge> length (db s) then (s, - 1)
         else (upd_db d (\<lambda>r. r\<lparr>dict := [], expires := []\<rparr>) s, int (length (dict (db s ! d)))))"

definition selectDb :: "nat \<Rightarrow> int \<Rightarrow> server \<Rightarrow> server \<times> bool" where
  "selectDb i n s =
    (if n < 0 \<or> n \<ge> int (length (db s)) then (s, False) else (upd_client i (\<lambda>c. c\<lparr>cdb := nat n\<rparr>) s, True))"

section \<open>Commands on keys of any type\<close>

definition getFlushCommandFlags :: "nat \<Rightarrow> server \<Rightarrow> server \<times> bool" where
  "getFlushCommandFlags i s =
    (if length (cargs s i) > 1 \<and> (length (cargs s i) > 2 \<or> \<not> strcasecmp_eq (cargs s i ! 1) ''async'')
     then (reply_obj i shared_syntaxerr s, False) else (s, True))"

definition add_dirty :: "int \<Rightarrow> server \<Rightarrow> server" where
  "add_dirty n s = s\<lparr>dirty := dirty s + n\<rparr>"

definition flushdbCommand :: "nat \<Rightarrow> server \<Rightarrow> server" where
  "flushdbCommand i s =
    (let (s, ok) = getFlushCommandFlags i s in
     if \<not> ok then s
     else
       let s = signalFlushedDb (Some (cur_db s i)) s;
           (s, removed) = emptyDb (Some (cur_db s i)) s;
           s = add_dirty removed s
       in reply_obj i shared_ok s)"

text \<open>The RDB file, and the child that may be writing one, are left out.\<close>

definition flushallCommand :: "nat \<Rightarrow> server \<Rightarrow> server" where
  "flushallCommand i s =
    (let (s, ok) = getFlushCommandFlags i s in
     if \<not> ok then s
     else
       let s = signalFlushedDb None s;
           (s, removed) = emptyDb None s;
           s = add_dirty removed s;
           s = reply_obj i shared_ok s
       in add_dirty 1 s)"

definition del_key :: "nat \<Rightarrow> byte list \<Rightarrow> server \<times> nat \<Rightarrow> server \<times> nat" where
  "del_key i key sn =
    (let (s, numdel) = sn;
         (s, _) = expireIfNeeded (cur_db s i) key s;
         (s, deleted) = dbDelete (cur_db s i) key s
     in if deleted then
          let s = signalModifiedKey (cur_db s i) key s;
              s = notifyKeyspaceEvent NOTIFY_GENERIC ''del'' key (cur_db s i) s
          in (add_dirty 1 s, numdel + 1)
        else (s, numdel))"

definition delGenericCommand :: "nat \<Rightarrow> server \<Rightarrow> server" where
  "delGenericCommand i s =
    (let (s, numdel) = fold (del_key i) (drop 1 (cargs s i)) (s, 0) in reply_ll i (int numdel) s)"

definition exists_key :: "nat \<Rightarrow> byte list \<Rightarrow> server \<times> nat \<Rightarrow> server \<times> nat" where
  "exists_key i key sn =
    (let (s, count) = sn; (s, _) = expireIfNeeded (cur_db s i) key s
     in (s, if dbExists (cur_db s i) key s then count + 1 else count))"

definition existsCommand :: "nat \<Rightarrow> server \<Rightarrow> server" where
  "existsCommand i s = (let (s, count) = fold (exists_key i) (drop 1 (cargs s i)) (s, 0) in reply_ll i (int count) s)"

text \<open>The index is read as a \<open>long\<close> and passed as an \<open>int\<close>.\<close>

definition selectCommand :: "nat \<Rightarrow> server \<Rightarrow> server" where
  "selectCommand i s =
    (case getLongFromObjectOrReply i (Some (createStringObject (cargs s i ! 1))) (Some ''invalid DB index'') s of
       (s, None) \<Rightarrow> s
     | (s, Some n) \<Rightarrow>
         (let (s, ok) = selectDb i (sint (scast n :: 32 word)) s
          in if \<not> ok then reply_err i ''DB index is out of range'' s else reply_obj i shared_ok s))"

text \<open>The loop of KEYS over the keys an iterator returns.\<close>

fun keys_loop :: "nat \<Rightarrow> byte list \<Rightarrow> byte list list \<Rightarrow> server \<Rightarrow> server \<times> nat" where
  "keys_loop i pattern [] s = (s, 0)"
| "keys_loop i pattern (key # keys) s =
    (case (if pattern = [42] \<or> take 2 pattern = [42, 0] then Some True else stringmatchlen pattern key False) of
       None \<Rightarrow> (serverAssert False s, 0)
     | Some False \<Rightarrow> keys_loop i pattern keys s
     | Some True \<Rightarrow>
         let (s, expired) = expireIfNeeded (cur_db s i) key s in
         if \<not> expired then let (s, n) = keys_loop i pattern keys (reply_bulk i (createStringObject key) s) in (s, n + 1)
         else keys_loop i pattern keys s)"

definition keysCommand :: "nat \<Rightarrow> server \<Rightarrow> server" where
  "keysCommand i s =
    (let (c, replylen) = addDeferredMultiBulkLength (clients s i);
         s = upd_client i (\<lambda>_. c) s;
         (s, numkeys) = keys_loop i (cargs s i ! 1) (map fst (dict (db s ! cur_db s i))) s
     in upd_client i (\<lambda>c. setDeferredMultiBulkLength (ocfg s) c replylen (of_nat numkeys)) s)"

definition dbsizeCommand :: "nat \<Rightarrow> server \<Rightarrow> server" where
  "dbsizeCommand i s = reply_ll i (int (length (dict (db s ! cur_db s i)))) s"

definition typeCommand :: "nat \<Rightarrow> server \<Rightarrow> server" where
  "typeCommand i s =
    (let (s, ob) = lookupKeyReadWithFlags (cur_db s i) (cargs s i ! 1) s
     in case ob of
          None \<Rightarrow> reply_status i ''none'' s
        | Some (OBJ_STRING _) \<Rightarrow> reply_status i ''string'' s
        | Some (OBJ_LIST _) \<Rightarrow> reply_status i ''list'' s
        | Some (OBJ_SET _) \<Rightarrow> reply_status i ''set'' s
        | Some (OBJ_ZSET _) \<Rightarrow> reply_status i ''zset'' s
        | Some (OBJ_HASH _) \<Rightarrow> reply_status i ''hash'' s
        | Some (OBJ_MODULE nm) \<Rightarrow> upd_client i (\<lambda>c. addReplyStatusLength (ocfg s) c nm) s)"

definition renameGenericCommand :: "nat \<Rightarrow> bool \<Rightarrow> server \<Rightarrow> server" where
  "renameGenericCommand i nx s =
    (let d = cur_db s i; src = cargs s i ! 1; dst = cargs s i ! 2;
         (s, ob) = lookupKeyWriteOrReply i src shared_nokeyerr s
     in case ob of
          None \<Rightarrow> s
        | Some ob \<Rightarrow>
            if src = dst then reply_obj i (if nx then shared_czero else shared_ok) s
            else
              let (s, expire) = getExpire d src s;
                  (s, old) = lookupKeyWrite d dst s
              in if old \<noteq> None \<and> nx then reply_obj i shared_czero s
                 else
                   let s = (if old \<noteq> None then fst (dbDelete d dst s) else s);
                       s = dbAdd d dst ob s;
                       s = (if expire \<noteq> - 1 then setExpire d dst expire s else s);
                       (s, _) = dbDelete d src s;
                       s = signalModifiedKey d src s;
                       s = signalModifiedKey d dst s;
                       s = notifyKeyspaceEvent NOTIFY_GENERIC ''rename_from'' src d s;
                       s = notifyKeyspaceEvent NOTIFY_GENERIC ''rename_to'' dst d s;
                       s = add_dirty 1 s
                   in reply_obj i (if nx then shared_cone else shared_ok) s)"

definition moveCommand :: "nat \<Rightarrow> server \<Rightarrow> server" where
  "moveCommand i s =
    (let src = cur_db s i; key = cargs s i ! 1 in
     case getLongLongFromObject (Some (createStringObject (cargs s i ! 2))) of
       None \<Rightarrow> reply_obj i shared_outofrangeerr s
     | Some dbid \<Rightarrow>
         if sint dbid < - (2 ^ 31) \<or> sint dbid > 2 ^ 31 - 1 then reply_obj i shared_outofrangeerr s
         else
           let (s, ok) = selectDb i (sint dbid) s in
           if \<not> ok then reply_obj i shared_outofrangeerr s
           else
             let dst = cur_db s i; (s, _) = selectDb i (int src) s in
             if src = dst then reply_obj i shared_sameobjecterr s
             else
               let (s, ob) = lookupKeyWrite src key s in
               case ob of
                 None \<Rightarrow> reply_obj i shared_czero s
               | Some ob \<Rightarrow>
                   let (s, expire) = getExpire src key s; (s, old) = lookupKeyWrite dst key s in
                   if old \<noteq> None then reply_obj i shared_czero s
                   else
                     let s = dbAdd dst key ob s;
                         s = (if expire \<noteq> - 1 then setExpire dst key expire s else s);
                         (s, _) = dbDelete src key s;
                         s = add_dirty 1 s
                     in reply_obj i shared_cone s)"

text \<open>Waking the clients blocked on lists is left out.\<close>

definition dbSwapDatabases :: "int \<Rightarrow> int \<Rightarrow> server \<Rightarrow> server \<times> bool" where
  "dbSwapDatabases id1 id2 s =
    (if id1 < 0 \<or> id1 \<ge> int (length (db s)) \<or> id2 < 0 \<or> id2 \<ge> int (length (db s)) then (s, False)
     else if id1 = id2 then (s, True)
     else
       let aux = db s ! nat id1; db2 = db s ! nat id2;
           s = upd_db (nat id1) (\<lambda>r. r\<lparr>dict := dict db2, expires := expires db2\<rparr>) s
       in (upd_db (nat id2) (\<lambda>r. r\<lparr>dict := dict aux, expires := expires aux\<rparr>) s, True))"

definition swapdbCommand :: "nat \<Rightarrow> server \<Rightarrow> server" where
  "swapdbCommand i s =
    (case getLongFromObjectOrReply i (Some (createStringObject (cargs s i ! 1))) (Some ''invalid first DB index'') s of
       (s, None) \<Rightarrow> s
     | (s, Some id1) \<Rightarrow>
         (case getLongFromObjectOrReply i (Some (createStringObject (cargs s i ! 2))) (Some ''invalid second DB index'') s of
            (s, None) \<Rightarrow> s
          | (s, Some id2) \<Rightarrow>
              (let (s, ok) = dbSwapDatabases (sint (scast id1 :: 32 word)) (sint (scast id2 :: 32 word)) s
               in if \<not> ok then reply_err i ''DB index is out of range'' s else reply_obj i shared_ok (add_dirty 1 s))))"

end
