(* ===== verification/T_String.thy ===== *)
theory T_String
  imports Keyspace
begin

text \<open>
  t_string.c: the commands on string values, except INCRBYFLOAT; and the commands of expire.c. The arguments of a command stay byte lists:
  replacing an argument by its encoded form does not change its bytes.
\<close>

section \<open>SET and GET\<close>

definition checkStringLength :: "nat \<Rightarrow> int \<Rightarrow> server \<Rightarrow> server \<times> bool" where
  "checkStringLength i sz s =
    (if sz > 512 * 1024 * 1024 then (reply_err i ''string exceeds maximum allowed size (512MB)'' s, False) else (s, True))"

datatype set_flag = OBJ_SET_NX | OBJ_SET_XX | OBJ_SET_EX | OBJ_SET_PX

definition cmd_name :: "client \<Rightarrow> byte list" where
  "cmd_name c = (case cmd c of None \<Rightarrow> [] | Some nm \<Rightarrow> nm)"

text \<open>The multiplication and the addition of the expire time wrap.\<close>

definition setGenericCommand :: "nat \<Rightarrow> set_flag set \<Rightarrow> byte list \<Rightarrow> strobj \<Rightarrow> byte list option \<Rightarrow> bool \<Rightarrow> strobj \<Rightarrow> strobj \<Rightarrow> server \<Rightarrow> server" where
  "setGenericCommand i fs key val expire seconds ok_reply abort_reply s =
    (let d = cur_db s i;
         (s, ms) = (case expire of
              None \<Rightarrow> (s, Some 0)
            | Some e \<Rightarrow>
                (case getLongLongFromObjectOrReply i (Some (createStringObject e)) None s of
                   (s, None) \<Rightarrow> (s, None)
                 | (s, Some v) \<Rightarrow>
                     if sint v \<le> 0 then (reply_errf i (chars ''invalid expire time in '' @ cmd_name (clients s i)) s, None)
                     else (s, Some (if seconds then v * 1000 else v))))
     in case ms of
          None \<Rightarrow> s
        | Some ms \<Rightarrow>
            let (s, stop) = (if OBJ_SET_NX \<in> fs then (let (s, v) = lookupKeyWrite d key s in (s, v \<noteq> None)) else (s, False));
                (s, stop) = (if stop then (s, True) else if OBJ_SET_XX \<in> fs then (let (s, v) = lookupKeyWrite d key s in (s, v = None)) else (s, False))
            in if stop then reply_obj i abort_reply s
               else
                 let s = setKey d key (OBJ_STRING val) s;
                     s = add_dirty 1 s;
                     s = (if expire \<noteq> None then setExpire d key (sint (of_int (mstime s) + ms)) s else s);
                     s = notifyKeyspaceEvent NOTIFY_STRING ''set'' key d s;
                     s = (if expire \<noteq> None then notifyKeyspaceEvent NOTIFY_GENERIC ''expire'' key d s else s)
                 in reply_obj i ok_reply s)"

text \<open>A string is terminated, so the byte behind the last one is zero.\<close>

definition byte_at :: "byte list \<Rightarrow> nat \<Rightarrow> byte" where
  "byte_at s j = (if j < length s then s ! j else 0)"

definition is_opt :: "byte list \<Rightarrow> byte \<Rightarrow> byte \<Rightarrow> bool" where
  "is_opt a x y \<longleftrightarrow> (byte_at a 0 = x \<or> byte_at a 0 = x - 32) \<and> (byte_at a 1 = y \<or> byte_at a 1 = y - 32) \<and> byte_at a 2 = 0"

text \<open>The loop over the options from the fourth argument on; \<open>None\<close> is a syntax error.\<close>

fun set_options :: "byte list list \<Rightarrow> set_flag set \<Rightarrow> byte list option \<Rightarrow> bool \<Rightarrow> (set_flag set \<times> byte list option \<times> bool) option" where
  "set_options [] fs expire seconds = Some (fs, expire, seconds)"
| "set_options (a # as) fs expire seconds =
    (if is_opt a 110 120 \<and> OBJ_SET_XX \<notin> fs then set_options as (insert OBJ_SET_NX fs) expire seconds
     else if is_opt a 120 120 \<and> OBJ_SET_NX \<notin> fs then set_options as (insert OBJ_SET_XX fs) expire seconds
     else
       case as of
         [] \<Rightarrow> None
       | e # as' \<Rightarrow>
           if is_opt a 101 120 \<and> OBJ_SET_PX \<notin> fs then set_options as' (insert OBJ_SET_EX fs) (Some e) True
           else if is_opt a 112 120 \<and> OBJ_SET_EX \<notin> fs then set_options as' (insert OBJ_SET_PX fs) (Some e) False
           else None)"

definition arg_value :: "byte list \<Rightarrow> strobj" where
  "arg_value a = tryObjectEncoding (createStringObject a)"

definition setCommand :: "nat \<Rightarrow> server \<Rightarrow> server" where
  "setCommand i s =
    (let av = cargs s i in
     case set_options (drop 3 av) {} None True of
       None \<Rightarrow> reply_obj i shared_syntaxerr s
     | Some (fs, expire, seconds) \<Rightarrow> setGenericCommand i fs (av ! 1) (arg_value (av ! 2)) expire seconds shared_ok shared_nullbulk s)"

definition setnxCommand :: "nat \<Rightarrow> server \<Rightarrow> server" where
  "setnxCommand i s =
    (let av = cargs s i in setGenericCommand i {OBJ_SET_NX} (av ! 1) (arg_value (av ! 2)) None True shared_cone shared_czero s)"

definition setexCommand :: "nat \<Rightarrow> server \<Rightarrow> server" where
  "setexCommand i s =
    (let av = cargs s i in setGenericCommand i {} (av ! 1) (arg_value (av ! 3)) (Some (av ! 2)) True shared_ok shared_nullbulk s)"

definition psetexCommand :: "nat \<Rightarrow> server \<Rightarrow> server" where
  "psetexCommand i s =
    (let av = cargs s i in setGenericCommand i {} (av ! 1) (arg_value (av ! 3)) (Some (av ! 2)) False shared_ok shared_nullbulk s)"

definition getGenericCommand :: "nat \<Rightarrow> server \<Rightarrow> server \<times> bool" where
  "getGenericCommand i s =
    (let (s, ob) = lookupKeyReadOrReply i (cargs s i ! 1) shared_nullbulk s
     in case ob of
          None \<Rightarrow> (s, True)
        | Some (OBJ_STRING v) \<Rightarrow> (reply_bulk i v s, True)
        | Some _ \<Rightarrow> (reply_obj i shared_wrongtypeerr s, False))"

definition getCommand :: "nat \<Rightarrow> server \<Rightarrow> server" where
  "getCommand i s = fst (getGenericCommand i s)"

definition getsetCommand :: "nat \<Rightarrow> server \<Rightarrow> server" where
  "getsetCommand i s =
    (let (s, ok) = getGenericCommand i s in
     if \<not> ok then s
     else
       let av = cargs s i; d = cur_db s i;
           s = setKey d (av ! 1) (OBJ_STRING (arg_value (av ! 2))) s;
           s = notifyKeyspaceEvent NOTIFY_STRING ''set'' (av ! 1) d s
       in add_dirty 1 s)"

section \<open>Ranges\<close>

text \<open>
  The length of the result is a \<open>size_t\<close> sum that \<open>checkStringLength\<close> receives as a \<open>long long\<close>. Creating or growing the string
  needs a block of that size.
\<close>

definition setrange_target :: "nat \<Rightarrow> nat \<Rightarrow> byte list \<Rightarrow> byte list \<Rightarrow> s64 \<Rightarrow> server \<Rightarrow> server \<times> byte list option" where
  "setrange_target i d key value tot s =
    (let (s, ob) = lookupKeyWrite d key s in
     case ob of
       None \<Rightarrow>
         if value = [] then (reply_obj i shared_czero s, None)
         else
           let (s, ok) = checkStringLength i (sint tot) s in
           if \<not> ok then (s, None)
           else
             let s = zmalloc_ok (unat tot + 1) s; str = replicate (unat tot) 0
             in (dbAdd d key (OBJ_STRING (OBJ_ENCODING_RAW str)) s, Some str)
     | Some (OBJ_STRING ob) \<Rightarrow>
         if value = [] then (reply_ll i (int (stringObjectLen ob)) s, None)
         else
           let (s, ok) = checkStringLength i (sint tot) s in
           if \<not> ok then (s, None)
           else let (s, ob) = dbUnshareStringValue d key ob s in (s, Some (getDecodedObject ob))
     | Some _ \<Rightarrow> (reply_obj i shared_wrongtypeerr s, None))"

definition setrangeCommand :: "nat \<Rightarrow> server \<Rightarrow> server" where
  "setrangeCommand i s =
    (let av = cargs s i; d = cur_db s i; key = av ! 1; value = av ! 3 in
     case getLongFromObjectOrReply i (Some (createStringObject (av ! 2))) None s of
       (s, None) \<Rightarrow> s
     | (s, Some offset) \<Rightarrow>
         if sint offset < 0 then reply_err i ''offset is out of range'' s
         else
           let tot = offset + of_nat (length value);
               (s, str) = setrange_target i d key value tot s
           in case str of
                None \<Rightarrow> s
              | Some str \<Rightarrow>
                  let s = (if unat tot > length str then zmalloc_ok (unat tot + 1) s else s);
                      str = str @ replicate (unat tot - length str) 0;
                      str = take (unat offset) str @ value @ drop (unat tot) str;
                      s = upd_db d (\<lambda>r. r\<lparr>dict := AList.update key (OBJ_STRING (OBJ_ENCODING_RAW str)) (dict r)\<rparr>) s;
                      s = signalModifiedKey d key s;
                      s = notifyKeyspaceEvent NOTIFY_STRING ''setrange'' key d s;
                      s = add_dirty 1 s
                  in reply_ll i (int (length str)) s)"

definition getrangeCommand :: "nat \<Rightarrow> server \<Rightarrow> server" where
  "getrangeCommand i s =
    (let av = cargs s i in
     case getLongLongFromObjectOrReply i (Some (createStringObject (av ! 2))) None s of
       (s, None) \<Rightarrow> s
     | (s, Some start) \<Rightarrow>
         (case getLongLongFromObjectOrReply i (Some (createStringObject (av ! 3))) None s of
            (s, None) \<Rightarrow> s
          | (s, Some end) \<Rightarrow>
              (let (s, ob) = lookupKeyReadOrReply i (av ! 1) shared_emptybulk s in
               case ob of
                 None \<Rightarrow> s
               | Some (OBJ_STRING v) \<Rightarrow>
                   let str = getDecodedObject v; strlen = int (length str); start = sint start; end = sint end in
                   if start < 0 \<and> end < 0 \<and> start > end then reply_obj i shared_emptybulk s
                   else
                     let start = (if start < 0 then strlen + start else start);
                         end = (if end < 0 then strlen + end else end);
                         start = (if start < 0 then 0 else start);
                         end = (if end < 0 then 0 else end);
                         end = (if end \<ge> strlen then strlen - 1 else end)
                     in if start > end \<or> strlen = 0 then reply_obj i shared_emptybulk s
                        else reply_cbuffer i (take (nat (end - start + 1)) (drop (nat start) str)) s
               | Some _ \<Rightarrow> reply_obj i shared_wrongtypeerr s)))"

section \<open>Several keys\<close>

definition mget_key :: "nat \<Rightarrow> byte list \<Rightarrow> server \<Rightarrow> server" where
  "mget_key i key s =
    (let (s, ob) = lookupKeyRead (cur_db s i) key s
     in case ob of Some (OBJ_STRING v) \<Rightarrow> reply_bulk i v s | _ \<Rightarrow> reply_obj i shared_nullbulk s)"

definition mgetCommand :: "nat \<Rightarrow> server \<Rightarrow> server" where
  "mgetCommand i s = fold (mget_key i) (drop 1 (cargs s i)) (reply_mbulk i (length (cargs s i) - 1) s)"

fun pairs :: "byte list list \<Rightarrow> (byte list \<times> byte list) list" where
  "pairs (k # v # as) = (k, v) # pairs as"
| "pairs _ = []"

definition busy_key :: "nat \<Rightarrow> byte list \<times> byte list \<Rightarrow> server \<times> nat \<Rightarrow> server \<times> nat" where
  "busy_key d kv sn = (let (s, n) = sn; (s, v) = lookupKeyWrite d (fst kv) s in (s, if v \<noteq> None then n + 1 else n))"

definition mset_key :: "nat \<Rightarrow> byte list \<times> byte list \<Rightarrow> server \<Rightarrow> server" where
  "mset_key d kv s =
    notifyKeyspaceEvent NOTIFY_STRING ''set'' (fst kv) d (setKey d (fst kv) (OBJ_STRING (arg_value (snd kv))) s)"

definition msetGenericCommand :: "nat \<Rightarrow> bool \<Rightarrow> server \<Rightarrow> server" where
  "msetGenericCommand i nx s =
    (let av = cargs s i; d = cur_db s i in
     if length av mod 2 = 0 then reply_err i ''wrong number of arguments for MSET'' s
     else
       let (s, busykeys) = (if nx then fold (busy_key d) (pairs (drop 1 av)) (s, 0) else (s, 0)) in
       if busykeys \<noteq> 0 then reply_obj i shared_czero s
       else
         let s = fold (mset_key d) (pairs (drop 1 av)) s;
             s = add_dirty (int ((length av - 1) div 2)) s
         in reply_obj i (if nx then shared_cone else shared_ok) s)"

section \<open>Counters\<close>

definition incrDecrCommand :: "nat \<Rightarrow> s64 \<Rightarrow> server \<Rightarrow> server" where
  "incrDecrCommand i incr s =
    (let d = cur_db s i; key = cargs s i ! 1;
         (s, ob) = lookupKeyWrite d key s;
         (s, wrong) = (case ob of None \<Rightarrow> (s, False) | Some v \<Rightarrow> checkType i v 0 s)
     in if wrong then s
        else
          case getLongLongFromObjectOrReply i (case ob of Some (OBJ_STRING v) \<Rightarrow> Some v | _ \<Rightarrow> None) None s of
            (s, None) \<Rightarrow> s
          | (s, Some oldvalue) \<Rightarrow>
              if (sint incr < 0 \<and> sint oldvalue < 0 \<and> sint incr < sint (LLONG_MIN - oldvalue)) \<or>
                 (sint incr > 0 \<and> sint oldvalue > 0 \<and> sint incr > sint (LLONG_MAX - oldvalue))
              then reply_err i ''increment or decrement would overflow'' s
              else
                let new = createStringObjectFromLongLong (oldvalue + incr);
                    s = (if ob \<noteq> None then dbOverwrite d key (OBJ_STRING new) s else dbAdd d key (OBJ_STRING new) s);
                    s = signalModifiedKey d key s;
                    s = notifyKeyspaceEvent NOTIFY_STRING ''incrby'' key d s;
                    s = add_dirty 1 s;
                    s = reply_obj i (shared [58]) s;
                    s = reply_obj i new s
                in reply_obj i (shared crlf) s)"

definition incrCommand :: "nat \<Rightarrow> server \<Rightarrow> server" where
  "incrCommand i s = incrDecrCommand i 1 s"

definition decrCommand :: "nat \<Rightarrow> server \<Rightarrow> server" where
  "decrCommand i s = incrDecrCommand i (- 1) s"

definition incrbyCommand :: "nat \<Rightarrow> server \<Rightarrow> server" where
  "incrbyCommand i s =
    (case getLongLongFromObjectOrReply i (Some (createStringObject (cargs s i ! 2))) None s of
       (s, None) \<Rightarrow> s | (s, Some incr) \<Rightarrow> incrDecrCommand i incr s)"

definition decrbyCommand :: "nat \<Rightarrow> server \<Rightarrow> server" where
  "decrbyCommand i s =
    (case getLongLongFromObjectOrReply i (Some (createStringObject (cargs s i ! 2))) None s of
       (s, None) \<Rightarrow> s | (s, Some incr) \<Rightarrow> incrDecrCommand i (- incr) s)"

section \<open>APPEND and STRLEN\<close>

definition append_value :: "nat \<Rightarrow> nat \<Rightarrow> byte list \<Rightarrow> byte list \<Rightarrow> server \<Rightarrow> server \<times> nat option" where
  "append_value i d key value s =
    (let (s, ob) = lookupKeyWrite d key s in
     case ob of
       None \<Rightarrow> let v = arg_value value in (dbAdd d key (OBJ_STRING v) s, Some (stringObjectLen v))
     | Some (OBJ_STRING v) \<Rightarrow>
         let (s, ok) = checkStringLength i (int (stringObjectLen v + length value)) s in
         if \<not> ok then (s, None)
         else
           let (s, v) = dbUnshareStringValue d key v s; str = getDecodedObject v @ value
           in (upd_db d (\<lambda>r. r\<lparr>dict := AList.update key (OBJ_STRING (OBJ_ENCODING_RAW str)) (dict r)\<rparr>) s, Some (length str))
     | Some _ \<Rightarrow> (reply_obj i shared_wrongtypeerr s, None))"

definition appendCommand :: "nat \<Rightarrow> server \<Rightarrow> server" where
  "appendCommand i s =
    (let d = cur_db s i; key = cargs s i ! 1;
         (s, totlen) = append_value i d key (cargs s i ! 2) s
     in case totlen of
          None \<Rightarrow> s
        | Some totlen \<Rightarrow>
            let s = signalModifiedKey d key s;
                s = notifyKeyspaceEvent NOTIFY_STRING ''append'' key d s;
                s = add_dirty 1 s
            in reply_ll i (int totlen) s)"

definition strlenCommand :: "nat \<Rightarrow> server \<Rightarrow> server" where
  "strlenCommand i s =
    (let (s, ob) = lookupKeyReadOrReply i (cargs s i ! 1) shared_czero s
     in case ob of
          None \<Rightarrow> s
        | Some (OBJ_STRING v) \<Rightarrow> reply_ll i (int (stringObjectLen v)) s
        | Some _ \<Rightarrow> reply_obj i shared_wrongtypeerr s)"

section \<open>Expiration commands\<close>

definition expireGenericCommand :: "nat \<Rightarrow> int \<Rightarrow> bool \<Rightarrow> server \<Rightarrow> server" where
  "expireGenericCommand i basetime seconds s =
    (let d = cur_db s i; key = cargs s i ! 1 in
     case getLongLongFromObjectOrReply i (Some (createStringObject (cargs s i ! 2))) None s of
       (s, None) \<Rightarrow> s
     | (s, Some when) \<Rightarrow>
         let when = (if seconds then when * 1000 else when); when = sint (when + of_int basetime);
             (s, ob) = lookupKeyWrite d key s
         in if ob = None then reply_obj i shared_czero s
            else if when \<le> mstime s \<and> \<not> loading s \<and> \<not> masterhost s then
              let (s, deleted) = dbSyncDelete d key s;
                  s = serverAssert deleted s;
                  s = add_dirty 1 s;
                  s = rewriteClientCommandVector i [if lazyfree_lazy_expire s then chars ''UNLINK'' else chars ''DEL'', key] s;
                  s = signalModifiedKey d key s;
                  s = notifyKeyspaceEvent NOTIFY_GENERIC ''del'' key d s
              in reply_obj i shared_cone s
            else
              let s = setExpire d key when s;
                  s = reply_obj i shared_cone s;
                  s = signalModifiedKey d key s;
                  s = notifyKeyspaceEvent NOTIFY_GENERIC ''expire'' key d s
              in add_dirty 1 s)"

definition expireCommand :: "nat \<Rightarrow> server \<Rightarrow> server" where
  "expireCommand i s = expireGenericCommand i (mstime s) True s"

definition expireatCommand :: "nat \<Rightarrow> server \<Rightarrow> server" where
  "expireatCommand i s = expireGenericCommand i 0 True s"

definition pexpireCommand :: "nat \<Rightarrow> server \<Rightarrow> server" where
  "pexpireCommand i s = expireGenericCommand i (mstime s) False s"

definition pexpireatCommand :: "nat \<Rightarrow> server \<Rightarrow> server" where
  "pexpireatCommand i s = expireGenericCommand i 0 False s"

definition ttlGenericCommand :: "nat \<Rightarrow> bool \<Rightarrow> server \<Rightarrow> server" where
  "ttlGenericCommand i output_ms s =
    (let d = cur_db s i; key = cargs s i ! 1;
         (s, ob) = lookupKeyReadWithFlags d key s
     in if ob = None then reply_ll i (- 2) s
        else
          let (s, expire) = getExpire d key s;
              ttl = (if expire \<noteq> - 1 then (let ttl = expire - mstime s in if ttl < 0 then 0 else ttl) else - 1)
          in if ttl = - 1 then reply_ll i (- 1) s else reply_ll i (if output_ms then ttl else (ttl + 500) div 1000) s)"

definition ttlCommand :: "nat \<Rightarrow> server \<Rightarrow> server" where
  "ttlCommand i s = ttlGenericCommand i False s"

definition pttlCommand :: "nat \<Rightarrow> server \<Rightarrow> server" where
  "pttlCommand i s = ttlGenericCommand i True s"

definition persistCommand :: "nat \<Rightarrow> server \<Rightarrow> server" where
  "persistCommand i s =
    (let d = cur_db s i; key = cargs s i ! 1;
         (s, ob) = lookupKeyWrite d key s
     in if ob \<noteq> None then
          let (s, removed) = removeExpire d key s
          in if removed then add_dirty 1 (reply_obj i shared_cone s) else reply_obj i shared_czero s
        else reply_obj i shared_czero s)"

definition touch_key :: "nat \<Rightarrow> byte list \<Rightarrow> server \<times> nat \<Rightarrow> server \<times> nat" where
  "touch_key i key sn = (let (s, n) = sn; (s, ob) = lookupKeyRead (cur_db s i) key s in (s, if ob \<noteq> None then n + 1 else n))"

definition touchCommand :: "nat \<Rightarrow> server \<Rightarrow> server" where
  "touchCommand i s = (let (s, touched) = fold (touch_key i) (drop 1 (cargs s i)) (s, 0) in reply_ll i (int touched) s)"

text \<open>One step of the active expire cycle, on an entry of the table of expire times.\<close>

definition activeExpireCycleTryExpire :: "nat \<Rightarrow> byte list \<times> int \<Rightarrow> int \<Rightarrow> server \<Rightarrow> server \<times> bool" where
  "activeExpireCycleTryExpire d de now s =
    (if now > snd de then
       let key = fst de;
           s = propagateExpire d key (lazyfree_lazy_expire s) s;
           (s, _) = dbSyncDelete d key s;
           s = notifyKeyspaceEvent NOTIFY_EXPIRED ''expired'' key d s
       in (s\<lparr>stat_expiredkeys := stat_expiredkeys s + 1\<rparr>, True)
     else (s, False))"

end
