(* ===== verification/Multi.thy ===== *)
theory Multi
  imports T_String
begin

text \<open>
  multi.c: transactions and watched keys; and the execution of commands in server.c, with PING, ECHO and AUTH.
\<close>

section \<open>Watching\<close>

definition watchForKey :: "nat \<Rightarrow> byte list \<Rightarrow> server \<Rightarrow> server" where
  "watchForKey i key s =
    (let d = cur_db s i in
     if (d, key) \<in> set (watched_keys (clients s i)) then s
     else
       let cs = (case map_of (db_watched_keys (db s ! d)) key of None \<Rightarrow> [] | Some cs \<Rightarrow> cs);
           s = upd_db d (\<lambda>r. r\<lparr>db_watched_keys := AList.update key (cs @ [i]) (db_watched_keys r)\<rparr>) s
       in upd_client i (\<lambda>c. c\<lparr>watched_keys := watched_keys c @ [(d, key)]\<rparr>) s)"

definition unwatch_key :: "nat \<Rightarrow> nat \<times> byte list \<Rightarrow> server \<Rightarrow> server" where
  "unwatch_key i wk s =
    (let (d, key) = wk;
         s = serverAssert (map_of (db_watched_keys (db s ! d)) key \<noteq> None) s;
         cs = the (map_of (db_watched_keys (db s ! d)) key);
         s = serverAssert (i \<in> set cs) s;
         cs = remove1 i cs;
         s = upd_db d (\<lambda>r. r\<lparr>db_watched_keys := (if cs = [] then AList.delete key (db_watched_keys r) else AList.update key cs (db_watched_keys r))\<rparr>) s
     in upd_client i (\<lambda>c. c\<lparr>watched_keys := remove1 wk (watched_keys c)\<rparr>) s)"

definition unwatchAllKeys :: "nat \<Rightarrow> server \<Rightarrow> server" where
  "unwatchAllKeys i s = fold (unwatch_key i) (watched_keys (clients s i)) s"

section \<open>Transactions\<close>

definition initClientMultiState :: "client \<Rightarrow> client" where
  "initClientMultiState c = c\<lparr>mstate := []\<rparr>"

definition queueMultiCommand :: "nat \<Rightarrow> server \<Rightarrow> server" where
  "queueMultiCommand i s = upd_client i (\<lambda>c. c\<lparr>mstate := mstate c @ [(cmd c, argv c)]\<rparr>) s"

definition discardTransaction :: "nat \<Rightarrow> server \<Rightarrow> server" where
  "discardTransaction i s =
    unwatchAllKeys i
      (upd_client i (\<lambda>c. (initClientMultiState c)\<lparr>flags := flags c - {CLIENT_MULTI, CLIENT_DIRTY_CAS, CLIENT_DIRTY_EXEC}\<rparr>) s)"

definition flagTransaction :: "nat \<Rightarrow> server \<Rightarrow> server" where
  "flagTransaction i s =
    (if CLIENT_MULTI \<in> flags (clients s i) then upd_client i (\<lambda>c. c\<lparr>flags := insert CLIENT_DIRTY_EXEC (flags c)\<rparr>) s else s)"

definition multiCommand :: "nat \<Rightarrow> server \<Rightarrow> server" where
  "multiCommand i s =
    (if CLIENT_MULTI \<in> flags (clients s i) then reply_err i ''MULTI calls can not be nested'' s
     else reply_obj i shared_ok (upd_client i (\<lambda>c. c\<lparr>flags := insert CLIENT_MULTI (flags c)\<rparr>) s))"

definition discardCommand :: "nat \<Rightarrow> server \<Rightarrow> server" where
  "discardCommand i s =
    (if CLIENT_MULTI \<notin> flags (clients s i) then reply_err i ''DISCARD without MULTI'' s
     else reply_obj i shared_ok (discardTransaction i s))"

definition execCommandPropagateMulti :: "nat \<Rightarrow> server \<Rightarrow> server" where
  "execCommandPropagateMulti i s = propagate (cur_db s i) [chars ''MULTI''] True True s"

definition watchCommand :: "nat \<Rightarrow> server \<Rightarrow> server" where
  "watchCommand i s =
    (if CLIENT_MULTI \<in> flags (clients s i) then reply_err i ''WATCH inside MULTI is not allowed'' s
     else reply_obj i shared_ok (fold (watchForKey i) (drop 1 (cargs s i)) s))"

definition unwatchCommand :: "nat \<Rightarrow> server \<Rightarrow> server" where
  "unwatchCommand i s =
    reply_obj i shared_ok (upd_client i (\<lambda>c. c\<lparr>flags := flags c - {CLIENT_DIRTY_CAS}\<rparr>) (unwatchAllKeys i s))"

text \<open>The loop over the queued commands; \<open>call\<close> is an argument.\<close>

fun exec_loop :: "(nat \<Rightarrow> server \<Rightarrow> server) \<Rightarrow> nat \<Rightarrow> (byte list option \<times> byte list list) list \<Rightarrow> bool \<Rightarrow> server \<Rightarrow> server \<times> bool" where
  "exec_loop call i [] must_propagate s = (s, must_propagate)"
| "exec_loop call i ((cm, av) # mcs) must_propagate s =
    (let s = upd_client i (\<lambda>c. c\<lparr>argv := av, cmd := cm\<rparr>) s;
         fl = (case cm of None \<Rightarrow> {} | Some nm \<Rightarrow> (case lookupCommand nm of None \<Rightarrow> {} | Some r \<Rightarrow> cflags r));
         (s, must_propagate) =
           (if \<not> must_propagate \<and> CMD_READONLY \<notin> fl \<and> CMD_ADMIN \<notin> fl then (execCommandPropagateMulti i s, True) else (s, must_propagate))
     in exec_loop call i mcs must_propagate (call i s))"

definition execCommand :: "(nat \<Rightarrow> server \<Rightarrow> server) \<Rightarrow> nat \<Rightarrow> server \<Rightarrow> server" where
  "execCommand call i s =
    (let c = clients s i in
     if CLIENT_MULTI \<notin> flags c then reply_err i ''EXEC without MULTI'' s
     else if CLIENT_DIRTY_CAS \<in> flags c \<or> CLIENT_DIRTY_EXEC \<in> flags c then
       discardTransaction i (reply_obj i (if CLIENT_DIRTY_EXEC \<in> flags c then shared_execaborterr else shared_nullmultibulk) s)
     else
       let s = unwatchAllKeys i s;
           orig_argv = cargs s i; orig_cmd = cmd (clients s i);
           s = reply_mbulk i (length (mstate (clients s i))) s;
           (s, must_propagate) = exec_loop call i (mstate (clients s i)) False s;
           s = upd_client i (\<lambda>c. c\<lparr>argv := orig_argv, cmd := orig_cmd\<rparr>) s;
           s = discardTransaction i s
       in if must_propagate then add_dirty 1 s else s)"

section \<open>PING, ECHO and AUTH\<close>

definition pingCommand :: "nat \<Rightarrow> server \<Rightarrow> server" where
  "pingCommand i s =
    (let av = cargs s i in
     if length av > 2 then reply_errf i (chars ''wrong number of arguments for '' @ 39 # cmd_name (clients s i) @ 39 # chars '' command'') s
     else if CLIENT_PUBSUB \<in> flags (clients s i) then
       (let s = reply_obj i (mbulkhdr 2) s;
            s = reply_cbuffer i (chars ''pong'') s
        in if length av = 1 then reply_cbuffer i [] s else reply_bulk i (createStringObject (av ! 1)) s)
     else if length av = 1 then reply_obj i shared_pong s else reply_bulk i (createStringObject (av ! 1)) s)"

definition echoCommand :: "nat \<Rightarrow> server \<Rightarrow> server" where
  "echoCommand i s = reply_bulk i (createStringObject (cargs s i ! 1)) s"

abbreviation CONFIG_AUTHPASS_MAX_LEN :: nat where "CONFIG_AUTHPASS_MAX_LEN \<equiv> 512"

text \<open>The two C strings in buffers of fixed size filled with zeros, compared byte by byte without a branch.\<close>

definition time_independent_strcmp :: "byte list \<Rightarrow> byte list \<Rightarrow> u32" where
  "time_independent_strcmp a b =
    (let a = cstr a; b = cstr b; alen = length a; blen = length b in
     if alen > CONFIG_AUTHPASS_MAX_LEN \<or> blen > CONFIG_AUTHPASS_MAX_LEN then 1
     else
       let bufa = a @ replicate (CONFIG_AUTHPASS_MAX_LEN - alen) 0;
           bufb = b @ replicate (CONFIG_AUTHPASS_MAX_LEN - blen) 0;
           diff = fold (\<lambda>(x, y) diff. diff OR ucast (x XOR y)) (zip bufa bufb) (0 :: u32)
       in diff OR (of_nat alen XOR of_nat blen))"

definition authCommand :: "nat \<Rightarrow> server \<Rightarrow> server" where
  "authCommand i s =
    (case requirepass s of
       None \<Rightarrow> reply_err i ''Client sent AUTH, but no password is set'' s
     | Some pw \<Rightarrow>
         if time_independent_strcmp (cargs s i ! 1) pw = 0
         then reply_obj i shared_ok (upd_client i (\<lambda>c. c\<lparr>authenticated := True\<rparr>) s)
         else reply_err i ''invalid password'' (upd_client i (\<lambda>c. c\<lparr>authenticated := False\<rparr>) s))"

section \<open>Executing a command\<close>

text \<open>EXEC runs only outside of a transaction, so its procedure is added in a second step.\<close>

fun run_proc :: "cmd_proc \<Rightarrow> nat \<Rightarrow> server \<Rightarrow> server" where
  "run_proc GetCommand = getCommand"
| "run_proc SetCommand = setCommand"
| "run_proc SetnxCommand = setnxCommand"
| "run_proc SetexCommand = setexCommand"
| "run_proc PsetexCommand = psetexCommand"
| "run_proc AppendCommand = appendCommand"
| "run_proc StrlenCommand = strlenCommand"
| "run_proc DelCommand = delGenericCommand"
| "run_proc UnlinkCommand = delGenericCommand"
| "run_proc ExistsCommand = existsCommand"
| "run_proc SetrangeCommand = setrangeCommand"
| "run_proc GetrangeCommand = getrangeCommand"
| "run_proc IncrCommand = incrCommand"
| "run_proc DecrCommand = decrCommand"
| "run_proc MgetCommand = mgetCommand"
| "run_proc IncrbyCommand = incrbyCommand"
| "run_proc DecrbyCommand = decrbyCommand"
| "run_proc GetsetCommand = getsetCommand"
| "run_proc MsetCommand = (\<lambda>i. msetGenericCommand i False)"
| "run_proc MsetnxCommand = (\<lambda>i. msetGenericCommand i True)"
| "run_proc SelectCommand = selectCommand"
| "run_proc SwapdbCommand = swapdbCommand"
| "run_proc MoveCommand = moveCommand"
| "run_proc RenameCommand = (\<lambda>i. renameGenericCommand i False)"
| "run_proc RenamenxCommand = (\<lambda>i. renameGenericCommand i True)"
| "run_proc ExpireCommand = expireCommand"
| "run_proc ExpireatCommand = expireatCommand"
| "run_proc PexpireCommand = pexpireCommand"
| "run_proc PexpireatCommand = pexpireatCommand"
| "run_proc KeysCommand = keysCommand"
| "run_proc DbsizeCommand = dbsizeCommand"
| "run_proc AuthCommand = authCommand"
| "run_proc PingCommand = pingCommand"
| "run_proc EchoCommand = echoCommand"
| "run_proc TypeCommand = typeCommand"
| "run_proc MultiCommand = multiCommand"
| "run_proc ExecCommand = (\<lambda>i. serverAssert False)"
| "run_proc DiscardCommand = discardCommand"
| "run_proc FlushdbCommand = flushdbCommand"
| "run_proc FlushallCommand = flushallCommand"
| "run_proc TtlCommand = ttlCommand"
| "run_proc TouchCommand = touchCommand"
| "run_proc PttlCommand = pttlCommand"
| "run_proc PersistCommand = persistCommand"
| "run_proc SubscribeCommand = subscribeCommand"
| "run_proc UnsubscribeCommand = unsubscribeCommand"
| "run_proc PsubscribeCommand = psubscribeCommand"
| "run_proc PunsubscribeCommand = punsubscribeCommand"
| "run_proc PublishCommand = publishCommand"
| "run_proc PubsubCommand = pubsubCommand"
| "run_proc WatchCommand = watchCommand"
| "run_proc UnwatchCommand = unwatchCommand"

abbreviation PROP_FLAGS :: "cflag set" where
  "PROP_FLAGS \<equiv> {CLIENT_FORCE_AOF, CLIENT_FORCE_REPL, CLIENT_PREVENT_AOF_PROP, CLIENT_PREVENT_REPL_PROP}"

text \<open>
  \<open>call\<close> with the flags CMD_CALL_FULL. The slow log, the statistics per command and the list of additional commands to propagate, to which no modelled
  command adds, are left out.
\<close>

definition call_with :: "(cmd_proc \<Rightarrow> nat \<Rightarrow> server \<Rightarrow> server) \<Rightarrow> nat \<Rightarrow> server \<Rightarrow> server" where
  "call_with run i s =
    (let client_old_flags = flags (clients s i);
         s = upd_client i (\<lambda>c. c\<lparr>flags := flags c - PROP_FLAGS\<rparr>) s;
         dirty0 = dirty s;
         s = (case cmd (clients s i) of
                None \<Rightarrow> serverAssert False s
              | Some nm \<Rightarrow> (case lookupCommand nm of None \<Rightarrow> serverAssert False s | Some r \<Rightarrow> run (cproc r) i s));
         changed = (dirty s - dirty0 > 0);
         fl = flags (clients s i);
         s = (if \<not> {CLIENT_PREVENT_AOF_PROP, CLIENT_PREVENT_REPL_PROP} \<subseteq> fl then
                let to_aof = ((changed \<or> CLIENT_FORCE_AOF \<in> fl) \<and> CLIENT_PREVENT_AOF_PROP \<notin> fl);
                    to_repl = ((changed \<or> CLIENT_FORCE_REPL \<in> fl) \<and> CLIENT_PREVENT_REPL_PROP \<notin> fl)
                in if to_aof \<or> to_repl then propagate (cur_db s i) (cargs s i) to_aof to_repl s else s
              else s);
         s = upd_client i (\<lambda>c. c\<lparr>flags := (flags c - PROP_FLAGS) \<union> (client_old_flags \<inter> PROP_FLAGS)\<rparr>) s
     in s\<lparr>stat_numcommands := stat_numcommands s + 1\<rparr>)"

definition run_all :: "cmd_proc \<Rightarrow> nat \<Rightarrow> server \<Rightarrow> server" where
  "run_all p = (if p = ExecCommand then execCommand (call_with run_proc) else run_proc p)"

definition call :: "nat \<Rightarrow> server \<Rightarrow> server" where
  "call i s = call_with run_all i s"

text \<open>The result is false for C_ERR, which here is only the QUIT command.\<close>

definition processCommand :: "nat \<Rightarrow> server \<Rightarrow> server \<times> bool" where
  "processCommand i s =
    (let av = cargs s i; argc = int (length av) in
     if strcasecmp_eq (av ! 0) ''quit'' then
       (upd_client i (\<lambda>c. c\<lparr>flags := insert CLIENT_CLOSE_AFTER_REPLY (flags c)\<rparr>) (reply_obj i shared_ok s), False)
     else
       case lookupCommand (av ! 0) of
         None \<Rightarrow>
           (reply_errf i (chars ''unknown command '' @ 39 # cstr (av ! 0) @ [39]) (flagTransaction i (upd_client i (\<lambda>c. c\<lparr>cmd := None\<rparr>) s)), True)
       | Some r \<Rightarrow>
           let s = upd_client i (\<lambda>c. c\<lparr>cmd := Some (name r)\<rparr>) s; c = clients s i in
           (if (arity r > 0 \<and> arity r \<noteq> argc) \<or> argc < - arity r then
              reply_errf i (chars ''wrong number of arguments for '' @ 39 # name r @ 39 # chars '' command'') (flagTransaction i s)
            else if requirepass s \<noteq> None \<and> \<not> authenticated c \<and> cproc r \<noteq> AuthCommand then reply_obj i shared_noautherr (flagTransaction i s)
            else if write_error s \<noteq> None \<and> \<not> masterhost s \<and> (CMD_WRITE \<in> cflags r \<or> cproc r = PingCommand) then
              reply_obj i (shared (the (write_error s))) (flagTransaction i s)
            else if \<not> masterhost s \<and> few_slaves s \<and> CMD_WRITE \<in> cflags r then reply_obj i shared_noreplicaserr (flagTransaction i s)
            else if masterhost s \<and> repl_slave_ro s \<and> CLIENT_MASTER \<notin> flags c \<and> CMD_WRITE \<in> cflags r then reply_obj i shared_roslaveerr s
            else if CLIENT_PUBSUB \<in> flags c \<and> cproc r \<notin> {PingCommand, SubscribeCommand, UnsubscribeCommand, PsubscribeCommand, PunsubscribeCommand} then
              reply_err i ''only (P)SUBSCRIBE / (P)UNSUBSCRIBE / PING / QUIT allowed in this context'' s
            else if masterhost s \<and> stale s \<and> CMD_STALE \<notin> cflags r then reply_obj i shared_masterdownerr (flagTransaction i s)
            else if loading s \<and> CMD_LOADING \<notin> cflags r then reply_obj i shared_loadingerr s
            else if CLIENT_MULTI \<in> flags c \<and> cproc r \<notin> {ExecCommand, DiscardCommand, MultiCommand, WatchCommand} then
              reply_obj i shared_queued (queueMultiCommand i s)
            else call i s, True))"

end
