(* ===== verification/Frame.thy ===== *)
theory Frame
  imports Multi
begin

text \<open>
  What the parts of a command leave alone: replies and notifications only add to the output of clients.
\<close>

section \<open>Replies and the rest of a client\<close>

definition creply :: "client \<Rightarrow> client \<Rightarrow> bool" where
  "creply c d \<longleftrightarrow> argv d = argv c \<and> cmd d = cmd c \<and> cdb d = cdb c \<and> mstate d = mstate c \<and> watched_keys d = watched_keys c \<and>
     pubsub_channels d = pubsub_channels c \<and> pubsub_patterns d = pubsub_patterns c \<and> authenticated d = authenticated c \<and> querybuf d = querybuf c \<and>
     flags c \<subseteq> flags d \<and> flags d \<subseteq> flags c \<union> {CLIENT_PENDING_WRITE, CLIENT_CLOSE_ASAP}"

lemma creply_refl [simp]: "creply c c"
  by (auto simp: creply_def)

lemma creply_trans: "creply c d \<Longrightarrow> creply d e \<Longrightarrow> creply c e"
  unfolding creply_def by auto

lemma creply_prepare: "creply c (fst (prepareClientToWrite c))"
  by (auto simp: prepareClientToWrite_def creply_def)

lemma creply_async: "creply c (asyncCloseClientOnOutputBufferLimitReached cfg c)"
  by (auto simp: asyncCloseClientOnOutputBufferLimitReached_def checkClientOutputBufferLimits_def freeClientAsync_def Let_def creply_def split: prod.splits if_splits)

lemma creply_glue: "creply c (glue_or_add c s)"
  by (auto simp: glue_or_add_def creply_def split: option.splits)

lemma creply_buffer: "creply c (fst (addReplyToBuffer c s))"
  by (auto simp: addReplyToBuffer_def creply_def Let_def)

lemma creply_list: "creply c (addReplyStringToList cfg c s)" "creply c (addReplyObjectToList cfg c s)" "creply c (addReplySdsToList cfg c s)"
  using creply_trans [OF creply_glue creply_async] by (simp_all add: addReplyStringToList_def addReplyObjectToList_def addReplySdsToList_def)

lemma creply_queue:
  assumes "\<And>d. creply d (f d)"
  shows "creply c (let (c, ok) = addReplyToBuffer c s in if ok then c else f c)"
  using creply_buffer [of c s] creply_trans [OF creply_buffer [of c s] assms] by (cases "addReplyToBuffer c s") simp

lemma creply_prepared:
  assumes "\<And>d. creply d (f d)"
  shows "creply c (let (c, w) = prepareClientToWrite c in if \<not> w then c else f c)"
  using creply_prepare [of c] creply_trans [OF creply_prepare [of c] assms] by (cases "prepareClientToWrite c") simp

lemma creply_string: "creply c (addReplyString cfg c s)"
  unfolding addReplyString_def by (intro creply_prepared creply_queue creply_list)

lemma creply_decoded: "creply c (reply_decoded cfg c s)"
  unfolding reply_decoded_def by (intro creply_queue creply_list)

lemma creply_addReply: "creply c (addReply cfg c ob)"
proof -
  have "creply d (case ob of
       OBJ_ENCODING_INT v \<Rightarrow>
         if reply d = [] \<and> PROTO_REPLY_CHUNK_BYTES - bufpos d \<ge> 32
         then (let (c', ok) = addReplyToBuffer d (ll_text v) in if ok then c' else reply_decoded cfg d (ll_text v))
         else reply_decoded cfg d (ll_text v)
     | _ \<Rightarrow> reply_decoded cfg d (getDecodedObject ob))" for d
    using creply_buffer [of d] creply_decoded [of d cfg] by (auto split: strobj.split prod.split) (metis fst_conv)
  then show ?thesis unfolding addReply_def by (intro creply_prepared)
qed

lemma creply_prefix: "creply c (addReplyLongLongWithPrefix cfg c v p)"
  by (simp add: addReplyLongLongWithPrefix_def creply_addReply creply_string)

lemma creply_ll: "creply c (addReplyLongLong cfg c v)"
  by (simp add: addReplyLongLong_def creply_addReply creply_prefix)

lemma creply_mbulk: "creply c (addReplyMultiBulkLen cfg c v)"
  by (simp add: addReplyMultiBulkLen_def creply_addReply creply_prefix)

lemma creply_bulklen: "creply c (addReplyBulkLen cfg c ob)"
  by (simp add: addReplyBulkLen_def Let_def creply_addReply creply_prefix)

lemma creply_bulk: "creply c (addReplyBulk cfg c ob)"
  unfolding addReplyBulk_def by (meson creply_addReply creply_bulklen creply_trans)

lemma creply_cbuffer: "creply c (addReplyBulkCBuffer cfg c p)"
  unfolding addReplyBulkCBuffer_def by (meson creply_addReply creply_string creply_prefix creply_trans)

lemma creply_errlen: "creply c (addReplyErrorLength cfg c s)"
  unfolding addReplyErrorLength_def by (meson creply_string creply_trans)

lemma creply_statuslen: "creply c (addReplyStatusLength cfg c s)"
  unfolding addReplyStatusLength_def by (meson creply_string creply_trans)

lemma creply_deferred: "creply c (fst (addDeferredMultiBulkLength c))"
  using creply_prepare [of c] by (cases "prepareClientToWrite c") (auto simp: addDeferredMultiBulkLength_def creply_def)

lemma creply_set_deferred: "creply c (setDeferredMultiBulkLength cfg c node l)"
proof (cases node)
  case (Some ln)
  define len where "len = 42 # dec_int (sint l) @ crlf"
  define d where "d = c\<lparr>reply := (reply c)[ln := Some len], reply_bytes := reply_bytes c + length len\<rparr>"
  have d: "creply c d" by (auto simp: d_def creply_def)
  have "creply d (d\<lparr>reply := r\<rparr>)" for r by (auto simp: creply_def)
  then have "creply c (if Suc ln < length (reply d) then (case reply d ! Suc ln of None \<Rightarrow> d | Some nxt \<Rightarrow> d\<lparr>reply := f nxt\<rparr>) else d)" for f
    using d creply_trans by (auto split: option.split)
  then have "creply c (asyncCloseClientOnOutputBufferLimitReached cfg
      (if Suc ln < length (reply d) then (case reply d ! Suc ln of None \<Rightarrow> d | Some nxt \<Rightarrow> d\<lparr>reply := f nxt\<rparr>) else d))" for f
    using creply_trans [OF _ creply_async] by blast
  then show ?thesis unfolding setDeferredMultiBulkLength_def Some option.case Let_def len_def [symmetric] d_def [symmetric] .
qed (simp add: setDeferredMultiBulkLength_def)

lemmas creply_rules = creply_addReply creply_ll creply_mbulk creply_bulk creply_cbuffer creply_errlen creply_statuslen creply_deferred creply_set_deferred

section \<open>Replies and the server\<close>

text \<open>The state but for the output of the clients and the crash flag.\<close>

definition core :: "server \<Rightarrow> server" where
  "core s = s\<lparr>clients := undefined, panicked := False\<rparr>"

definition sreply :: "server \<Rightarrow> server \<Rightarrow> bool" where
  "sreply s s' \<longleftrightarrow> core s' = core s \<and> (panicked s \<longrightarrow> panicked s') \<and> (\<forall>i. creply (clients s i) (clients s' i))"

lemma sreply_refl [simp]: "sreply s s"
  by (simp add: sreply_def)

lemma sreply_trans: "sreply s t \<Longrightarrow> sreply t u \<Longrightarrow> sreply s u"
  unfolding sreply_def using creply_trans by metis

lemma core_fields:
  assumes "core s' = core s"
  shows "db s' = db s" "clients_list s' = clients_list s" "mstime s' = mstime s" "masterhost s' = masterhost s" "loading s' = loading s" "dirty s' = dirty s"
    "master s' = master s" "current_client s' = current_client s" "server_patterns s' = server_patterns s" "server_channels s' = server_channels s"
    "notify_keyspace_events s' = notify_keyspace_events s" "lazyfree_lazy_expire s' = lazyfree_lazy_expire s" "ocfg s' = ocfg s" "max_alloc s' = max_alloc s"
    "aof_stream s' = aof_stream s" "repl_stream s' = repl_stream s" "aof_on s' = aof_on s"
proof -
  have "f (core s) = f (core s')" for f :: "server \<Rightarrow> 'a" using assms by simp
  note c = this
  show "db s' = db s" using arg_cong [OF assms, of db] by (simp add: core_def)
  show "clients_list s' = clients_list s" using arg_cong [OF assms, of clients_list] by (simp add: core_def)
  show "mstime s' = mstime s" using arg_cong [OF assms, of mstime] by (simp add: core_def)
  show "masterhost s' = masterhost s" using arg_cong [OF assms, of masterhost] by (simp add: core_def)
  show "loading s' = loading s" using arg_cong [OF assms, of loading] by (simp add: core_def)
  show "dirty s' = dirty s" using arg_cong [OF assms, of dirty] by (simp add: core_def)
  show "master s' = master s" using arg_cong [OF assms, of master] by (simp add: core_def)
  show "current_client s' = current_client s" using arg_cong [OF assms, of current_client] by (simp add: core_def)
  show "server_patterns s' = server_patterns s" using arg_cong [OF assms, of server_patterns] by (simp add: core_def)
  show "server_channels s' = server_channels s" using arg_cong [OF assms, of server_channels] by (simp add: core_def)
  show "notify_keyspace_events s' = notify_keyspace_events s" using arg_cong [OF assms, of notify_keyspace_events] by (simp add: core_def)
  show "lazyfree_lazy_expire s' = lazyfree_lazy_expire s" using arg_cong [OF assms, of lazyfree_lazy_expire] by (simp add: core_def)
  show "ocfg s' = ocfg s" using arg_cong [OF assms, of ocfg] by (simp add: core_def)
  show "max_alloc s' = max_alloc s" using arg_cong [OF assms, of max_alloc] by (simp add: core_def)
  show "aof_stream s' = aof_stream s" using arg_cong [OF assms, of aof_stream] by (simp add: core_def)
  show "repl_stream s' = repl_stream s" using arg_cong [OF assms, of repl_stream] by (simp add: core_def)
  show "aof_on s' = aof_on s" using arg_cong [OF assms, of aof_on] by (simp add: core_def)
qed

lemma sreply_fields:
  assumes "sreply s s'"
  shows "db s' = db s" "clients_list s' = clients_list s" "mstime s' = mstime s" "masterhost s' = masterhost s" "loading s' = loading s" "dirty s' = dirty s"
    "master s' = master s" "current_client s' = current_client s" "server_patterns s' = server_patterns s" "server_channels s' = server_channels s"
    "notify_keyspace_events s' = notify_keyspace_events s" "lazyfree_lazy_expire s' = lazyfree_lazy_expire s" "ocfg s' = ocfg s" "max_alloc s' = max_alloc s"
    "aof_stream s' = aof_stream s" "repl_stream s' = repl_stream s" "aof_on s' = aof_on s"
    "cargs s' i = cargs s i" "cur_db s' i = cur_db s i"
  using assms core_fields [of s' s] by (auto simp: sreply_def creply_def)

lemma sreply_upd: "(\<And>c. creply c (f c)) \<Longrightarrow> sreply s (upd_client i f s)"
  by (simp add: sreply_def upd_client_def core_def)

lemma sreply_replies [simp, intro]:
  "sreply s (reply_obj i ob s)" "sreply s (reply_bulk i ob s)" "sreply s (reply_cbuffer i p s)" "sreply s (reply_ll i n s)" "sreply s (reply_mbulk i m s)"
  "sreply s (reply_err i e s)" "sreply s (reply_errf i t s)" "sreply s (reply_status i e s)"
  by (simp_all add: reply_obj_def reply_bulk_def reply_cbuffer_def reply_ll_def reply_mbulk_def reply_err_def reply_errf_def reply_status_def
      addReplyError_def addReplyErrorFormat_def addReplyStatus_def sreply_upd creply_rules)

lemma sreply_assert [simp, intro]: "sreply s (serverAssert b s)"
  by (simp add: sreply_def serverAssert_def core_def)

lemma sreply_zmalloc [simp, intro]: "sreply s (zmalloc_ok n s)"
  by (simp add: zmalloc_ok_def)

text \<open>A reply at the end of a chain, and chains of replies.\<close>

lemma sreply_replies' [intro]:
  "sreply s t \<Longrightarrow> sreply s (reply_obj i ob t)" "sreply s t \<Longrightarrow> sreply s (reply_bulk i ob t)" "sreply s t \<Longrightarrow> sreply s (reply_cbuffer i p t)"
  "sreply s t \<Longrightarrow> sreply s (reply_ll i n t)" "sreply s t \<Longrightarrow> sreply s (reply_mbulk i m t)" "sreply s t \<Longrightarrow> sreply s (reply_err i e t)"
  "sreply s t \<Longrightarrow> sreply s (reply_errf i x t)" "sreply s t \<Longrightarrow> sreply s (reply_status i e t)" "sreply s t \<Longrightarrow> sreply s (serverAssert b t)"
  using sreply_trans sreply_replies sreply_assert by blast+

lemma sreply_fold: "(\<And>x t. sreply t (f x t)) \<Longrightarrow> sreply s (fold f xs s)"
  by (induction xs arbitrary: s) (auto intro: sreply_trans)

lemma sreply_send: "sreply s (send_message ch m i s)" "sreply s (send_pmessage ch m pat s)"
  unfolding send_message_def send_pmessage_def Let_def by (intro sreply_replies' sreply_refl)+

lemma sreply_publish_patterns: "sreply s (fst (publish_patterns ch m pats s))"
proof (induction ch m pats s rule: publish_patterns.induct)
  case (2 ch m pat pats s)
  show ?case
  proof (cases "stringmatchlen (snd pat) ch False")
    case (Some b)
    then show ?thesis using 2 sreply_trans [OF sreply_send(2) [of s ch m pat]] by (cases b) (simp_all add: split_beta)
  qed simp
qed simp

lemma sreply_publish: "sreply s (fst (pubsubPublishMessage ch m s))"
proof -
  define cs where "cs = (case map_of (server_channels s) ch of None \<Rightarrow> [] | Some cs \<Rightarrow> cs)"
  have "sreply s (fold (send_message ch m) cs s)" by (rule sreply_fold) (rule sreply_send)
  from sreply_trans [OF this sreply_publish_patterns] show ?thesis
    by (simp add: pubsubPublishMessage_def Let_def split_beta flip: cs_def)
qed

lemma sreply_notify: "sreply s (notifyKeyspaceEvent cls ev key d s)"
  unfolding notifyKeyspaceEvent_def Let_def using sreply_publish sreply_trans [OF sreply_publish sreply_publish] by auto

lemma sreply_checkType: "sreply s (fst (checkType i v t s))"
  by (simp add: checkType_def)

lemma sreply_getLL: "sreply s (fst (getLongLongFromObjectOrReply i ob msg s))"
  by (auto simp: getLongLongFromObjectOrReply_def split: option.split)

lemma sreply_getL: "sreply s (fst (getLongFromObjectOrReply i ob msg s))"
  using sreply_getLL [of s i ob msg] by (auto simp: getLongFromObjectOrReply_def split: prod.split option.split)

lemma sreply_checkStringLength: "sreply s (fst (checkStringLength i n s))"
  by (simp add: checkStringLength_def)

end
