(* ===== verification/Watch_Frame.thy ===== *)
theory Watch_Frame
  imports Frame
begin

text \<open>
  Optimistic locking, the calculus: which keys a part of a command changes, which clients it marks, and that every change of a key is signalled to the clients that watch it.
\<close>

named_theorems sig_intros

section \<open>What is observed\<close>

definition val :: "server \<Rightarrow> nat \<Rightarrow> byte list \<Rightarrow> robj option \<times> int option" where
  "val s d k = (if d < length (db s) then (map_of (dict (db s ! d)) k, map_of (expires (db s ! d)) k) else (None, None))"

definition expired :: "server \<Rightarrow> nat \<Rightarrow> byte list \<Rightarrow> bool" where
  "expired s d k \<longleftrightarrow> d < length (db s) \<and> (\<exists>w. map_of (expires (db s ! d)) k = Some w \<and> w < mstime s)"

definition db_ok :: "redisDb \<Rightarrow> bool" where
  "db_ok r \<longleftrightarrow> fst ` set (expires r) \<subseteq> fst ` set (dict r) \<and> distinct (map fst (dict r)) \<and> distinct (map fst (expires r))"

definition watch_ok :: "server \<Rightarrow> nat \<Rightarrow> bool" where
  "watch_ok s i \<longleftrightarrow> distinct (watched_keys (clients s i)) \<and>
     (\<forall>(d, k) \<in> set (watched_keys (clients s i)). d < length (db s) \<and> (\<exists>cs. map_of (db_watched_keys (db s ! d)) k = Some cs \<and> i \<in> set cs))"

definition server_ok :: "server \<Rightarrow> bool" where
  "server_ok s \<longleftrightarrow> (panicked s \<or> (\<forall>r \<in> set (db s). db_ok r)) \<and> (\<forall>i \<in> set (clients_list s). watch_ok s i \<and> cur_db s i < length (db s))"

abbreviation is_dirty :: "server \<Rightarrow> nat \<Rightarrow> bool" where "is_dirty s i \<equiv> CLIENT_DIRTY_CAS \<in> flags (clients s i)"
abbreviation watches :: "server \<Rightarrow> nat \<Rightarrow> (nat \<times> byte list) set" where "watches s i \<equiv> set (watched_keys (clients s i))"

text \<open>The commands that change keys without telling the clients that watch them, and the queued commands among them.\<close>

definition silent :: "cmd_proc set" where
  "silent = {MoveCommand, SwapdbCommand, PersistCommand}"

definition loud :: "byte list option \<Rightarrow> bool" where
  "loud cm \<longleftrightarrow> (case cm of None \<Rightarrow> True | Some nm \<Rightarrow> (case lookupCommand nm of None \<Rightarrow> True | Some r \<Rightarrow> cproc r \<notin> silent))"

definition hushed :: "client \<Rightarrow> (byte list option \<times> byte list list) set" where
  "hushed c = {q \<in> set (mstate c). \<not> loud (fst q)}"

lemma hushed_simps [simp]: "hushed (c\<lparr>cdb := d\<rparr>) = hushed c" "hushed (c\<lparr>argv := av\<rparr>) = hushed c" "hushed (c\<lparr>cmd := cm\<rparr>) = hushed c" "hushed (c\<lparr>argv := av, cmd := cm\<rparr>) = hushed c"
  "hushed (c\<lparr>flags := fl\<rparr>) = hushed c" "hushed (c\<lparr>watched_keys := wks\<rparr>) = hushed c" "hushed (c\<lparr>pubsub_channels := ch\<rparr>) = hushed c" "hushed (c\<lparr>pubsub_patterns := ps\<rparr>) = hushed c"
  "hushed (c\<lparr>authenticated := b\<rparr>) = hushed c" "hushed (c\<lparr>mstate := []\<rparr>) = {}" "hushed (c\<lparr>mstate := [], flags := fl\<rparr>) = {}"
  by (simp_all add: hushed_def)

text \<open>
  From \<open>s\<close> to \<open>s'\<close> only the keys in \<open>K\<close>, and keys whose time had run out, have changed; the clients other than those in \<open>J\<close> still watch what they watched, and
  have not lost the mark that a watched key was touched. No silent command joins the queue of a transaction.
\<close>

definition chg :: "nat set \<Rightarrow> (nat \<times> byte list) set \<Rightarrow> server \<Rightarrow> server \<Rightarrow> bool" where
  "chg J K s s' \<longleftrightarrow> length (db s') = length (db s) \<and> mstime s' = mstime s \<and> clients_list s' = clients_list s \<and> (panicked s \<longrightarrow> panicked s') \<and> (server_ok s \<longrightarrow> server_ok s') \<and>
     (\<forall>i. hushed (clients s' i) \<subseteq> hushed (clients s i)) \<and>
     (\<forall>i. i \<notin> J \<longrightarrow> watches s i \<subseteq> watches s' i \<and> (is_dirty s i \<longrightarrow> is_dirty s' i)) \<and>
     (\<forall>d k. (d, k) \<notin> K \<longrightarrow> val s' d k = val s d k \<or> expired s d k)"

definition sig :: "nat set \<Rightarrow> (nat \<times> byte list) set \<Rightarrow> server \<Rightarrow> server \<Rightarrow> bool" where
  "sig J K s s' \<longleftrightarrow> chg J K s s' \<and> (server_ok s \<and> \<not> panicked s' \<longrightarrow> (\<forall>i \<in> set (clients_list s). i \<notin> J \<longrightarrow> watches s i \<inter> K \<noteq> {} \<longrightarrow> is_dirty s' i))"

definition sig_ok :: "nat set \<Rightarrow> server \<Rightarrow> server \<Rightarrow> bool" where
  "sig_ok J s s' \<longleftrightarrow> (\<exists>K. sig J K s s')"

lemma chg_trans: "chg J K s t \<Longrightarrow> chg J' L t u \<Longrightarrow> chg (J \<union> J') (K \<union> L) s u"
proof -
  assume a: "chg J K s t" "chg J' L t u"
  have "val u d k = val s d k \<or> expired s d k" if "(d, k) \<notin> K \<union> L" for d k
  proof -
    have 1: "val t d k = val s d k \<or> expired s d k" "val u d k = val t d k \<or> expired t d k" using a that by (auto simp: chg_def)
    have "expired t d k \<Longrightarrow> val t d k = val s d k \<Longrightarrow> expired s d k" using a(1) by (simp add: expired_def val_def chg_def split: if_splits)
    then show ?thesis using 1 by metis
  qed
  moreover have "\<forall>i. i \<notin> J \<union> J' \<longrightarrow> watches s i \<subseteq> watches u i \<and> (is_dirty s i \<longrightarrow> is_dirty u i)" using a unfolding chg_def by (meson UnI1 UnI2 subset_trans)
  moreover have "\<forall>i. hushed (clients u i) \<subseteq> hushed (clients s i)" using a unfolding chg_def by (meson subset_trans)
  ultimately show ?thesis using a unfolding chg_def by metis
qed

lemma sig_trans: "sig J K s t \<Longrightarrow> sig J' L t u \<Longrightarrow> sig (J \<union> J') (K \<union> L) s u"
proof -
  assume a: "sig J K s t" "sig J' L t u"
  have "is_dirty u i" if w: "server_ok s" "i \<in> set (clients_list s)" "i \<notin> J \<union> J'" "watches s i \<inter> (K \<union> L) \<noteq> {}" and p: "\<not> panicked u" for i
  proof (cases "watches s i \<inter> K \<noteq> {}")
    case True
    have "\<not> panicked t" using a(2) p by (auto simp: sig_def chg_def)
    then have "is_dirty t i" using a(1) w True by (auto simp: sig_def)
    then show ?thesis using a(2) w(3) by (auto simp: sig_def chg_def)
  next
    case False
    have "watches s i \<subseteq> watches t i" using a(1) w(3) by (auto simp: sig_def chg_def)
    then have "watches t i \<inter> L \<noteq> {}" using False w(4) by blast
    moreover have "server_ok t" "i \<in> set (clients_list t)" using a(1) w by (auto simp: sig_def chg_def)
    ultimately show ?thesis using a(2) w(3) p by (auto simp: sig_def)
  qed
  then show ?thesis using a chg_trans unfolding sig_def by blast
qed

lemma sig_ok_trans: "sig_ok J s t \<Longrightarrow> sig_ok J t u \<Longrightarrow> sig_ok J s u"
  unfolding sig_ok_def using sig_trans by (metis sup_idem)

lemma chg_refl [simp]: "chg J K s s" by (simp add: chg_def)

lemma chg_mono: "chg J K s t \<Longrightarrow> J \<subseteq> J' \<Longrightarrow> K \<subseteq> L \<Longrightarrow> chg J' L s t"
  unfolding chg_def by blast

lemma sig_ok_chg: "chg J {} s t \<Longrightarrow> sig_ok J s t"
  by (auto simp: sig_ok_def sig_def intro: exI [of _ "{}"])

lemma sig_ok_refl [simp, sig_intros]: "sig_ok J s s"
  by (rule sig_ok_chg) simp

lemma sig_ok_mono: "sig_ok J s t \<Longrightarrow> J \<subseteq> J' \<Longrightarrow> sig_ok J' s t"
  unfolding sig_ok_def sig_def using chg_mono by blast

text \<open>Steps that leave the databases alone.\<close>

lemma chg_same:
  assumes "db s' = db s" "clients_list s' = clients_list s" "mstime s' = mstime s" "panicked s \<longrightarrow> panicked s'"
    "\<And>i. watched_keys (clients s' i) = watched_keys (clients s i) \<and> (cur_db s i < length (db s) \<longrightarrow> cur_db s' i < length (db s)) \<and> (is_dirty s i \<longrightarrow> is_dirty s' i) \<and> hushed (clients s' i) \<subseteq> hushed (clients s i)"
  shows "chg {} {} s s'"
proof -
  have "server_ok s \<longrightarrow> server_ok s'" using assms by (auto simp: server_ok_def watch_ok_def)
  then show ?thesis using assms by (simp add: chg_def val_def)
qed

lemma chg_sreply: "sreply s s' \<Longrightarrow> chg {} {} s s'"
proof (rule chg_same)
  fix i assume a: "sreply s s'"
  then have c: "creply (clients s i) (clients s' i)" by (simp add: sreply_def)
  show "watched_keys (clients s' i) = watched_keys (clients s i) \<and> (cur_db s i < length (db s) \<longrightarrow> cur_db s' i < length (db s)) \<and> (is_dirty s i \<longrightarrow> is_dirty s' i) \<and> hushed (clients s' i) \<subseteq> hushed (clients s i)"
    using c by (auto simp: creply_def hushed_def)
qed (auto simp: sreply_def dest: core_fields)

lemma sig_ok_sreply: "sreply s s' \<Longrightarrow> sig_ok J s s'"
  by (rule sig_ok_mono [OF sig_ok_chg [OF chg_sreply]]) auto

lemma sig_ok_then_sreply: "sig_ok J s t \<Longrightarrow> sreply t u \<Longrightarrow> sig_ok J s u"
  using sig_ok_trans sig_ok_sreply by blast

lemma sig_ok_replies [sig_intros]:
  "sig_ok J s t \<Longrightarrow> sig_ok J s (reply_obj i ob t)" "sig_ok J s t \<Longrightarrow> sig_ok J s (reply_bulk i ob t)" "sig_ok J s t \<Longrightarrow> sig_ok J s (reply_cbuffer i p t)"
  "sig_ok J s t \<Longrightarrow> sig_ok J s (reply_ll i n t)" "sig_ok J s t \<Longrightarrow> sig_ok J s (reply_mbulk i m t)" "sig_ok J s t \<Longrightarrow> sig_ok J s (reply_err i e t)"
  "sig_ok J s t \<Longrightarrow> sig_ok J s (reply_errf i x t)" "sig_ok J s t \<Longrightarrow> sig_ok J s (reply_status i e t)" "sig_ok J s t \<Longrightarrow> sig_ok J s (serverAssert b t)"
  "sig_ok J s t \<Longrightarrow> sig_ok J s (zmalloc_ok z t)" "sig_ok J s t \<Longrightarrow> sig_ok J s (notifyKeyspaceEvent cls ev key d t)"
  by (auto elim!: sig_ok_then_sreply simp: sreply_notify)

lemma chg_add_dirty: "chg {} {} s (add_dirty n s)"
  by (rule chg_same) (simp_all add: add_dirty_def)

lemma sig_ok_add_dirty [sig_intros]: "sig_ok J s t \<Longrightarrow> sig_ok J s (add_dirty n t)"
  using sig_ok_trans sig_ok_chg [OF chg_mono [OF chg_add_dirty]] by blast

lemma sig_ok_if [sig_intros]: "(b \<Longrightarrow> sig_ok J s t) \<Longrightarrow> (\<not> b \<Longrightarrow> sig_ok J s u) \<Longrightarrow> sig_ok J s (if b then t else u)"
  by simp

lemma sig_ok_pair [sig_intros]: "sig_ok J s (fst p) \<Longrightarrow> (\<And>t x. p = (t, x) \<Longrightarrow> sig_ok J t (g t x)) \<Longrightarrow> sig_ok J s (case p of (t, x) \<Rightarrow> g t x)"
  using sig_ok_trans by (cases p) auto

lemma sig_ok_option [sig_intros]: "(x = None \<Longrightarrow> sig_ok J s a) \<Longrightarrow> (\<And>y. x = Some y \<Longrightarrow> sig_ok J s (f y)) \<Longrightarrow> sig_ok J s (case x of None \<Rightarrow> a | Some y \<Rightarrow> f y)"
  by (cases x) auto

lemma sig_ok_robj [sig_intros]:
  "(\<And>v. x = OBJ_STRING v \<Longrightarrow> sig_ok J s (f0 v)) \<Longrightarrow> (\<And>v. x = OBJ_LIST v \<Longrightarrow> sig_ok J s (f1 v)) \<Longrightarrow> (\<And>v. x = OBJ_SET v \<Longrightarrow> sig_ok J s (f2 v)) \<Longrightarrow>
   (\<And>v. x = OBJ_ZSET v \<Longrightarrow> sig_ok J s (f3 v)) \<Longrightarrow> (\<And>v. x = OBJ_HASH v \<Longrightarrow> sig_ok J s (f4 v)) \<Longrightarrow> (\<And>v. x = OBJ_MODULE v \<Longrightarrow> sig_ok J s (f5 v)) \<Longrightarrow>
   sig_ok J s (case x of OBJ_STRING v \<Rightarrow> f0 v | OBJ_LIST v \<Rightarrow> f1 v | OBJ_SET v \<Rightarrow> f2 v | OBJ_ZSET v \<Rightarrow> f3 v | OBJ_HASH v \<Rightarrow> f4 v | OBJ_MODULE v \<Rightarrow> f5 v)"
  by (cases x) auto

lemma sig_ok_fst_pair [sig_intros]:
  "sig_ok J s (fst p) \<Longrightarrow> (\<And>t x. p = (t, x) \<Longrightarrow> sig_ok J t (fst (g t x))) \<Longrightarrow> sig_ok J s (fst (case p of (t, x) \<Rightarrow> g t x))"
  using sig_ok_trans by (cases p) auto

lemma sig_ok_fst_if [sig_intros]: "(b \<Longrightarrow> sig_ok J s (fst t)) \<Longrightarrow> (\<not> b \<Longrightarrow> sig_ok J s (fst u)) \<Longrightarrow> sig_ok J s (fst (if b then t else u))"
  by simp

lemma sig_ok_fst_option [sig_intros]:
  "(x = None \<Longrightarrow> sig_ok J s (fst a)) \<Longrightarrow> (\<And>y. x = Some y \<Longrightarrow> sig_ok J s (fst (f y))) \<Longrightarrow> sig_ok J s (fst (case x of None \<Rightarrow> a | Some y \<Rightarrow> f y))"
  by (cases x) auto

lemma sig_ok_fst_robj [sig_intros]:
  "(\<And>v. x = OBJ_STRING v \<Longrightarrow> sig_ok J s (fst (f0 v))) \<Longrightarrow> (\<And>v. x = OBJ_LIST v \<Longrightarrow> sig_ok J s (fst (f1 v))) \<Longrightarrow> (\<And>v. x = OBJ_SET v \<Longrightarrow> sig_ok J s (fst (f2 v))) \<Longrightarrow>
   (\<And>v. x = OBJ_ZSET v \<Longrightarrow> sig_ok J s (fst (f3 v))) \<Longrightarrow> (\<And>v. x = OBJ_HASH v \<Longrightarrow> sig_ok J s (fst (f4 v))) \<Longrightarrow> (\<And>v. x = OBJ_MODULE v \<Longrightarrow> sig_ok J s (fst (f5 v))) \<Longrightarrow>
   sig_ok J s (fst (case x of OBJ_STRING v \<Rightarrow> f0 v | OBJ_LIST v \<Rightarrow> f1 v | OBJ_SET v \<Rightarrow> f2 v | OBJ_ZSET v \<Rightarrow> f3 v | OBJ_HASH v \<Rightarrow> f4 v | OBJ_MODULE v \<Rightarrow> f5 v))"
  by (cases x) auto

lemma sig_ok_fst_Pair [sig_intros]: "sig_ok J s t \<Longrightarrow> sig_ok J s (fst (t, x))"
  by simp

lemma sig_ok_fold: "(\<And>x t. sig_ok J t (f x t)) \<Longrightarrow> sig_ok J s (fold f xs s)"
  by (induction xs arbitrary: s) (auto intro: sig_ok_trans)

lemma sig_ok_fold_pair: "(\<And>x t n. sig_ok J t (fst (f x (t, n)))) \<Longrightarrow> sig_ok J s (fst (fold f xs (s, n)))"
proof (induction xs arbitrary: s n)
  case (Cons x xs)
  obtain t m where t: "f x (s, n) = (t, m)" by (cases "f x (s, n)")
  then show ?case using Cons.IH [of t m] Cons.prems [of s x n] Cons.prems by (auto intro: sig_ok_trans)
qed simp

section \<open>Changing a database\<close>

lemma chg_upd_db:
  assumes "\<And>r. db_watched_keys (f r) = db_watched_keys r" "db_ok (db s ! d) \<Longrightarrow> db_ok (f (db s ! d)) \<or> panicked s"
    "\<And>r k'. k' \<noteq> k \<Longrightarrow> map_of (dict (f r)) k' = map_of (dict r) k' \<and> map_of (expires (f r)) k' = map_of (expires r) k'"
  shows "chg {} {(d, k)} s (upd_db d f s)"
proof -
  let ?s = "upd_db d f s"
  have n: "db ?s ! e = (if e = d \<and> d < length (db s) then f (db s ! d) else db s ! e)" for e
    by (cases "d < length (db s)") (auto simp: upd_db_def nth_list_update_eq list_update_beyond)
  have w: "db_watched_keys (db ?s ! e) = db_watched_keys (db s ! e)" for e using assms(1) n by simp
  have "set (db ?s) \<subseteq> insert (f (db s ! d)) (set (db s))" by (simp add: upd_db_def set_update_subset_insert)
  moreover have "d < length (db s) \<Longrightarrow> db s ! d \<in> set (db s)" by simp
  ultimately have "panicked s \<or> (\<forall>r \<in> set (db s). db_ok r) \<Longrightarrow> panicked ?s \<or> (\<forall>r \<in> set (db ?s). db_ok r)"
    using assms(2) by (cases "d < length (db s)") (auto simp: upd_db_def list_update_beyond)
  then have "server_ok s \<longrightarrow> server_ok ?s" using w by (auto simp: server_ok_def watch_ok_def) (auto simp: upd_db_def)
  moreover have "val ?s e k' = val s e k'" if "(e, k') \<noteq> (d, k)" for e k' using assms(3) that by (auto simp: val_def n) (auto simp: upd_db_def)
  ultimately show ?thesis by (auto simp: chg_def) (auto simp: upd_db_def)
qed

lemma chg_step: "chg J K s t \<Longrightarrow> chg J K t u \<Longrightarrow> chg J K s u"
  using chg_trans [of J K s t J K u] by simp

named_theorems chg_intros

lemma chg_then_sreply: "chg {} K s t \<Longrightarrow> sreply t u \<Longrightarrow> chg {} K s u"
  by (erule chg_step, rule chg_mono [OF chg_sreply]) simp_all

lemma chg_assert [chg_intros]: "chg {} K s t \<Longrightarrow> chg {} K s (serverAssert b t)"
  by (erule chg_then_sreply) simp

lemma chg_zmalloc [chg_intros]: "chg {} K s t \<Longrightarrow> chg {} K s (zmalloc_ok n t)"
  by (erule chg_then_sreply) simp

lemma db_ok_update: "db_ok r \<Longrightarrow> db_ok (r\<lparr>dict := AList.update k v (dict r)\<rparr>)"
  by (auto simp: db_ok_def dom_update distinct_update)

lemma db_ok_del_expire: "db_ok r \<Longrightarrow> db_ok (r\<lparr>expires := AList.delete k (expires r)\<rparr>)"
  using dom_delete_subset [of k "expires r"] by (auto simp: db_ok_def distinct_delete)

lemma db_ok_del_dict: "db_ok r \<Longrightarrow> k \<notin> fst ` set (expires r) \<Longrightarrow> db_ok (r\<lparr>dict := AList.delete k (dict r)\<rparr>)"
proof -
  assume a: "db_ok r" "k \<notin> fst ` set (expires r)"
  have "fst ` set (AList.delete k (dict r)) = fst ` set (dict r) - {k}" by (metis delete_keys list.set_map set_removeAll)
  then show ?thesis using a by (auto simp: db_ok_def distinct_delete)
qed

lemma chg_set_dict [chg_intros]: "chg {} {(d, k)} s t \<Longrightarrow> chg {} {(d, k)} s (upd_db d (\<lambda>r. r\<lparr>dict := AList.update k v (dict r)\<rparr>) t)"
  by (erule chg_step, rule chg_upd_db) (auto simp: db_ok_update update_conv')

lemma chg_del_expire [chg_intros]: "chg {} {(d, k)} s t \<Longrightarrow> chg {} {(d, k)} s (upd_db d (\<lambda>r. r\<lparr>expires := AList.delete k (expires r)\<rparr>) t)"
  by (erule chg_step, rule chg_upd_db) (auto simp: db_ok_del_expire delete_conv')

lemma chg_dbAdd [chg_intros]: "chg {} {(d, k)} s t \<Longrightarrow> chg {} {(d, k)} s (dbAdd d k v t)"
  unfolding dbAdd_def Let_def by (intro chg_intros)

lemma chg_dbOverwrite [chg_intros]: "chg {} {(d, k)} s t \<Longrightarrow> chg {} {(d, k)} s (dbOverwrite d k v t)"
  unfolding dbOverwrite_def Let_def by (intro chg_intros)

lemma chg_removeExpire [chg_intros]: "chg {} {(d, k)} s t \<Longrightarrow> chg {} {(d, k)} s (fst (removeExpire d k t))"
  unfolding removeExpire_def Let_def fst_conv by (intro chg_intros)

lemma chg_setExpire [chg_intros]: "chg {} {(d, k)} s t \<Longrightarrow> chg {} {(d, k)} s (setExpire d k w t)"
proof (erule chg_step)
  let ?b = "map_of (dict (db t ! d)) k \<noteq> None" let ?t = "serverAssert ?b t"
  have "chg {} {(d, k)} ?t (upd_db d (\<lambda>r. r\<lparr>expires := AList.update k w (expires r)\<rparr>) ?t)"
  proof (rule chg_upd_db)
    assume ok: "db_ok (db ?t ! d)"
    show "db_ok ((db ?t ! d)\<lparr>expires := AList.update k w (expires (db ?t ! d))\<rparr>) \<or> panicked ?t"
      using ok by (cases ?b) (auto simp: serverAssert_def db_ok_def dom_update distinct_update map_of_eq_None_iff split: if_splits)
  qed (auto simp: update_conv')
  then show "chg {} {(d, k)} t (setExpire d k w t)"
    unfolding setExpire_def Let_def using chg_step [OF chg_assert [OF chg_refl]] by blast
qed

lemma chg_dbSyncDelete [chg_intros]: "chg {} {(d, k)} s t \<Longrightarrow> chg {} {(d, k)} s (fst (dbSyncDelete d k t))"
proof (erule chg_step)
  let ?t = "upd_db d (\<lambda>r. r\<lparr>expires := AList.delete k (expires r)\<rparr>) t"
  have 1: "chg {} {(d, k)} t ?t" by (intro chg_intros chg_refl)
  have "chg {} {(d, k)} ?t (upd_db d (\<lambda>r. r\<lparr>dict := AList.delete k (dict r)\<rparr>) ?t)" if d: "d < length (db t)"
  proof (rule chg_upd_db)
    assume ok: "db_ok (db ?t ! d)"
    have "k \<notin> fst ` set (expires (db ?t ! d))" using d by (simp add: upd_db_def delete_notin_dom)
    then show "db_ok ((db ?t ! d)\<lparr>dict := AList.delete k (dict (db ?t ! d))\<rparr>) \<or> panicked ?t"
      using db_ok_del_dict [OF ok] by blast
  qed (auto simp: delete_conv')
  moreover have "upd_db d (\<lambda>r. r\<lparr>dict := AList.delete k (dict r)\<rparr>) ?t = ?t" if d: "\<not> d < length (db t)"
    using d by (simp add: upd_db_def list_update_beyond)
  ultimately have "chg {} {(d, k)} ?t (upd_db d (\<lambda>r. r\<lparr>dict := AList.delete k (dict r)\<rparr>) ?t)" by (cases "d < length (db t)") simp_all
  then show "chg {} {(d, k)} t (fst (dbSyncDelete d k t))" using 1 chg_step [OF 1] by (simp add: dbSyncDelete_def Let_def)
qed

lemma chg_dbDelete [chg_intros]: "chg {} {(d, k)} s t \<Longrightarrow> chg {} {(d, k)} s (fst (dbDelete d k t))"
  unfolding dbDelete_def by (intro chg_intros)

lemma chg_if [chg_intros]: "(b \<Longrightarrow> chg J K s t) \<Longrightarrow> (\<not> b \<Longrightarrow> chg J K s u) \<Longrightarrow> chg J K s (if b then t else u)"
  by simp

lemma chg_pair [chg_intros]: "(\<And>t x. p = (t, x) \<Longrightarrow> chg J K s (g t x)) \<Longrightarrow> chg J K s (case p of (t, x) \<Rightarrow> g t x)"
  by (cases p) auto

text \<open>Deleting a key whose time has run out is not a change.\<close>

lemma chg_expired: "chg {} {(d, k)} s t \<Longrightarrow> expired s d k \<or> \<not> d < length (db s) \<Longrightarrow> chg {} {} s t"
proof -
  assume a: "chg {} {(d, k)} s t" "expired s d k \<or> \<not> d < length (db s)"
  have "val t d k = val s d k \<or> expired s d k" using a by (auto simp: val_def chg_def)
  then show ?thesis using a(1) unfolding chg_def by (metis empty_iff singletonD prod.inject)
qed

lemma chg_feed: "chg {} {} s (propagateExpire d k lazy s)"
  by (rule chg_same) (auto simp: propagateExpire_def Let_def feedAppendOnlyFile_def replicationFeedSlaves_def)

lemma chg_stat: "chg {} {} s (s\<lparr>stat_expiredkeys := n\<rparr>)" "chg {} {} s (s\<lparr>stat_keyspace_hits := n\<rparr>)" "chg {} {} s (s\<lparr>stat_keyspace_misses := n\<rparr>)" "chg {} {} s (s\<lparr>stat_numcommands := n\<rparr>)"
  by (rule chg_same; simp)+

lemma chg_getExpire: "chg {} {} s (fst (getExpire d k s))"
  by (auto simp: getExpire_def intro: chg_intros split: option.split)

lemma getExpire_snd: "snd (getExpire d k s) = (case map_of (expires (db s ! d)) k of None \<Rightarrow> - 1 | Some w \<Rightarrow> w)"
  by (simp add: getExpire_def split: option.split)

lemma chg_expireIfNeeded: "chg {} {} s (fst (expireIfNeeded d k s))"
proof -
  obtain t w where t: "getExpire d k s = (t, w)" by (cases "getExpire d k s")
  have c: "chg {} {} s t" "sreply s t" using chg_getExpire [of s d k] t by (auto simp: getExpire_def split: option.splits)
  have sf: "mstime t = mstime s" "db t = db s" using sreply_fields [OF c(2)] by simp_all
  show ?thesis
  proof (cases "w < 0 \<or> loading t \<or> masterhost t \<or> mstime t \<le> w")
    case True then show ?thesis using t c by (auto simp: expireIfNeeded_def)
  next
    case False
    let ?t1 = "t\<lparr>stat_expiredkeys := stat_expiredkeys t + 1\<rparr>"
    let ?t2 = "propagateExpire d k (lazyfree_lazy_expire ?t1) ?t1" let ?t3 = "notifyKeyspaceEvent NOTIFY_EXPIRED ''expired'' k d ?t2"
    have e: "fst (expireIfNeeded d k s) = fst (dbSyncDelete d k ?t3)" using t False by (simp add: expireIfNeeded_def Let_def)
    have "chg {} {} s ?t3"
      by (rule chg_then_sreply [OF _ sreply_notify], rule chg_step [OF _ chg_feed], rule chg_step [OF c(1) chg_stat(1)])
    then have "chg {} {(d, k)} s (fst (dbSyncDelete d k ?t3))" using chg_mono by (intro chg_intros) blast
    moreover have "expired s d k \<or> \<not> d < length (db s)"
    proof -
      have "w = (case map_of (expires (db s ! d)) k of None \<Rightarrow> - 1 | Some w \<Rightarrow> w)" using getExpire_snd [of d k s] t by simp
      then show ?thesis using False sf by (auto simp: expired_def split: option.splits)
    qed
    ultimately show ?thesis using e chg_expired by simp
  qed
qed

lemma chg_lookup: "chg {} {} s (fst (lookupKeyWrite d k s))" "chg {} {} s (fst (lookupKeyReadWithFlags d k s))" "chg {} {} s (fst (lookupKeyRead d k s))"
proof -
  show "chg {} {} s (fst (lookupKeyWrite d k s))" using chg_expireIfNeeded [of s d k] by (simp add: lookupKeyWrite_def split_beta)
  show r: "chg {} {} s (fst (lookupKeyReadWithFlags d k s))"
    using chg_expireIfNeeded [of s d k] chg_step [OF chg_expireIfNeeded chg_stat(2)] chg_step [OF chg_expireIfNeeded chg_stat(3)]
    by (simp add: lookupKeyReadWithFlags_def split_beta split: option.split)
  then show "chg {} {} s (fst (lookupKeyRead d k s))" by (simp add: lookupKeyRead_def)
qed

lemma sig_ok_lookup [sig_intros]:
  "sig_ok J s (fst (expireIfNeeded d k s))" "sig_ok J s (fst (lookupKeyWrite d k s))" "sig_ok J s (fst (lookupKeyReadWithFlags d k s))" "sig_ok J s (fst (lookupKeyRead d k s))"
  "sig_ok J s (fst (getExpire d k s))"
  by (rule sig_ok_chg [OF chg_mono], rule chg_expireIfNeeded chg_lookup chg_getExpire, simp, simp)+

lemma sig_ok_lookup_reply [sig_intros]:
  "sig_ok J s (fst (lookupKeyReadOrReply i k rep s))" "sig_ok J s (fst (lookupKeyWriteOrReply i k rep s))"
  unfolding lookupKeyReadOrReply_def lookupKeyWriteOrReply_def Let_def by (intro conjI sig_intros)+

lemma sig_ok_helpers [sig_intros]:
  "sig_ok J s (fst (checkType i v t s))" "sig_ok J s (fst (getLongLongFromObjectOrReply i ob msg s))" "sig_ok J s (fst (getLongFromObjectOrReply i ob msg s))"
  "sig_ok J s (fst (checkStringLength i n s))"
  by (rule sig_ok_sreply, rule sreply_checkType sreply_getLL sreply_getL sreply_checkStringLength)+

section \<open>Signalling\<close>

lemma dirty_cas_simps: "db (dirty_cas i s) = db s" "clients_list (dirty_cas i s) = clients_list s" "mstime (dirty_cas i s) = mstime s" "panicked (dirty_cas i s) = panicked s"
    "watched_keys (clients (dirty_cas i s) j) = watched_keys (clients s j)" "cur_db (dirty_cas i s) j = cur_db s j" "hushed (clients (dirty_cas i s) j) = hushed (clients s j)" "is_dirty s j \<Longrightarrow> is_dirty (dirty_cas i s) j" "is_dirty (dirty_cas i s) i"
  by (auto simp: dirty_cas_def upd_client_def hushed_def)

lemma chg_dirty_cas: "chg {} {} s (dirty_cas i s)"
  by (rule chg_same) (simp_all add: dirty_cas_simps)

lemma chg_fold: "(\<And>x t. chg J K t (f x t)) \<Longrightarrow> chg J K s (fold f xs s)"
proof (induction xs arbitrary: s)
  case (Cons x xs)
  then show ?case using chg_step [OF Cons.prems [of s x] Cons.IH [of "f x s"]] by simp
qed simp

lemma fold_dirty_cas: "i \<in> set is \<or> is_dirty s i \<Longrightarrow> is_dirty (fold dirty_cas is s) i"
  by (induction "is" arbitrary: s) (auto simp: dirty_cas_simps)

lemma chg_signal: "chg {} {} s (signalModifiedKey d k s)"
  unfolding signalModifiedKey_def touchWatchedKey_def by (auto split: option.split intro: chg_fold chg_dirty_cas)

lemma signal_dirties: "server_ok s \<Longrightarrow> i \<in> set (clients_list s) \<Longrightarrow> (d, k) \<in> watches s i \<Longrightarrow> is_dirty (signalModifiedKey d k s) i"
proof -
  assume a: "server_ok s" "i \<in> set (clients_list s)" "(d, k) \<in> watches s i"
  then obtain cs where "map_of (db_watched_keys (db s ! d)) k = Some cs" "i \<in> set cs" unfolding server_ok_def watch_ok_def by blast
  then show ?thesis using fold_dirty_cas [of i cs s] by (simp add: signalModifiedKey_def touchWatchedKey_def)
qed

lemma sig_mod: "chg {} {(d, k)} s t \<Longrightarrow> sig {} {(d, k)} s (signalModifiedKey d k t)"
proof -
  assume a: "chg {} {(d, k)} s t"
  have "chg {} {(d, k)} s (signalModifiedKey d k t)" using chg_step [OF a chg_mono [OF chg_signal]] by simp
  moreover have "is_dirty (signalModifiedKey d k t) i" if "server_ok s" "i \<in> set (clients_list s)" "watches s i \<inter> {(d, k)} \<noteq> {}" for i
    using a that by (intro signal_dirties) (auto simp: chg_def)
  ultimately show ?thesis by (auto simp: sig_def)
qed

lemma sig_ok_mod [sig_intros]: "chg {} {(d, k)} s t \<Longrightarrow> sig_ok {} s (signalModifiedKey d k t)"
  using sig_mod [of d k s t] unfolding sig_ok_def by blast

lemma sig_then: "sig J K s t \<Longrightarrow> chg J K t u \<Longrightarrow> sig J K s u"
proof -
  assume a: "sig J K s t" "chg J K t u"
  have "\<forall>i. i \<notin> J \<longrightarrow> is_dirty t i \<longrightarrow> is_dirty u i" using a(2) by (simp add: chg_def)
  moreover have "panicked t \<longrightarrow> panicked u" using a(2) by (simp add: chg_def)
  moreover have "chg J K s u" using a(1) chg_step [OF _ a(2)] by (simp add: sig_def)
  ultimately show ?thesis using a(1) by (auto simp: sig_def)
qed

end
