(* ===== verification/Watch_Commands.thy ===== *)
theory Watch_Commands
  imports Watch_Frame
begin

text \<open>
  Every modelled command but MOVE, SWAPDB and PERSIST signals the keys it changes.
\<close>

section \<open>The commands\<close>

lemma chg_from_lookup: "chg {} {(d, k)} s (fst (lookupKeyWrite d k s))"
  by (rule chg_mono [OF chg_lookup(1)]) simp_all

lemma setKey_sig: "sig {} {(d, k)} s (setKey d k v s)"
proof -
  obtain t old where t: "lookupKeyWrite d k s = (t, old)" by (cases "lookupKeyWrite d k s")
  have "chg {} {(d, k)} s t" using chg_from_lookup [of d k s] t by simp
  then have "sig {} {(d, k)} s (signalModifiedKey d k (fst (removeExpire d k (if old = None then dbAdd d k v t else dbOverwrite d k v t))))"
    by (intro sig_mod chg_intros)
  then show ?thesis using t by (cases old) (simp_all add: setKey_def Let_def split_beta)
qed

lemma sig_ok_setKey [sig_intros]: "sig_ok {} s t \<Longrightarrow> sig_ok {} s (setKey d k v t)"
  using sig_ok_trans setKey_sig unfolding sig_ok_def by blast

lemma sig_ok_after: "sig_ok J s t \<Longrightarrow> sig J K t u \<Longrightarrow> sig_ok J s u"
  using sig_ok_trans unfolding sig_ok_def by blast

lemma sig_ok_lookup_then [sig_intros]: "sig_ok {} s (fst (case lookupKeyWrite d k s of (t, v) \<Rightarrow> (t, f v)))"
  using sig_ok_lookup(2) [of "{}" s d k] by (simp add: split_beta)

lemma sig_ok_set_expire [sig_intros]: "sig_ok {} s t \<Longrightarrow> sig_ok {} s (setExpire d k w (add_dirty n (setKey d k v t)))"
proof (erule sig_ok_trans)
  let ?u = "setKey d k v t"
  have "chg {} {(d, k)} ?u (add_dirty n ?u)" by (rule chg_mono [OF chg_add_dirty]) simp_all
  then have "chg {} {(d, k)} ?u (setExpire d k w (add_dirty n ?u))" by (intro chg_intros)
  then show "sig_ok {} t (setExpire d k w (add_dirty n ?u))" using sig_then [OF setKey_sig] unfolding sig_ok_def by blast
qed

lemma setGeneric_sig: "sig_ok {} s (setGenericCommand i fs key v ex sec okr ar s)"
  unfolding setGenericCommand_def Let_def by (intro sig_intros)

lemma string_commands_sig:
  "sig_ok {} s (setCommand i s)" "sig_ok {} s (setnxCommand i s)" "sig_ok {} s (setexCommand i s)" "sig_ok {} s (psetexCommand i s)"
  by (auto simp: setCommand_def setnxCommand_def setexCommand_def psetexCommand_def Let_def setGeneric_sig sig_ok_replies split: option.split)

lemma mod_sig:
  "chg {} {(d, k)} s t \<Longrightarrow> sig_ok {} s (reply_ll i n (add_dirty 1 (notifyKeyspaceEvent cls ev k d (signalModifiedKey d k t))))"
  by (intro sig_intros)

text \<open>A part of a command that changes a key, and returns nothing when it changed nothing.\<close>

definition may_chg :: "nat \<Rightarrow> byte list \<Rightarrow> server \<Rightarrow> server \<times> 'a option \<Rightarrow> bool" where
  "may_chg d k s p \<longleftrightarrow> chg {} (if snd p = None then {} else {(d, k)}) s (fst p)"

lemma may_chgI: "chg {} {} s t \<Longrightarrow> may_chg d k s (t, x)" "chg {} {(d, k)} s t \<Longrightarrow> may_chg d k s (t, Some y)"
  by (auto simp: may_chg_def intro: chg_mono)

lemma may_chg_pair: "chg {} {} s (fst p) \<Longrightarrow> (\<And>t x. p = (t, x) \<Longrightarrow> may_chg d k t (g t x)) \<Longrightarrow> may_chg d k s (case p of (t, x) \<Rightarrow> g t x)"
  using chg_trans [of "{}" "{}" s "fst p" "{}"] by (cases p) (simp add: may_chg_def)

lemma chg_reply: "sreply s t \<Longrightarrow> chg {} {} s t" by (rule chg_sreply)

lemma chg_unshare: "chg {} {(d, k)} s (fst (dbUnshareStringValue d k v s))"
  by (auto simp: dbUnshareStringValue_def Let_def split: strobj.split intro!: chg_intros)

lemma may_chg_setrange: "may_chg d k s (setrange_target i d k v n s)"
  unfolding setrange_target_def Let_def
proof (rule may_chg_pair [OF chg_lookup(1)])
  fix t ob
  obtain u ok where u: "checkStringLength i (sint n) t = (u, ok)" by (cases "checkStringLength i (sint n) t")
  have c: "chg {} {} t u" using chg_sreply [OF sreply_checkStringLength [of t i "sint n"]] u by simp
  have c': "chg {} {(d, k)} t u" by (rule chg_mono [OF c]) simp_all
  have a: "may_chg d k t (dbAdd d k w (zmalloc_ok m u), Some y)" for w m and y :: "byte list"
    using c' by (intro may_chgI(2) chg_intros)
  have b: "may_chg d k t (case dbUnshareStringValue d k ob u of (s, ob) \<Rightarrow> (s, Some (f ob)))" for ob and f :: "strobj \<Rightarrow> byte list"
    using chg_step [OF c' chg_unshare [of d k u ob]] by (simp add: split_beta may_chg_def)
  show "may_chg d k t (case ob of
       None \<Rightarrow> if v = [] then (reply_obj i shared_czero t, None)
         else (case checkStringLength i (sint n) t of (s, ok) \<Rightarrow> if \<not> ok then (s, None)
           else (dbAdd d k (OBJ_STRING (OBJ_ENCODING_RAW (replicate (unat n) 0))) (zmalloc_ok (unat n + 1) s), Some (replicate (unat n) 0)))
     | Some (OBJ_STRING ob) \<Rightarrow> if v = [] then (reply_ll i (int (stringObjectLen ob)) t, None)
         else (case checkStringLength i (sint n) t of (s, ok) \<Rightarrow> if \<not> ok then (s, None)
           else (case dbUnshareStringValue d k ob s of (s, ob) \<Rightarrow> (s, Some (getDecodedObject ob))))
     | Some _ \<Rightarrow> (reply_obj i shared_wrongtypeerr t, None))"
    using a b by (auto simp: u intro!: may_chgI(1) [OF chg_sreply] may_chgI(1) [OF c] split: option.split robj.split)
qed

lemma setrange_sig: "sig_ok {} s (setrangeCommand i s)"
proof -
  have m: "sig_ok {} t (case setrange_target i d k v n t of (s, str) \<Rightarrow> (case str of None \<Rightarrow> s | Some str \<Rightarrow>
        reply_ll i (l str) (add_dirty 1 (notifyKeyspaceEvent NOTIFY_STRING ''setrange'' k d (signalModifiedKey d k
          (upd_db d (\<lambda>r. r\<lparr>dict := AList.update k (f str) (dict r)\<rparr>) (if b str then zmalloc_ok m s else s)))))))" for t d k v n l f b m
  proof -
    obtain u str where u: "setrange_target i d k v n t = (u, str)" by (cases "setrange_target i d k v n t")
    have c: "may_chg d k t (u, str)" using may_chg_setrange [of d k t i v n] u by simp
    show ?thesis
    proof (cases str)
      case None then show ?thesis using u c sig_ok_chg by (simp add: may_chg_def)
    next
      case (Some x)
      then have "chg {} {(d, k)} t u" using c by (simp add: may_chg_def)
      then have "chg {} {(d, k)} t (upd_db d (\<lambda>r. r\<lparr>dict := AList.update k (f x) (dict r)\<rparr>) (if b x then zmalloc_ok m u else u))" by (intro chg_intros)
      then show ?thesis using u Some mod_sig by simp
    qed
  qed
  show ?thesis unfolding setrangeCommand_def Let_def by (intro sig_ok_pair sig_ok_option sig_ok_if sig_ok_helpers sig_ok_replies sig_ok_refl m)
qed

lemma may_chg_append: "may_chg d k s (append_value i d k v s)"
  unfolding append_value_def Let_def
proof (rule may_chg_pair [OF chg_lookup(1)])
  fix t ob
  have a: "may_chg d k t (dbAdd d k w t, Some y)" for w and y :: nat by (intro may_chgI(2) chg_intros chg_refl)
  have b: "may_chg d k t (case checkStringLength i m t of (s, ok) \<Rightarrow> if \<not> ok then (s, None)
      else (case dbUnshareStringValue d k ob s of (s, v) \<Rightarrow> (upd_db d (\<lambda>r. r\<lparr>dict := AList.update k (f v) (dict r)\<rparr>) s, Some (g v))))" for m ob f and g :: "strobj \<Rightarrow> nat"
  proof -
    obtain u ok where u: "checkStringLength i m t = (u, ok)" by (cases "checkStringLength i m t")
    obtain w v where w: "dbUnshareStringValue d k ob u = (w, v)" by (cases "dbUnshareStringValue d k ob u")
    have c: "chg {} {} t u" using chg_sreply [OF sreply_checkStringLength [of t i m]] u by simp
    have "chg {} {(d, k)} t u" by (rule chg_mono [OF c]) simp_all
    then have "chg {} {(d, k)} t w" using chg_step [OF _ chg_unshare [of d k u ob]] w by simp
    then have "may_chg d k t (upd_db d (\<lambda>r. r\<lparr>dict := AList.update k (f v) (dict r)\<rparr>) w, Some (g v))" by (intro may_chgI(2) chg_intros)
    then show ?thesis using u w may_chgI(1) [OF c, of d k "None :: nat option"] by simp
  qed
  show "may_chg d k t (case ob of
       None \<Rightarrow> (dbAdd d k (OBJ_STRING (arg_value v)) t, Some (stringObjectLen (arg_value v)))
     | Some (OBJ_STRING w) \<Rightarrow> (case checkStringLength i (int (stringObjectLen w + length v)) t of (s, ok) \<Rightarrow> if \<not> ok then (s, None)
         else (case dbUnshareStringValue d k w s of (s, w) \<Rightarrow>
           (upd_db d (\<lambda>r. r\<lparr>dict := AList.update k (OBJ_STRING (OBJ_ENCODING_RAW (getDecodedObject w @ v))) (dict r)\<rparr>) s, Some (length (getDecodedObject w @ v)))))
     | Some _ \<Rightarrow> (reply_obj i shared_wrongtypeerr t, None))"
    using a b [where f = "\<lambda>w. OBJ_STRING (OBJ_ENCODING_RAW (getDecodedObject w @ v))" and g = "\<lambda>w. length (getDecodedObject w @ v)"]
    by (auto intro!: may_chgI(1) [OF chg_sreply] simp del: of_nat_add length_append split: option.split robj.split)
qed

lemma append_sig: "sig_ok {} s (appendCommand i s)"
proof -
  let ?d = "cur_db s i" let ?k = "cargs s i ! 1"
  obtain u str where u: "append_value i ?d ?k (cargs s i ! 2) s = (u, str)" by (cases "append_value i ?d ?k (cargs s i ! 2) s")
  have c: "may_chg ?d ?k s (u, str)" using may_chg_append [of ?d ?k s i "cargs s i ! 2"] u by simp
  show ?thesis
  proof (cases str)
    case None then show ?thesis using u c sig_ok_chg by (simp add: may_chg_def appendCommand_def Let_def)
  next
    case (Some x)
    then have "chg {} {(?d, ?k)} s u" using c by (simp add: may_chg_def)
    then show ?thesis using u Some mod_sig by (simp add: appendCommand_def Let_def)
  qed
qed

lemma getGeneric_sig [sig_intros]: "sig_ok {} s (fst (getGenericCommand i s))"
  unfolding getGenericCommand_def Let_def by (intro sig_intros)

lemma get_sig: "sig_ok {} s (getCommand i s)" "sig_ok {} s (getsetCommand i s)"
  unfolding getCommand_def getsetCommand_def Let_def by (intro sig_intros)+

lemma getrange_sig: "sig_ok {} s (getrangeCommand i s)"
  unfolding getrangeCommand_def Let_def by (intro sig_intros)

lemma sig_ok_fold' [sig_intros]: "sig_ok J s t \<Longrightarrow> (\<And>x t. sig_ok J t (f x t)) \<Longrightarrow> sig_ok J s (fold f xs t)"
  using sig_ok_trans sig_ok_fold by blast

lemma mget_sig: "sig_ok {} s (mgetCommand i s)"
  unfolding mgetCommand_def mget_key_def Let_def by (intro sig_intros)

lemma mset_sig: "sig_ok {} s (msetGenericCommand i nx s)"
proof -
  have b: "sig_ok {} t (fst (fold (busy_key d) xs (t, n)))" for d xs t n
    by (rule sig_ok_fold_pair) (auto simp: busy_key_def split_beta sig_ok_lookup)
  have m: "sig_ok {} t (fold (mset_key d) xs t)" for d xs t
    by (rule sig_ok_fold) (auto simp: mset_key_def intro!: sig_intros)
  show ?thesis unfolding msetGenericCommand_def Let_def by (intro sig_intros b m)
qed

lemma incr_sig: "sig_ok {} s (incrDecrCommand i n s)"
proof -
  let ?d = "cur_db s i" let ?k = "cargs s i ! 1"
  obtain t ob where t: "lookupKeyWrite ?d ?k s = (t, ob)" by (cases "lookupKeyWrite ?d ?k s")
  have c: "sig_ok {} s t" using sig_ok_lookup(2) [of "{}" s ?d ?k] t by simp
  have m: "sig_ok {} u (signalModifiedKey ?d ?k (if ob \<noteq> None then dbOverwrite ?d ?k v u else dbAdd ?d ?k v u))" for u v
    by (intro sig_intros chg_intros chg_refl)
  have "sig_ok {} t (incrDecrCommand i n s)" unfolding incrDecrCommand_def Let_def t prod.case
    by (intro sig_intros m)
  then show ?thesis using sig_ok_trans c by blast
qed

lemma counter_sig: "sig_ok {} s (incrCommand i s)" "sig_ok {} s (decrCommand i s)" "sig_ok {} s (incrbyCommand i s)" "sig_ok {} s (decrbyCommand i s)"
  unfolding incrCommand_def decrCommand_def incrbyCommand_def decrbyCommand_def by (intro sig_intros incr_sig)+

lemma strlen_sig: "sig_ok {} s (strlenCommand i s)"
  unfolding strlenCommand_def Let_def by (intro sig_intros)

lemma delete_absent: "k \<notin> fst ` set xs \<Longrightarrow> AList.delete k xs = xs"
  by (induction xs) auto

text \<open>Deleting a key that is not there changes nothing in a well formed database.\<close>

lemma delete_absent_sig: "map_of (dict (db s ! d)) k = None \<Longrightarrow> sig_ok {} s (fst (dbSyncDelete d k s))"
proof (cases "server_ok s \<and> \<not> panicked s \<and> d < length (db s)")
  case False
  assume a: "map_of (dict (db s ! d)) k = None"
  have c: "chg {} {(d, k)} s (fst (dbSyncDelete d k s))" by (intro chg_intros chg_refl)
  show ?thesis
  proof (cases "d < length (db s)")
    case False
    then have "fst (dbSyncDelete d k s) = s" using a by (simp add: dbSyncDelete_def upd_db_def list_update_beyond)
    then show ?thesis by simp
  next
    case True
    then have "\<not> server_ok s \<or> panicked (fst (dbSyncDelete d k s))" using False c by (auto simp: chg_def)
    then show ?thesis using c by (auto simp: sig_ok_def sig_def)
  qed
next
  case True
  assume a: "map_of (dict (db s ! d)) k = None"
  have "db_ok (db s ! d)" using True nth_mem by (auto simp: server_ok_def)
  then have "k \<notin> fst ` set (expires (db s ! d))" using a by (auto simp: db_ok_def map_of_eq_None_iff)
  then have "upd_db d (\<lambda>r. r\<lparr>expires := AList.delete k (expires r)\<rparr>) s = s" by (simp add: upd_db_def delete_absent)
  then have "fst (dbSyncDelete d k s) = s" using a by (simp add: dbSyncDelete_def Let_def)
  then show ?thesis by simp
qed

lemma del_key_sig: "sig_ok {} s (fst (del_key i k (s, n)))"
proof -
  obtain t b where t: "expireIfNeeded (cur_db s i) k s = (t, b)" by (cases "expireIfNeeded (cur_db s i) k s")
  let ?d = "cur_db t i"
  obtain u del where u: "dbDelete ?d k t = (u, del)" by (cases "dbDelete ?d k t")
  have c: "sig_ok {} s t" using sig_ok_lookup(1) [of "{}" s "cur_db s i" k] t by simp
  have cu: "chg {} {(?d, k)} t u" using chg_dbDelete [OF chg_refl, of ?d k t] u by simp
  have d: "cur_db u i = ?d" using u by (auto simp: dbDelete_def dbSyncDelete_def Let_def upd_db_def split: if_splits)
  have "sig_ok {} t (fst (del_key i k (s, n)))"
  proof (cases del)
    case True
    have "sig_ok {} t (add_dirty 1 (notifyKeyspaceEvent NOTIFY_GENERIC ''del'' k (cur_db (signalModifiedKey ?d k u) i) (signalModifiedKey ?d k u)))"
      using cu by (intro sig_intros)
    then show ?thesis using t u d True by (simp add: del_key_def Let_def)
  next
    case False
    then have "map_of (dict (db t ! ?d)) k = None" using u
      by (cases "?d < length (db t)") (auto simp: dbDelete_def dbSyncDelete_def Let_def upd_db_def list_update_beyond split: if_splits)
    then have "sig_ok {} t u" using delete_absent_sig [of t ?d k] u by (simp add: dbDelete_def)
    then show ?thesis using t u False by (simp add: del_key_def)
  qed
  then show ?thesis using sig_ok_trans c by blast
qed

lemma del_sig: "sig_ok {} s (delGenericCommand i s)"
  unfolding delGenericCommand_def Let_def by (intro sig_intros sig_ok_fold_pair del_key_sig)

lemma sig_mod2: "chg {} {(d, a), (d, b)} s t \<Longrightarrow> sig_ok {} s (signalModifiedKey d b (signalModifiedKey d a t))"
proof -
  let ?t = "signalModifiedKey d a t" let ?u = "signalModifiedKey d b ?t" let ?K = "{(d, a), (d, b)}"
  assume c: "chg {} ?K s t"
  have m: "chg {} ?K t ?t" "chg {} ?K ?t ?u" by (rule chg_mono [OF chg_signal]; simp)+
  have ct: "chg {} ?K s ?t" using chg_step [OF c m(1)] .
  have cu: "chg {} ?K s ?u" using chg_step [OF ct m(2)] .
  have "is_dirty ?u i" if w: "server_ok s" "i \<in> set (clients_list s)" "watches s i \<inter> ?K \<noteq> {}" for i
  proof (cases "(d, a) \<in> watches s i")
    case True
    then have "is_dirty ?t i" using c w by (intro signal_dirties) (auto simp: chg_def)
    then show ?thesis using m(2) by (simp add: chg_def)
  next
    case False
    then have "(d, b) \<in> watches s i" using w(3) by blast
    then show ?thesis using ct w by (intro signal_dirties) (auto simp: chg_def)
  qed
  then show ?thesis using cu by (auto simp: sig_ok_def sig_def)
qed

lemma rename_sig: "sig_ok {} s (renameGenericCommand i nx s)"
proof -
  have m: "sig_ok {} t (case dbDelete d a (if e then setExpire d b w (dbAdd d b ob (if b' then fst (dbDelete d b t) else t)) else dbAdd d b ob (if b' then fst (dbDelete d b t) else t)) of
      (u, x) \<Rightarrow> reply_obj i r (add_dirty 1 (notifyKeyspaceEvent NOTIFY_GENERIC ''rename_to'' b d (notifyKeyspaceEvent NOTIFY_GENERIC ''rename_from'' a d
        (signalModifiedKey d b (signalModifiedKey d a u))))))" for t d a b e w ob b' r
  proof -
    let ?u = "if e then setExpire d b w (dbAdd d b ob (if b' then fst (dbDelete d b t) else t)) else dbAdd d b ob (if b' then fst (dbDelete d b t) else t)"
    have u: "chg {} {(d, b)} t ?u" by (intro chg_intros chg_refl)
    have "chg {} {(d, a)} ?u (fst (dbDelete d a ?u))" by (intro chg_intros chg_refl)
    then have "chg {} {(d, a), (d, b)} t (fst (dbDelete d a ?u))" using chg_trans [OF u, of "{}" "{(d, a)}"] by (simp add: insert_commute del: if_split)
    then have "sig_ok {} t (signalModifiedKey d b (signalModifiedKey d a (fst (dbDelete d a ?u))))" by (rule sig_mod2)
    then show ?thesis unfolding split_beta by (intro sig_ok_replies sig_ok_add_dirty)
  qed
  show ?thesis unfolding renameGenericCommand_def Let_def
    by (intro m sig_ok_pair sig_ok_option sig_ok_if sig_ok_lookup sig_ok_lookup_reply sig_ok_replies sig_ok_refl)
qed

lemma exists_sig: "sig_ok {} s (existsCommand i s)" "sig_ok {} s (touchCommand i s)"
proof -
  have "sig_ok {} s (fst (fold (exists_key i) xs (s, 0)))" for xs
    by (rule sig_ok_fold_pair) (auto simp: exists_key_def split_beta sig_ok_lookup)
  then show "sig_ok {} s (existsCommand i s)" unfolding existsCommand_def Let_def by (intro sig_intros)
  have "sig_ok {} s (fst (fold (touch_key i) xs (s, 0)))" for xs
    by (rule sig_ok_fold_pair) (auto simp: touch_key_def split_beta sig_ok_lookup)
  then show "sig_ok {} s (touchCommand i s)" unfolding touchCommand_def Let_def by (intro sig_intros)
qed

lemma chg_selectDb: "chg {} {} s (fst (selectDb i n s))"
  by (rule chg_same) (auto simp: selectDb_def upd_client_def)

lemma selectDb_sig: "sig_ok {} s (fst (selectDb i n s))"
  by (rule sig_ok_chg, rule chg_selectDb)

lemma select_sig: "sig_ok {} s (selectCommand i s)"
  unfolding selectCommand_def Let_def by (intro sig_intros selectDb_sig)

lemma keys_loop_sig: "sig_ok {} s (fst (keys_loop i p ks s))"
proof (induction ks arbitrary: s)
  case (Cons k ks)
  obtain t e where t: "expireIfNeeded (cur_db s i) k s = (t, e)" by (cases "expireIfNeeded (cur_db s i) k s")
  have c: "sig_ok {} s t" using sig_ok_lookup(1) [of "{}" s "cur_db s i" k] t by simp
  have "sig_ok {} s (fst (keys_loop i p ks t))" using sig_ok_trans [OF c Cons.IH] .
  moreover have "sig_ok {} s (fst (keys_loop i p ks (reply_bulk i ob t)))" for ob
    using sig_ok_trans [OF sig_ok_replies(2) [OF c] Cons.IH] .
  ultimately show ?case using Cons.IH [of s] t by (auto simp: Let_def split_beta sig_ok_replies split: option.split bool.split)
qed simp

lemma deferred_sig:
  assumes "\<And>c t. sig_ok {} t (fst (g c t))"
  shows "sig_ok {} s (case addDeferredMultiBulkLength (clients s i) of (c, node) \<Rightarrow>
    (case g c (upd_client i (\<lambda>_. c) s) of (t, n) \<Rightarrow> upd_client i (\<lambda>c. setDeferredMultiBulkLength (ocfg t) c node (of_nat n)) t))"
proof -
  obtain c n where c: "addDeferredMultiBulkLength (clients s i) = (c, n)" by (cases "addDeferredMultiBulkLength (clients s i)")
  have "creply (clients s i) c" using creply_deferred [of "clients s i"] c by simp
  then have a: "sig_ok {} s (upd_client i (\<lambda>_. c) s)" by (intro sig_ok_sreply) (simp add: sreply_def upd_client_def core_def)
  show ?thesis unfolding c prod.case
    by (rule sig_ok_trans [OF a]) (intro sig_ok_pair assms sig_ok_sreply sreply_upd creply_rules)
qed

lemma keys_sig: "sig_ok {} s (keysCommand i s)"
  using deferred_sig [where g = "\<lambda>c t. keys_loop i (cargs t i ! 1) (map fst (dict (db t ! cur_db t i))) t", OF keys_loop_sig]
  unfolding keysCommand_def Let_def .

lemma type_sig: "sig_ok {} s (typeCommand i s)" "sig_ok {} s (dbsizeCommand i s)" "sig_ok {} s (ttlGenericCommand i ms s)"
  unfolding typeCommand_def dbsizeCommand_def ttlGenericCommand_def Let_def by (intro sig_intros sig_ok_sreply [OF sreply_upd] creply_rules)+

section \<open>Times to live\<close>

lemma chg_client:
  assumes "watched_keys (f (clients s i)) = watched_keys (clients s i)" "cdb (f (clients s i)) = cur_db s i \<or> cdb (f (clients s i)) < length (db s)"
    "is_dirty s i \<Longrightarrow> CLIENT_DIRTY_CAS \<in> flags (f (clients s i))" "hushed (f (clients s i)) \<subseteq> hushed (clients s i)"
  shows "chg {} {} s (upd_client i f s)"
  by (rule chg_same) (use assms in \<open>auto simp: upd_client_def\<close>)

lemma chg_rewrite: "chg {} {} s (rewriteClientCommandVector i av s)"
  unfolding rewriteClientCommandVector_def by (cases "lookupCommand (av ! 0)") (simp_all add: chg_sreply chg_client)

lemma chg_step0: "chg {} K s t \<Longrightarrow> chg {} {} t u \<Longrightarrow> chg {} K s u"
  by (erule chg_step, erule chg_mono) simp_all

lemma chg_more [chg_intros]: "chg {} K s t \<Longrightarrow> chg {} K s (add_dirty n t)" "chg {} K s t \<Longrightarrow> chg {} K s (rewriteClientCommandVector i av t)"
  "chg {} K s t \<Longrightarrow> chg {} K s (reply_obj i ob t)"
  by (erule chg_step0, rule chg_add_dirty chg_rewrite chg_sreply, (rule sreply_replies)?)+

lemma expire_sig: "sig_ok {} s (expireGenericCommand i b sec s)"
proof -
  have d: "sig_ok {} t (case dbSyncDelete d k t of (u, del) \<Rightarrow> reply_obj i r (notifyKeyspaceEvent NOTIFY_GENERIC ''del'' k d
      (signalModifiedKey d k (rewriteClientCommandVector i [if lazyfree_lazy_expire (add_dirty 1 (serverAssert del u)) then x else y, k] (add_dirty 1 (serverAssert del u))))))" for t d k r x y
  proof -
    show ?thesis unfolding split_beta by (intro sig_intros chg_intros chg_refl)
  qed
  have e: "sig_ok {} t (add_dirty 1 (notifyKeyspaceEvent NOTIFY_GENERIC ''expire'' k d (signalModifiedKey d k (reply_obj i r (setExpire d k w t)))))" for t d k r w
    by (intro sig_intros chg_intros chg_refl)
  show ?thesis unfolding expireGenericCommand_def Let_def
    by (intro d e sig_ok_pair sig_ok_option sig_ok_if sig_ok_lookup sig_ok_helpers sig_ok_replies sig_ok_refl)
qed

section \<open>Flushing\<close>

definition fsame :: "server \<Rightarrow> server \<Rightarrow> bool" where
  "fsame s t \<longleftrightarrow> db t = db s \<and> (\<forall>j. watched_keys (clients t j) = watched_keys (clients s j) \<and> (is_dirty s j \<longrightarrow> is_dirty t j))"

lemma fsame_fold: "(\<And>x t. fsame t (f x t)) \<Longrightarrow> fsame s (fold f xs s)"
proof (induction xs arbitrary: s)
  case (Cons x xs)
  show ?case using Cons.IH [OF Cons.prems, of "f x s"] Cons.prems [of s x] by (simp add: fsame_def)
qed (simp add: fsame_def)

lemma fsame_touch: "fsame s (touch_on_flush dn i wk s)"
  by (auto simp: fsame_def touch_on_flush_def dirty_cas_simps)

lemma fold_marks:
  "x \<in> set xs \<Longrightarrow> (\<And>x t. fsame t (f x t)) \<Longrightarrow> (\<And>t. fsame s t \<Longrightarrow> is_dirty (f x t) i) \<Longrightarrow> is_dirty (fold f xs s) i"
proof (induction xs arbitrary: s)
  case (Cons y ys)
  have m: "fsame (f y s) (fold f ys (f y s))" by (rule fsame_fold, rule Cons.prems(2))
  show ?case
  proof (cases "x = y")
    case True
    have "is_dirty (f y s) i" using Cons.prems(3) [of s] True by (simp add: fsame_def)
    then show ?thesis using m by (simp add: fsame_def)
  next
    case False
    have "is_dirty (f x t) i" if "fsame (f y s) t" for t using Cons.prems(2) [of s y] Cons.prems(3) [of t] that by (simp add: fsame_def)
    then show ?thesis using Cons.IH [of "f y s"] Cons.prems(1,2) False by simp
  qed
qed simp

lemma flush_marks:
  assumes "i \<in> set (clients_list s)" "(d, k) \<in> watches s i" "dn = None \<or> dn = Some d" "map_of (dict (db s ! d)) k \<noteq> None"
  shows "is_dirty (signalFlushedDb dn s) i"
  unfolding signalFlushedDb_def touchWatchedKeysOnFlush_def
proof (rule fold_marks [OF assms(1)])
  show "fsame t (fold (touch_on_flush dn j) (watched_keys (clients t j)) t)" for j t by (rule fsame_fold, rule fsame_touch)
  fix t assume t: "fsame s t"
  have w: "(d, k) \<in> set (watched_keys (clients t i))" using assms(2) t by (simp add: fsame_def)
  show "is_dirty (fold (touch_on_flush dn i) (watched_keys (clients t i)) t) i"
  proof (rule fold_marks [OF w])
    fix u assume "fsame t u"
    then have "db u = db s" using t by (simp add: fsame_def)
    then show "is_dirty (touch_on_flush dn i (d, k) u) i" using assms(3,4) by (auto simp: touch_on_flush_def dirty_cas_simps)
  qed (rule fsame_touch)
qed

lemma chg_flush_signal: "chg {} {} s (signalFlushedDb dn s)"
proof -
  have "chg {} {} t (touch_on_flush dn j wk t)" for t j wk by (cases wk) (auto simp: touch_on_flush_def chg_dirty_cas)
  then show ?thesis unfolding signalFlushedDb_def touchWatchedKeysOnFlush_def by (intro chg_fold)
qed

lemma cur_db_flush: "cur_db (signalFlushedDb dn s) i = cur_db s i"
proof -
  have t: "cur_db (fold (touch_on_flush dn j) wks t) i = cur_db t i" for j wks t
    by (induction wks arbitrary: t) (simp_all add: touch_on_flush_def dirty_cas_simps)
  have "cur_db (fold (\<lambda>j u. fold (touch_on_flush dn j) (watched_keys (clients u j)) u) js t) i = cur_db t i" for js t
    by (induction js arbitrary: t) (simp_all add: t)
  then show ?thesis by (simp add: signalFlushedDb_def touchWatchedKeysOnFlush_def)
qed

lemma fsame_flush_signal: "fsame s (signalFlushedDb dn s)"
  unfolding signalFlushedDb_def touchWatchedKeysOnFlush_def by (intro fsame_fold fsame_touch)

lemma chg_db:
  assumes "length d' = length (db s)" "\<And>e. e < length d' \<Longrightarrow> db_watched_keys (d' ! e) = db_watched_keys (db s ! e)" "(\<forall>r \<in> set (db s). db_ok r) \<Longrightarrow> \<forall>r \<in> set d'. db_ok r"
    "\<And>e k. e < length (db s) \<Longrightarrow> (e, k) \<notin> K \<Longrightarrow> map_of (dict (d' ! e)) k = map_of (dict (db s ! e)) k \<and> map_of (expires (d' ! e)) k = map_of (expires (db s ! e)) k"
  shows "chg {} K s (s\<lparr>db := d'\<rparr>)"
proof -
  have "server_ok s \<longrightarrow> server_ok (s\<lparr>db := d'\<rparr>)" using assms(1-3) by (fastforce simp: server_ok_def watch_ok_def)
  then show ?thesis using assms(1,4) by (simp add: chg_def val_def)
qed

text \<open>The keys a flush removes are marked beforehand for all their watchers.\<close>

lemma flush_sig: "sig_ok {} s (fst (emptyDb dn (signalFlushedDb dn s)))"
proof -
  let ?t = "signalFlushedDb dn s" let ?u = "fst (emptyDb dn ?t)" let ?d = "\<lambda>r. r\<lparr>dict := [], expires := []\<rparr>"
  define hit where "hit e \<longleftrightarrow> dn = None \<or> dn = Some e" for e
  define K where "K = {(e, k). e < length (db s) \<and> hit e \<and> (map_of (dict (db s ! e)) k \<noteq> None \<or> map_of (expires (db s ! e)) k \<noteq> None)}"
  have t: "db ?t = db s" "clients_list ?t = clients_list s" using fsame_flush_signal [of s dn] chg_flush_signal [of s dn] by (auto simp: fsame_def chg_def)
  define d' where "d' = (case dn of None \<Rightarrow> map ?d (db s) | Some d \<Rightarrow> (db s)[d := ?d (db s ! d)])"
  have u: "?u = ?t\<lparr>db := d'\<rparr>" using t by (auto simp: emptyDb_def d'_def upd_db_def list_update_beyond split: option.split)
  have len: "length d' = length (db s)" by (simp add: d'_def split: option.split)
  have n: "d' ! e = (if hit e then ?d (db s ! e) else db s ! e)" if "e < length (db s)" for e
    using that by (auto simp: d'_def hit_def nth_list_update split: option.split)
  have c: "chg {} K ?t ?u" unfolding u
  proof (rule chg_db)
    show "\<forall>r \<in> set d'. db_ok r" if "\<forall>r \<in> set (db ?t). db_ok r"
    proof
      fix r assume "r \<in> set d'"
      then obtain e where e: "e < length (db s)" "r = d' ! e" using len by (auto simp: in_set_conv_nth)
      have "db_ok (db s ! e)" using that t e(1) nth_mem by auto
      moreover have "db_ok (?d (db s ! e))" by (simp add: db_ok_def)
      ultimately show "db_ok r" using n [OF e(1)] e(2) by simp
    qed
    show "map_of (dict (d' ! e)) k = map_of (dict (db ?t ! e)) k \<and> map_of (expires (d' ! e)) k = map_of (expires (db ?t ! e)) k" if "e < length (db ?t)" "(e, k) \<notin> K" for e k
      using that t n [of e] by (auto simp: K_def)
  qed (use t n len in auto)
  have "chg {} K s ?u" using chg_trans [OF chg_flush_signal c] by simp
  moreover have "is_dirty ?u i" if w: "server_ok s" "\<not> panicked ?u" "i \<in> set (clients_list s)" "watches s i \<inter> K \<noteq> {}" for i
  proof -
    obtain e k where ek: "(e, k) \<in> watches s i" "(e, k) \<in> K" using w(4) by auto
    have "\<not> panicked s" using w(2) \<open>chg {} K s ?u\<close> by (auto simp: chg_def)
    then have "db_ok (db s ! e)" using w(1) ek(2) nth_mem by (auto simp: server_ok_def K_def)
    then have "map_of (dict (db s ! e)) k \<noteq> None" using ek(2) unfolding K_def db_ok_def by (auto simp: map_of_eq_None_iff)
    then have "is_dirty ?t i" using flush_marks [OF w(3) ek(1)] ek(2) by (auto simp: K_def hit_def)
    then show ?thesis using c by (simp add: chg_def)
  qed
  ultimately show ?thesis unfolding sig_ok_def sig_def by blast
qed

lemma flushdb_sig: "sig_ok {} s (flushdbCommand i s)" "sig_ok {} s (flushallCommand i s)"
proof -
  have g: "sig_ok {} s (fst (getFlushCommandFlags i s))" by (simp add: getFlushCommandFlags_def sig_ok_replies)
  have f: "sig_ok {} t (case emptyDb (Some (cur_db (signalFlushedDb (Some (cur_db t i)) t) i)) (signalFlushedDb (Some (cur_db t i)) t) of
    (u, n) \<Rightarrow> reply_obj i r (add_dirty n u))" for t r
  proof -
    have "cur_db (signalFlushedDb (Some (cur_db t i)) t) i = cur_db t i" by (rule cur_db_flush)
    then show ?thesis using flush_sig [of t "Some (cur_db t i)"] by (simp add: split_beta sig_ok_replies sig_ok_add_dirty)
  qed
  show "sig_ok {} s (flushdbCommand i s)" unfolding flushdbCommand_def Let_def by (intro sig_ok_pair g sig_ok_if sig_ok_refl f)
  have f: "sig_ok {} t (case emptyDb None (signalFlushedDb None t) of (u, n) \<Rightarrow> add_dirty 1 (reply_obj i r (add_dirty n u)))" for t r
    using flush_sig [of t None] by (simp add: split_beta sig_ok_replies sig_ok_add_dirty)
  show "sig_ok {} s (flushallCommand i s)" unfolding flushallCommand_def Let_def by (intro sig_ok_pair g sig_ok_if sig_ok_refl f)
qed

section \<open>Commands that do not touch the databases\<close>

lemma connection_sig: "sig_ok {} s (authCommand i s)" "sig_ok {} s (pingCommand i s)" "sig_ok {} s (echoCommand i s)" "sig_ok {} s (multiCommand i s)"
proof -
  have a: "sig_ok {} s (upd_client i (\<lambda>c. c\<lparr>authenticated := b\<rparr>) s)" for b by (rule sig_ok_chg, rule chg_client) simp_all
  show "sig_ok {} s (authCommand i s)" unfolding authCommand_def by (intro sig_ok_option sig_ok_if sig_ok_replies sig_ok_refl a)
  show "sig_ok {} s (pingCommand i s)" unfolding pingCommand_def Let_def by (intro sig_intros)
  show "sig_ok {} s (echoCommand i s)" unfolding echoCommand_def by (intro sig_intros)
  have m: "sig_ok {} s (upd_client i (\<lambda>c. c\<lparr>flags := insert CLIENT_MULTI (flags c)\<rparr>) s)" by (rule sig_ok_chg, rule chg_client) simp_all
  show "sig_ok {} s (multiCommand i s)" unfolding multiCommand_def by (intro sig_ok_if sig_ok_replies sig_ok_refl m)
qed

lemma sig_ok_pubsub [sig_intros]:
  "sig_ok {} s t \<Longrightarrow> sig_ok {} s (server_channels_update g t)" "sig_ok {} s t \<Longrightarrow> sig_ok {} s (server_patterns_update h t)"
  "sig_ok {} s t \<Longrightarrow> sig_ok {} s (upd_client i (\<lambda>c. c\<lparr>pubsub_channels := p c\<rparr>) t)" "sig_ok {} s t \<Longrightarrow> sig_ok {} s (upd_client i (\<lambda>c. c\<lparr>pubsub_patterns := p c\<rparr>) t)"
  "sig_ok {} s t \<Longrightarrow> sig_ok {} s (upd_client i (\<lambda>c. c\<lparr>flags := insert CLIENT_PUBSUB (flags c)\<rparr>) t)"
  "sig_ok {} s t \<Longrightarrow> sig_ok {} s (upd_client i (\<lambda>c. c\<lparr>flags := flags c - {CLIENT_PUBSUB}\<rparr>) t)"
  "sig_ok {} s t \<Longrightarrow> sig_ok {} s (forceCommandPropagation i fl t)"
  by (erule sig_ok_trans, rule sig_ok_chg, auto intro!: chg_same simp: upd_client_def forceCommandPropagation_def split: if_splits)+

lemma sig_ok_publish [sig_intros]: "sig_ok {} s (fst (pubsubPublishMessage ch m s))"
  by (rule sig_ok_sreply, rule sreply_publish)

lemma subscribe_sig [sig_intros]:
  "sig_ok {} s t \<Longrightarrow> sig_ok {} s (pubsubSubscribeChannel i ch t)" "sig_ok {} s t \<Longrightarrow> sig_ok {} s (pubsubSubscribePattern i ch t)"
  "sig_ok {} s (fst (pubsubUnsubscribeChannel i ch b s))" "sig_ok {} s (fst (pubsubUnsubscribePattern i ch b s))"
  unfolding pubsubSubscribeChannel_def pubsubSubscribePattern_def pubsubUnsubscribeChannel_def pubsubUnsubscribePattern_def Let_def by (intro sig_intros | assumption)+

lemma unsubscribe_all_sig: "(\<And>x t. sig_ok J t (fst (f x t))) \<Longrightarrow> sig_ok J s (fst (unsubscribe_all f xs s))"
proof (induction xs arbitrary: s)
  case (Cons x xs)
  show ?case using sig_ok_trans [OF Cons.prems [of s x] Cons.IH [OF Cons.prems]] by (simp add: split_beta)
qed simp

lemma unsubscribeAll_sig [sig_intros]: "sig_ok {} s (fst (pubsubUnsubscribeAllChannels i b s))" "sig_ok {} s (fst (pubsubUnsubscribeAllPatterns i b s))"
  unfolding pubsubUnsubscribeAllChannels_def pubsubUnsubscribeAllPatterns_def Let_def
  by (intro sig_intros unsubscribe_all_sig subscribe_sig)+

lemma reply_channels_sig: "sig_ok {} s (fst (reply_channels i pat chs s))"
proof (induction chs arbitrary: s)
  case (Cons ch chs)
  have "sig_ok {} s (fst (reply_channels i pat chs (reply_bulk i ob s)))" for ob using sig_ok_trans [OF sig_ok_replies(2) [OF sig_ok_refl] Cons.IH] .
  then show ?case using Cons.IH [of s] by (auto simp: Let_def split_beta sig_ok_replies split: option.split bool.split)
qed simp

lemma pubsub_sig:
  "sig_ok {} s (subscribeCommand i s)" "sig_ok {} s (psubscribeCommand i s)" "sig_ok {} s (unsubscribeCommand i s)" "sig_ok {} s (punsubscribeCommand i s)"
  "sig_ok {} s (publishCommand i s)"
  unfolding subscribeCommand_def psubscribeCommand_def unsubscribeCommand_def punsubscribeCommand_def publishCommand_def unsubscribed_def Let_def
  by (intro sig_intros)+

lemma pubsubCommand_sig: "sig_ok {} s (pubsubCommand i s)"
proof -
  have "sig_ok {} s (case addDeferredMultiBulkLength (clients s i) of (c, node) \<Rightarrow>
    (case reply_channels i p (map fst (server_channels (upd_client i (\<lambda>_. c) s))) (upd_client i (\<lambda>_. c) s) of
       (t, n) \<Rightarrow> upd_client i (\<lambda>c. setDeferredMultiBulkLength (ocfg t) c node (of_nat n)) t))" for p
    using deferred_sig [where g = "\<lambda>c t. reply_channels i p (map fst (server_channels t)) t", OF reply_channels_sig] .
  then show ?thesis unfolding pubsubCommand_def Let_def by (intro sig_intros)
qed

section \<open>Watching\<close>

lemma watch_chg: "chg {} {} s (watchForKey i k s)"
proof (cases "(cur_db s i, k) \<in> watches s i")
  case False
  let ?d = "cur_db s i"
  define cs where "cs = (case map_of (db_watched_keys (db s ! ?d)) k of None \<Rightarrow> [] | Some cs \<Rightarrow> cs)"
  let ?t = "watchForKey i k s"
  have t: "?t = upd_client i (\<lambda>c. c\<lparr>watched_keys := watched_keys c @ [(?d, k)]\<rparr>)
      (upd_db ?d (\<lambda>r. r\<lparr>db_watched_keys := AList.update k (cs @ [i]) (db_watched_keys r)\<rparr>) s)"
    using False by (simp add: watchForKey_def Let_def cs_def)
  have n: "db ?t ! e = (if e = ?d \<and> ?d < length (db s) then (db s ! ?d)\<lparr>db_watched_keys := AList.update k (cs @ [i]) (db_watched_keys (db s ! ?d))\<rparr> else db s ! e)" for e
    unfolding t by (cases "?d < length (db s)") (auto simp: upd_db_def upd_client_def nth_list_update_eq list_update_beyond)
  have f: "length (db ?t) = length (db s)" "clients_list ?t = clients_list s" "mstime ?t = mstime s" "panicked ?t = panicked s" "\<And>j. flags (clients ?t j) = flags (clients s j)"
     "\<And>j. hushed (clients ?t j) = hushed (clients s j)" "\<And>j. cur_db ?t j = cur_db s j"
     "\<And>j. watched_keys (clients ?t j) = (if j = i then watched_keys (clients s i) @ [(?d, k)] else watched_keys (clients s j))"
    unfolding t by (auto simp: upd_db_def upd_client_def)
  have w: "map_of (db_watched_keys (db ?t ! e)) k' =
      (if e = ?d \<and> ?d < length (db s) \<and> k' = k then Some (cs @ [i]) else map_of (db_watched_keys (db s ! e)) k')" for e k'
    by (auto simp: n update_conv')
  have "server_ok ?t" if server_ok: "server_ok s"
  proof -
    have "db_ok (db ?t ! e) = db_ok (db s ! e)" for e by (simp add: n db_ok_def)
    then have "panicked ?t \<or> (\<forall>r \<in> set (db ?t). db_ok r)" using server_ok f(1,4) by (auto simp: server_ok_def all_set_conv_all_nth)
    moreover have "watch_ok ?t j \<and> cur_db ?t j < length (db ?t)" if j: "j \<in> set (clients_list ?t)" for j
    proof -
      have o: "watch_ok s j" "cur_db s j < length (db s)" using server_ok j f(2) by (auto simp: server_ok_def)
      have "e < length (db ?t) \<and> (\<exists>cs. map_of (db_watched_keys (db ?t ! e)) k' = Some cs \<and> j \<in> set cs)" if "(e, k') \<in> watches ?t j" for e k'
      proof (cases "(e, k') \<in> watches s j")
        case True
        then obtain cs' where "e < length (db s)" "map_of (db_watched_keys (db s ! e)) k' = Some cs'" "j \<in> set cs'" using o(1) by (auto simp: watch_ok_def)
        then show ?thesis using f(1) by (auto simp: w cs_def)
      next
        case new: False
        then have "j = i" "e = ?d" "k' = k" using that by (auto simp: f(8) split: if_splits)
        then show ?thesis using o(2) f(1) by (auto simp: w)
      qed
      moreover have "distinct (watched_keys (clients ?t j))" using o(1) False by (auto simp: f(8) watch_ok_def)
      ultimately show ?thesis using o(2) f(1,7) by (auto simp: watch_ok_def)
    qed
    ultimately show ?thesis unfolding server_ok_def by blast
  qed
  then show ?thesis using f by (auto simp: chg_def val_def n)
qed (simp add: watchForKey_def Let_def)

lemma watchCommand_sig: "sig_ok {} s (watchCommand i s)"
proof -
  have "sig_ok {} s (fold (watchForKey i) ks s)" for ks by (rule sig_ok_fold, rule sig_ok_chg, rule watch_chg)
  then show ?thesis unfolding watchCommand_def by (intro sig_ok_if sig_ok_replies sig_ok_refl)
qed

lemma unwatch_chg: "chg {i} {} s (unwatch_key i (d, k) s)"
proof -
  let ?t = "unwatch_key i (d, k) s"
  define cs where "cs = remove1 i (the (map_of (db_watched_keys (db s ! d)) k))"
  define g :: "redisDb \<Rightarrow> redisDb" where "g = (\<lambda>r. r\<lparr>db_watched_keys := (if cs = [] then AList.delete k (db_watched_keys r) else AList.update k cs (db_watched_keys r))\<rparr>)"
  define a where "a s = serverAssert (i \<in> set (the (map_of (db_watched_keys (db s ! d)) k))) s" for s
  define b where "b = serverAssert (map_of (db_watched_keys (db s ! d)) k \<noteq> None) s"
  have ab: "db (a b) = db s" "clients (a b) = clients s" "clients_list (a b) = clients_list s" "mstime (a b) = mstime s" "panicked s \<longrightarrow> panicked (a b)"
    by (auto simp: a_def b_def serverAssert_def)
  have t: "?t = upd_client i (\<lambda>c. c\<lparr>watched_keys := remove1 (d, k) (watched_keys c)\<rparr>) (upd_db d g (a b))"
  proof -
    have "db (serverAssert x u) = db u" for x u by (simp add: serverAssert_def)
    then show ?thesis by (simp add: unwatch_key_def Let_def a_def b_def g_def cs_def cong: if_cong)
  qed
  have n: "db ?t ! e = (if e = d \<and> d < length (db s) then g (db s ! d) else db s ! e)" for e
    unfolding t using ab by (cases "d < length (db s)") (auto simp: upd_db_def upd_client_def nth_list_update_eq list_update_beyond)
  have f: "length (db ?t) = length (db s)" "clients_list ?t = clients_list s" "mstime ?t = mstime s" "panicked s \<longrightarrow> panicked ?t" "\<And>j. flags (clients ?t j) = flags (clients s j)"
     "\<And>j. hushed (clients ?t j) = hushed (clients s j)" "\<And>j. cur_db ?t j = cur_db s j"
     "\<And>j. watched_keys (clients ?t j) = (if j = i then remove1 (d, k) (watched_keys (clients s i)) else watched_keys (clients s j))"
    unfolding t using ab by (auto simp: upd_db_def upd_client_def)
  have w: "map_of (db_watched_keys (db ?t ! e)) k' = (if e = d \<and> d < length (db s) \<and> k' = k then (if cs = [] then None else Some cs) else map_of (db_watched_keys (db s ! e)) k')" for e k'
    by (auto simp: n g_def update_conv' delete_conv')
  have "server_ok ?t" if server_ok: "server_ok s"
  proof -
    have "db_ok (db ?t ! e) = db_ok (db s ! e)" for e by (simp add: n db_ok_def g_def)
    then have "panicked ?t \<or> (\<forall>r \<in> set (db ?t). db_ok r)" using server_ok f(1,4) by (auto simp: server_ok_def all_set_conv_all_nth)
    moreover have "watch_ok ?t j \<and> cur_db ?t j < length (db ?t)" if j: "j \<in> set (clients_list ?t)" for j
    proof -
      have o: "watch_ok s j" "cur_db s j < length (db s)" using server_ok j f(2) by (auto simp: server_ok_def)
      have di: "distinct (watched_keys (clients s j))" using o(1) by (simp add: watch_ok_def)
      have "e < length (db ?t) \<and> (\<exists>cs. map_of (db_watched_keys (db ?t ! e)) k' = Some cs \<and> j \<in> set cs)" if v: "(e, k') \<in> watches ?t j" for e k'
      proof -
        have s: "(e, k') \<in> watches s j" and ne: "j = i \<Longrightarrow> (e, k') \<noteq> (d, k)" using v di by (auto simp: f(8) split: if_splits)
        then obtain cs' where c: "e < length (db s)" "map_of (db_watched_keys (db s ! e)) k' = Some cs'" "j \<in> set cs'" using o(1) by (auto simp: watch_ok_def)
        show ?thesis
        proof (cases "(e, k') = (d, k)")
          case True
          then have "j \<noteq> i" using ne by blast
          then have "j \<in> set cs" using c True by (simp add: cs_def)
          then show ?thesis using True c(1) f(1) by (auto simp: w)
        next
          case False
          then show ?thesis using c f(1) by (auto simp: w)
        qed
      qed
      then show ?thesis using o(2) f(1,7) di by (auto simp: watch_ok_def f(8))
    qed
    ultimately show ?thesis unfolding server_ok_def by blast
  qed
  then show ?thesis using f by (auto simp: chg_def val_def n g_def)
qed

lemma unwatchAll_chg: "chg {i} {} s (unwatchAllKeys i s)"
  unfolding unwatchAllKeys_def by (rule chg_fold) (metis unwatch_chg surj_pair)

lemma chg_own: "watched_keys (f (clients s i)) = watched_keys (clients s i) \<Longrightarrow> cdb (f (clients s i)) = cur_db s i \<Longrightarrow>
    hushed (f (clients s i)) \<subseteq> hushed (clients s i) \<Longrightarrow> chg {i} {} s (upd_client i f s)"
proof -
  assume a: "watched_keys (f (clients s i)) = watched_keys (clients s i)" "cdb (f (clients s i)) = cur_db s i" "hushed (f (clients s i)) \<subseteq> hushed (clients s i)"
  have "server_ok s \<longrightarrow> server_ok (upd_client i f s)" using a by (auto simp: server_ok_def watch_ok_def upd_client_def)
  then show ?thesis using a by (auto simp: chg_def val_def upd_client_def split: if_splits)
qed

lemma discard_chg: "chg {i} {} s (discardTransaction i s)"
  unfolding discardTransaction_def by (rule chg_step [OF chg_own unwatchAll_chg]) (simp_all add: initClientMultiState_def)

lemma own_sig: "sig_ok {i} s (discardCommand i s)" "sig_ok {i} s (unwatchCommand i s)"
proof -
  show "sig_ok {i} s (discardCommand i s)" unfolding discardCommand_def by (intro sig_ok_if sig_ok_replies sig_ok_refl sig_ok_chg discard_chg)
  have "chg {i} {} s (upd_client i (\<lambda>c. c\<lparr>flags := flags c - {CLIENT_DIRTY_CAS}\<rparr>) (unwatchAllKeys i s))"
    by (rule chg_step [OF unwatchAll_chg chg_own]) simp_all
  then show "sig_ok {i} s (unwatchCommand i s)" unfolding unwatchCommand_def by (intro sig_ok_replies sig_ok_chg)
qed

section \<open>Every command\<close>

lemmas command_sigs = string_commands_sig setrange_sig append_sig get_sig getrange_sig mget_sig mset_sig counter_sig strlen_sig del_sig exists_sig select_sig keys_sig
  type_sig rename_sig expire_sig flushdb_sig connection_sig pubsub_sig pubsubCommand_sig watchCommand_sig

lemma run_proc_sig: "p \<notin> silent \<Longrightarrow> p \<notin> {DiscardCommand, UnwatchCommand} \<Longrightarrow> sig_ok {} s (run_proc p i s)"
  by (cases p) (simp_all add: silent_def command_sigs expireCommand_def expireatCommand_def pexpireCommand_def pexpireatCommand_def ttlCommand_def pttlCommand_def sig_ok_replies)

lemma run_proc_sig_own: "p \<notin> silent \<Longrightarrow> sig_ok {i} s (run_proc p i s)"
  using sig_ok_mono [OF run_proc_sig] own_sig [of i s] by (cases "p \<in> {DiscardCommand, UnwatchCommand}") auto

lemma chg_propagate: "chg {} {} s (propagate d av a r s)"
  by (rule chg_same) (auto simp: propagate_def feedAppendOnlyFile_def replicationFeedSlaves_def)

end
