(* ===== verification/Watch_Run.thy ===== *)
theory Watch_Run
  imports Watch_Commands
begin

text \<open>
  Runs of the server as sequences of requests, expirations and passing time; the invariant of the databases and of the watched keys; what EXEC and DISCARD leave alone.
\<close>

section \<open>Executing a command\<close>

text \<open>
  A relation that is kept by every part of a command is kept by the whole of \<open>call\<close> and by EXEC. The relation is used twice: for the
  signalled changes, and for the invariant, which the commands that do not signal keep as well.
\<close>

locale step_relation =
  fixes R :: "server \<Rightarrow> server \<Rightarrow> bool"
  assumes trans: "R s t \<Longrightarrow> R t u \<Longrightarrow> R s u"
    and quiet: "chg {} {} s t \<Longrightarrow> R s t"
begin

lemma same [simp]: "R s s"
  by (rule quiet) simp

lemma replied: "R s t \<Longrightarrow> sreply t u \<Longrightarrow> R s u"
  by (erule trans, rule quiet, rule chg_sreply)

lemma replies: "R s t \<Longrightarrow> R s (reply_obj j ob t)" "R s t \<Longrightarrow> R s (reply_mbulk j n t)" "R s t \<Longrightarrow> R s (reply_err j e t)" "R s t \<Longrightarrow> R s (serverAssert b t)"
  by (erule replied; simp)+

lemma branch: "(b \<Longrightarrow> R s t) \<Longrightarrow> (\<not> b \<Longrightarrow> R s u) \<Longrightarrow> R s (if b then t else u)"
  by simp

lemma bind: "R s (fst p) \<Longrightarrow> (\<And>t x. p = (t, x) \<Longrightarrow> R t (g t x)) \<Longrightarrow> R s (case p of (t, x) \<Rightarrow> g t x)"
  using trans by (cases p) auto

lemma choose: "(x = None \<Longrightarrow> R s a) \<Longrightarrow> (\<And>y. x = Some y \<Longrightarrow> R s (f y)) \<Longrightarrow> R s (case x of None \<Rightarrow> a | Some y \<Rightarrow> f y)"
  by (cases x) auto

lemma called:
  assumes "\<And>nm r t. cmd (clients s i) = Some nm \<Longrightarrow> lookupCommand nm = Some r \<Longrightarrow> mstate (clients t i) = mstate (clients s i) \<Longrightarrow> R t (run (cproc r) i t)"
  shows "R s (call_with run i s)"
proof -
  have c: "R t (upd_client i (\<lambda>c. c\<lparr>flags := (flags c - PROP_FLAGS) \<union> X\<rparr>) t)" "R t (upd_client i (\<lambda>c. c\<lparr>flags := flags c - PROP_FLAGS\<rparr>) t)" for t X
    by (rule quiet [OF chg_client]; simp)+
  let ?s1 = "upd_client i (\<lambda>c. c\<lparr>flags := flags c - PROP_FLAGS\<rparr>) s"
  define s2 where "s2 = (case cmd (clients ?s1 i) of None \<Rightarrow> serverAssert False ?s1
     | Some nm \<Rightarrow> (case lookupCommand nm of None \<Rightarrow> serverAssert False ?s1 | Some r \<Rightarrow> run (cproc r) i ?s1))"
  have "cmd (clients ?s1 i) = cmd (clients s i)" "mstate (clients ?s1 i) = mstate (clients s i)" by (simp_all add: upd_client_def)
  then have "R ?s1 (run (cproc r) i ?s1)" if "cmd (clients ?s1 i) = Some nm" "lookupCommand nm = Some r" for nm r using assms [of nm r ?s1] that by simp
  then have 2: "R ?s1 s2" unfolding s2_def by (intro choose replies same) simp_all
  let ?f = "flags (clients s2 i)" let ?ch = "dirty s2 - dirty ?s1 > 0"
  define s3 where "s3 = (if \<not> {CLIENT_PREVENT_AOF_PROP, CLIENT_PREVENT_REPL_PROP} \<subseteq> ?f then
      let to_aof = ((?ch \<or> CLIENT_FORCE_AOF \<in> ?f) \<and> CLIENT_PREVENT_AOF_PROP \<notin> ?f); to_repl = ((?ch \<or> CLIENT_FORCE_REPL \<in> ?f) \<and> CLIENT_PREVENT_REPL_PROP \<notin> ?f)
      in if to_aof \<or> to_repl then propagate (cur_db s2 i) (cargs s2 i) to_aof to_repl s2 else s2 else s2)"
  have 3: "R s2 s3" unfolding s3_def Let_def by (intro branch same quiet [OF chg_propagate])
  let ?s4 = "upd_client i (\<lambda>c. c\<lparr>flags := (flags c - PROP_FLAGS) \<union> (flags (clients s i) \<inter> PROP_FLAGS)\<rparr>) s3"
  have "call_with run i s = ?s4\<lparr>stat_numcommands := stat_numcommands ?s4 + 1\<rparr>"
    unfolding call_with_def s3_def s2_def Let_def by (rule refl)
  then show ?thesis using trans [OF trans [OF trans [OF trans [OF c(2) 2] 3] c(1)] quiet [OF chg_stat(4)]] by simp
qed

lemma exec_looped:
  assumes "\<And>q t. q \<in> set mcs \<Longrightarrow> cmd (clients t i) = fst q \<Longrightarrow> R t (cl i t)"
  shows "R s (fst (exec_loop cl i mcs mp s))"
  using assms
proof (induction mcs arbitrary: s mp)
  case (Cons q mcs)
  obtain cm av where q: "q = (cm, av)" by (cases q)
  let ?s1 = "upd_client i (\<lambda>c. c\<lparr>argv := av, cmd := cm\<rparr>) s"
  have 1: "R s ?s1" by (rule quiet [OF chg_client]; simp)
  have p: "R ?s1 (execCommandPropagateMulti i ?s1)" unfolding execCommandPropagateMulti_def by (rule quiet [OF chg_propagate])
  have cm: "cmd (clients ?s1 i) = cm" "cmd (clients (execCommandPropagateMulti i ?s1) i) = cm"
    by (simp_all add: upd_client_def execCommandPropagateMulti_def propagate_def Let_def feedAppendOnlyFile_def replicationFeedSlaves_def)
  have go: "R s (fst (exec_loop cl i mcs b (cl i t)))" if "R ?s1 t" "cmd (clients t i) = cm" for b t
  proof -
    have "R t (cl i t)" using Cons.prems [of q t] that(2) q by simp
    moreover have "R (cl i t) (fst (exec_loop cl i mcs b (cl i t)))" by (rule Cons.IH, rule Cons.prems) simp_all
    ultimately show ?thesis using trans [OF 1 trans [OF that(1)]] trans by blast
  qed
  show ?case unfolding q exec_loop.simps Let_def using go [OF same cm(1)] go [OF p cm(2)] by (simp split: if_splits)
qed simp

end

lemma mstate_unwatch: "mstate (clients (unwatchAllKeys i s) j) = mstate (clients s j)"
proof -
  have "mstate (clients (fold (unwatch_key i) wks t) j) = mstate (clients t j)" for wks t
    by (induction wks arbitrary: t) (auto simp: unwatch_key_def Let_def split_beta upd_client_def upd_db_def serverAssert_def)
  then show ?thesis by (simp add: unwatchAllKeys_def)
qed

lemma mstate_reply: "sreply s t \<Longrightarrow> mstate (clients t j) = mstate (clients s j)"
  by (simp add: sreply_def creply_def)

locale own_relation = step_relation +
  fixes i :: nat
  assumes own: "chg {i} {} s t \<Longrightarrow> R s t"
begin

lemma executed:
  assumes "\<And>q t. q \<in> set (mstate (clients s i)) \<Longrightarrow> cmd (clients t i) = fst q \<Longrightarrow> R t (cl i t)"
  shows "R s (execCommand cl i s)"
proof -
  let ?u = "reply_mbulk i (length (mstate (clients (unwatchAllKeys i s) i))) (unwatchAllKeys i s)"
  have m: "mstate (clients ?u i) = mstate (clients s i)" using mstate_reply [OF sreply_replies(5)] by (simp add: mstate_unwatch)
  have e: "R ?u (fst (exec_loop cl i (mstate (clients ?u i)) False ?u))" by (rule exec_looped) (use assms m in simp)
  have w: "R s (unwatchAllKeys i s)" by (rule own [OF unwatchAll_chg])
  have f: "R t (upd_client i (\<lambda>c. c\<lparr>argv := av, cmd := cm\<rparr>) t)" for av cm t by (rule quiet [OF chg_client]; simp)
  have d: "R t u \<Longrightarrow> R t (discardTransaction i u)" for t u by (erule trans, rule own [OF discard_chg])
  have a: "R t u \<Longrightarrow> R t (add_dirty 1 u)" for t u by (erule trans, rule quiet [OF chg_add_dirty])
  have "R s (case exec_loop cl i (mstate (clients ?u i)) False ?u of (t, mp) \<Rightarrow>
     if mp then add_dirty 1 (discardTransaction i (upd_client i (\<lambda>c. c\<lparr>argv := av, cmd := cm\<rparr>) t)) else discardTransaction i (upd_client i (\<lambda>c. c\<lparr>argv := av, cmd := cm\<rparr>) t))" for av cm
    by (rule trans [OF replies(2) [OF w, of i "length (mstate (clients (unwatchAllKeys i s) i))"]]) (intro bind e branch a d f)
  then show ?thesis unfolding execCommand_def Let_def by (intro branch replies d same) simp_all
qed

end

interpretation sig_free: step_relation "sig_ok {}"
proof
  show "sig_ok {} s t \<Longrightarrow> sig_ok {} t u \<Longrightarrow> sig_ok {} s u" for s t u by (rule sig_ok_trans)
  show "chg {} {} s t \<Longrightarrow> sig_ok {} s t" for s t by (rule sig_ok_chg)
qed

interpretation sig_own: own_relation "sig_ok {i}" i for i
proof
  show "sig_ok {i} s t \<Longrightarrow> sig_ok {i} t u \<Longrightarrow> sig_ok {i} s u" for s t u by (rule sig_ok_trans)
  show "chg {} {} s t \<Longrightarrow> sig_ok {i} s t" for s t by (rule sig_ok_chg, erule chg_mono) simp_all
  show "chg {i} {} s t \<Longrightarrow> sig_ok {i} s t" for s t by (rule sig_ok_chg)
qed

interpretation chg_own: own_relation "chg {i} UNIV" i for i
proof
  show "chg {i} UNIV s t \<Longrightarrow> chg {i} UNIV t u \<Longrightarrow> chg {i} UNIV s u" for s t u by (rule chg_step)
  show "chg {} {} s t \<Longrightarrow> chg {i} UNIV s t" for s t by (erule chg_mono) simp_all
  show "chg {i} {} s t \<Longrightarrow> chg {i} UNIV s t" for s t by (erule chg_mono) simp_all
qed

section \<open>Commands that change keys silently\<close>

lemma chg_any: "chg {} K s t \<Longrightarrow> chg {i} UNIV s t"
  by (erule chg_mono) simp_all

lemma chg_any': "sig_ok {i} s t \<Longrightarrow> chg {i} UNIV s t"
  unfolding sig_ok_def sig_def using chg_mono [OF _ subset_refl subset_UNIV] by blast

lemma chg_lookups: "chg {i} UNIV s (fst (lookupKeyWrite d k s))" "chg {i} UNIV s (fst (getExpire d k s))" "chg {i} UNIV s (fst (selectDb j n s))"
  "chg {i} UNIV s (fst (getLongFromObjectOrReply j ob msg s))"
  by (rule chg_any, rule chg_lookup chg_getExpire chg_sreply [OF sreply_getL] chg_selectDb)+

lemma chg_swap: "chg {i} UNIV s (fst (dbSwapDatabases a b s))"
proof (cases "a < 0 \<or> a \<ge> int (length (db s)) \<or> b < 0 \<or> b \<ge> int (length (db s)) \<or> a = b")
  case False
  let ?a = "nat a" let ?b = "nat b" let ?r = "db s ! ?a" let ?q = "db s ! ?b"
  let ?d = "(db s)[?a := ?r\<lparr>dict := dict ?q, expires := expires ?q\<rparr>, ?b := ?q\<lparr>dict := dict ?r, expires := expires ?r\<rparr>]"
  have ab: "?a < length (db s)" "?b < length (db s)" "?a \<noteq> ?b" using False by auto
  have "fst (dbSwapDatabases a b s) = s\<lparr>db := ?d\<rparr>" using False ab by (simp add: dbSwapDatabases_def Let_def upd_db_def)
  moreover have "chg {} UNIV s (s\<lparr>db := ?d\<rparr>)"
  proof (rule chg_db)
    show "\<forall>r \<in> set ?d. db_ok r" if "\<forall>r \<in> set (db s). db_ok r"
    proof
      fix r assume "r \<in> set ?d"
      then obtain e where e: "e < length (db s)" "r = ?d ! e" by (auto simp: in_set_conv_nth)
      have "db_ok ?r" "db_ok ?q" "db_ok (db s ! e)" using that ab e(1) by auto
      then show "db_ok r" using e ab by (auto simp: nth_list_update db_ok_def)
    qed
  qed (use ab in \<open>auto simp: nth_list_update\<close>)
  ultimately show ?thesis using chg_any by simp
qed (auto simp: dbSwapDatabases_def)

lemma silent_chg: "p \<in> silent \<Longrightarrow> chg {i} UNIV s (run_proc p i s)"
proof -
  have rm: "chg {i} UNIV t (fst (removeExpire d k t))" for d k t by (rule chg_any, rule chg_removeExpire, rule chg_refl)
  have ad: "chg {i} UNIV s t \<Longrightarrow> chg {i} UNIV s (add_dirty n t)" for s t n by (erule chg_own.trans, rule chg_any, rule chg_add_dirty)
  have mv: "chg {i} UNIV t (case dbDelete d k (if e then setExpire d' k w (dbAdd d' k ob t) else dbAdd d' k ob t) of (u, x) \<Rightarrow> reply_obj i r (add_dirty 1 u))" for t d d' k e w ob r
  proof -
    let ?u = "if e then setExpire d' k w (dbAdd d' k ob t) else dbAdd d' k ob t"
    have "chg {} {(d', k)} t ?u" by (intro chg_intros chg_refl)
    moreover have "chg {} {(d, k)} ?u (fst (dbDelete d k ?u))" by (intro chg_intros chg_refl)
    ultimately have "chg {i} UNIV t (fst (dbDelete d k ?u))" using chg_own.trans chg_any by blast
    then show ?thesis unfolding split_beta by (intro chg_own.replies ad)
  qed
  have "chg {i} UNIV s (persistCommand i s)" unfolding persistCommand_def Let_def
    by (intro chg_own.bind chg_own.branch chg_own.replies ad rm chg_lookups chg_own.same)
  moreover have "chg {i} UNIV s (moveCommand i s)" unfolding moveCommand_def Let_def
    by (intro chg_own.choose chg_own.bind chg_own.branch mv chg_own.replies chg_lookups chg_own.same)
  moreover have "chg {i} UNIV s (swapdbCommand i s)" unfolding swapdbCommand_def Let_def
    by (intro chg_own.choose chg_own.bind chg_own.branch chg_own.replies ad chg_lookups chg_swap chg_own.same)
  ultimately show "p \<in> silent \<Longrightarrow> chg {i} UNIV s (run_proc p i s)" by (auto simp: silent_def)
qed

section \<open>Processing a request\<close>

definition proc_of :: "server \<Rightarrow> nat \<Rightarrow> cmd_proc option" where
  "proc_of s i = map_option cproc (lookupCommand (cargs s i ! 0))"

text \<open>The commands that end the watching of their client.\<close>

definition unwatching :: "cmd_proc set" where
  "unwatching = {ExecCommand, DiscardCommand, UnwatchCommand}"

lemma lookupCommand_name: "lookupCommand nm = Some r \<Longrightarrow> lookupCommand (name r) = Some r"
proof -
  assume a: "lookupCommand nm = Some r"
  have "map tolower_char (name r) = name r" if "r \<in> set redisCommandTable" for r
    using that by (auto simp: redisCommandTable_def command_entry_def chars_def tolower_char_def)
  moreover have "r \<in> set redisCommandTable" "name r = map tolower_char nm" using a by (auto simp: lookupCommand_def find_Some_iff)
  ultimately have "map tolower_char (name r) = map tolower_char nm" by metis
  then show ?thesis using a unfolding lookupCommand_def by simp
qed

lemma run_all_sig:
  assumes "p \<notin> silent" "hushed (clients s i) = {}"
  shows "sig_ok {i} s (run_all p i s)"
proof (cases "p = ExecCommand")
  case True
  have "sig_ok {i} s (execCommand (call_with run_proc) i s)"
  proof (rule sig_own.executed)
    fix q and t :: server assume q: "q \<in> set (mstate (clients s i))" "cmd (clients t i) = fst q"
    have "loud (fst q)" using assms(2) q(1) unfolding hushed_def by blast
    then have "loud (cmd (clients t i))" using q(2) by simp
    then show "sig_ok {i} t (call_with run_proc i t)" by (intro sig_own.called run_proc_sig_own) (simp add: loud_def)
  qed
  then show ?thesis using True by (simp add: run_all_def)
qed (simp add: run_all_def run_proc_sig_own assms(1))

lemma run_all_chg: "chg {i} UNIV s (run_all p i s)"
proof -
  have r: "chg {i} UNIV t (run_proc p i t)" for p t
    using chg_any' [OF run_proc_sig_own] silent_chg by (cases "p \<in> silent") auto
  have "chg {i} UNIV s (execCommand (call_with run_proc) i s)" by (intro chg_own.executed chg_own.called r)
  then show ?thesis using r by (simp add: run_all_def)
qed

lemma call_sig:
  assumes "loud (cmd (clients s i))" "hushed (clients s i) = {}"
  shows "sig_ok {i} s (call i s)"
  unfolding call_def
proof (rule sig_own.called)
  fix nm r and t :: server assume "cmd (clients s i) = Some nm" "lookupCommand nm = Some r" "mstate (clients t i) = mstate (clients s i)"
  then show "sig_ok {i} t (run_all (cproc r) i t)" using assms by (intro run_all_sig) (auto simp: loud_def hushed_def)
qed

lemma call_free_sig:
  assumes "cmd (clients s i) = Some nm" "lookupCommand nm = Some r" "cproc r \<notin> silent" "cproc r \<notin> unwatching"
  shows "sig_ok {} s (call i s)"
  unfolding call_def
proof (rule sig_free.called)
  fix nm' r' and t :: server assume "cmd (clients s i) = Some nm'" "lookupCommand nm' = Some r'"
  then have "r' = r" using assms by simp
  then show "sig_ok {} t (run_all (cproc r') i t)" using assms by (auto simp: run_all_def unwatching_def intro!: run_proc_sig)
qed

context step_relation
begin

lemma processed:
  assumes "\<And>r t. lookupCommand (cargs s i ! 0) = Some r \<Longrightarrow> cmd (clients t i) = Some (name r) \<Longrightarrow> mstate (clients t i) = mstate (clients s i) \<Longrightarrow> R t (call i t)"
    and "\<And>r t. lookupCommand (cargs s i ! 0) = Some r \<Longrightarrow> cmd (clients t i) = Some (name r) \<Longrightarrow> R t (queueMultiCommand i t)"
  shows "R s (fst (processCommand i s))"
proof (cases "lookupCommand (cargs s i ! 0)")
  have f: "R t (flagTransaction i t)" for t unfolding flagTransaction_def by (intro branch same quiet chg_client) simp_all
  have c: "R t (upd_client i (\<lambda>c. c\<lparr>cmd := cm\<rparr>) t)" for t cm by (rule quiet [OF chg_client]; simp)
  have q: "R s (upd_client i (\<lambda>c. c\<lparr>flags := insert CLIENT_CLOSE_AFTER_REPLY (flags c)\<rparr>) (reply_obj i ob s))" for ob
    by (rule trans [OF replies(1) [OF same] quiet [OF chg_client]]; simp)
  have e: "R s (reply_errf i x (flagTransaction i (upd_client i (\<lambda>c. c\<lparr>cmd := cm\<rparr>) s)))" for x cm by (rule replied [OF trans [OF c f] sreply_replies(7)])
  {
    case None
    show ?thesis unfolding processCommand_def Let_def None option.case if_distrib [of fst] fst_conv by (intro branch q e)
  next
    case (Some r)
    let ?t = "upd_client i (\<lambda>c. c\<lparr>cmd := Some (name r)\<rparr>) s"
    have t: "cmd (clients ?t i) = Some (name r)" "mstate (clients ?t i) = mstate (clients s i)" by (simp_all add: upd_client_def)
    have a: "R s (call i ?t)" by (rule trans [OF c assms(1) [OF Some t]])
    have b: "R s (queueMultiCommand i ?t)" by (rule trans [OF c assms(2) [OF Some t(1)]])
    show ?thesis unfolding processCommand_def Let_def Some option.case if_distrib [of fst] fst_conv
      by (intro branch q a b e replies(1,3) trans [OF c f] c)
  }
qed

end

lemma queue_chg: "loud (cmd (clients s i)) \<Longrightarrow> chg {} {} s (queueMultiCommand i s)"
  unfolding queueMultiCommand_def by (rule chg_client) (auto simp: hushed_def)

lemma processCommand_sig:
  assumes "hushed (clients s i) = {}" "\<And>p. proc_of s i = Some p \<Longrightarrow> p \<notin> silent"
  shows "sig_ok {i} s (fst (processCommand i s))"
proof (rule sig_own.processed)
  fix r and t :: server assume r: "lookupCommand (cargs s i ! 0) = Some r" "cmd (clients t i) = Some (name r)"
  then have l: "loud (cmd (clients t i))" using assms(2) lookupCommand_name [OF r(1)] by (simp add: loud_def proc_of_def)
  then show "sig_ok {i} t (queueMultiCommand i t)" by (intro sig_own.quiet queue_chg)
  assume "mstate (clients t i) = mstate (clients s i)"
  then show "sig_ok {i} t (call i t)" using l assms(1) by (intro call_sig) (auto simp: hushed_def)
qed

lemma processCommand_free_sig:
  assumes "\<And>p. proc_of s i = Some p \<Longrightarrow> p \<notin> silent \<and> p \<notin> unwatching"
  shows "sig_ok {} s (fst (processCommand i s))"
proof (rule sig_free.processed)
  fix r and t :: server assume r: "lookupCommand (cargs s i ! 0) = Some r" "cmd (clients t i) = Some (name r)"
  have p: "cproc r \<notin> silent" "cproc r \<notin> unwatching" using assms r(1) by (auto simp: proc_of_def)
  then have l: "loud (cmd (clients t i))" using r(2) lookupCommand_name [OF r(1)] by (simp add: loud_def)
  then show "sig_ok {} t (queueMultiCommand i t)" by (intro sig_free.quiet queue_chg)
  show "sig_ok {} t (call i t)" by (rule call_free_sig [OF r(2) lookupCommand_name [OF r(1)] p])
qed

section \<open>Runs of the server\<close>

text \<open>
  What happens to the server: a request of a client, as the parser hands it over, time, and the expire cycle that looks at a key.
\<close>

datatype event = Request nat "byte list list" | Tick nat | Expire nat "byte list"

fun step :: "event \<Rightarrow> server \<Rightarrow> server" where
  "step (Request i av) s = fst (processCommand i (upd_client i (\<lambda>c. c\<lparr>argv := av\<rparr>) (s\<lparr>current_client := Some i\<rparr>)))"
| "step (Tick n) s = s\<lparr>mstime := mstime s + int n\<rparr>"
| "step (Expire d k) s =
    (case map_of (expires (db s ! d)) k of None \<Rightarrow> s | Some w \<Rightarrow> fst (activeExpireCycleTryExpire d (k, w) (mstime s) s))"

definition run :: "event list \<Rightarrow> server \<Rightarrow> server" where
  "run es s = fold step es s"

text \<open>Requests that are neither silent nor end the watching of client \<open>i\<close>.\<close>

fun heard :: "nat \<Rightarrow> event \<Rightarrow> bool" where
  "heard i (Request j av) = (case lookupCommand (av ! 0) of None \<Rightarrow> True | Some r \<Rightarrow> cproc r \<notin> silent \<and> (j = i \<longrightarrow> cproc r \<notin> unwatching))"
| "heard i e = True"

lemma expire_cycle_chg: "map_of (expires (db s ! d)) k = Some w \<Longrightarrow> chg {} {} s (fst (activeExpireCycleTryExpire d (k, w) (mstime s) s))"
proof (cases "w < mstime s")
  case True
  assume w: "map_of (expires (db s ! d)) k = Some w"
  let ?t = "propagateExpire d k (lazyfree_lazy_expire s) s"
  have "chg {} {(d, k)} s ?t" by (rule chg_mono [OF chg_feed]) simp_all
  then have "chg {} {(d, k)} s (fst (dbSyncDelete d k ?t))" by (intro chg_intros)
  moreover have "expired s d k \<or> \<not> d < length (db s)" using w True by (auto simp: expired_def)
  ultimately have "chg {} {} s (fst (dbSyncDelete d k ?t))" by (rule chg_expired)
  from chg_step [OF chg_then_sreply [OF this sreply_notify] chg_stat(1)] show ?thesis using True by (simp add: activeExpireCycleTryExpire_def Let_def split_beta)
qed (simp add: activeExpireCycleTryExpire_def)

lemma request_prefix: "chg {} {} s (upd_client i (\<lambda>c. c\<lparr>argv := av\<rparr>) (s\<lparr>current_client := Some i\<rparr>))"
  by (rule chg_step [OF chg_same chg_client]) simp_all

lemma step_sig:
  assumes "heard i e" "\<forall>j. hushed (clients s j) = {}" "\<forall>n. e \<noteq> Tick n"
  shows "\<exists>J. i \<notin> J \<and> sig_ok J s (step e s)"
proof (cases e)
  case (Request j av)
  let ?t = "upd_client j (\<lambda>c. c\<lparr>argv := av\<rparr>) (s\<lparr>current_client := Some j\<rparr>)"
  have p: "proc_of ?t j = map_option cproc (lookupCommand (av ! 0))" "hushed (clients ?t j) = {}" using assms(2) by (simp_all add: proc_of_def upd_client_def)
  show ?thesis
  proof (cases "j = i")
    case True
    have "sig_ok {} ?t (fst (processCommand j ?t))" by (rule processCommand_free_sig) (use assms(1) Request True p in \<open>auto split: option.splits\<close>)
    then have "sig_ok {} s (step e s)" unfolding Request step.simps by (rule sig_free.trans [OF sig_free.quiet [OF request_prefix]])
    then show ?thesis by (intro exI [of _ "{}"] conjI) simp
  next
    case False
    have "sig_ok {j} ?t (fst (processCommand j ?t))" by (rule processCommand_sig) (use assms(1) Request p in \<open>auto split: option.splits\<close>)
    then have "sig_ok {j} s (step e s)" unfolding Request step.simps by (rule sig_own.trans [OF sig_own.quiet [OF request_prefix]])
    then show ?thesis using False by (intro exI [of _ "{j}"] conjI) simp
  qed
next
  case (Expire d k)
  have "sig_ok {} s (step e s)" unfolding Expire step.simps by (cases "map_of (expires (db s ! d)) k") (simp_all add: sig_ok_chg expire_cycle_chg)
  then show ?thesis by (intro exI [of _ "{}"] conjI) simp
qed (use assms(3) in simp)

text \<open>The state of a watched key along a run: as it was, past its time to live, or marked.\<close>

definition guarded :: "nat \<Rightarrow> nat \<Rightarrow> byte list \<Rightarrow> server \<Rightarrow> server \<Rightarrow> bool" where
  "guarded i d k s t \<longleftrightarrow> server_ok t \<and> i \<in> set (clients_list t) \<and> (d, k) \<in> watches t i \<and> (\<forall>j. hushed (clients t j) = {}) \<and>
     (panicked t \<or> val t d k = val s d k \<or> (\<exists>w. snd (val s d k) = Some w \<and> w < mstime t) \<or> is_dirty t i)"

lemma guarded_step: "guarded i d k s t \<Longrightarrow> heard i e \<Longrightarrow> guarded i d k s (step e t)"
proof (cases "\<exists>n. e = Tick n")
  case True
  then obtain n where "e = Tick n" by blast
  moreover assume "guarded i d k s t"
  ultimately show ?thesis by (auto simp: guarded_def server_ok_def watch_ok_def val_def)
next
  case False
  assume g: "guarded i d k s t" and h: "heard i e"
  let ?u = "step e t"
  obtain J K where J: "i \<notin> J" "sig J K t ?u" using step_sig [OF h, of t] g False by (auto simp: guarded_def sig_ok_def)
  have c: "chg J K t ?u" using J(2) by (simp add: sig_def)
  have 1: "server_ok ?u" "clients_list ?u = clients_list t" "mstime ?u = mstime t" "watches t i \<subseteq> watches ?u i" "is_dirty t i \<longrightarrow> is_dirty ?u i" "panicked t \<longrightarrow> panicked ?u"
    using g c J(1) by (auto simp: guarded_def chg_def)
  have 2: "hushed (clients ?u j) = {}" for j using g c by (auto simp: guarded_def chg_def)
  have "panicked ?u \<or> val ?u d k = val s d k \<or> (\<exists>w. snd (val s d k) = Some w \<and> w < mstime ?u) \<or> is_dirty ?u i"
  proof (cases "(d, k) \<in> K")
    case True
    then have "watches t i \<inter> K \<noteq> {}" using g by (auto simp: guarded_def)
    then have "\<not> panicked ?u \<Longrightarrow> is_dirty ?u i" using J g by (auto simp: guarded_def sig_def)
    then show ?thesis by blast
  next
    case False
    then have "val ?u d k = val t d k \<or> expired t d k" using c by (simp add: chg_def)
    moreover have "expired t d k \<Longrightarrow> val t d k = val s d k \<Longrightarrow> \<exists>w. snd (val s d k) = Some w \<and> w < mstime ?u"
      using 1(3) by (auto simp: expired_def val_def split: if_splits) (metis)
    ultimately show ?thesis using g 1 by (auto simp: guarded_def)
  qed
  then show ?thesis using g 1 2 by (auto simp: guarded_def)
qed

lemma guarded_run: "guarded i d k s t \<Longrightarrow> \<forall>e \<in> set es. heard i e \<Longrightarrow> guarded i d k s (run es t)"
  unfolding run_def by (induction es arbitrary: t) (auto intro: guarded_step)

lemma keys_unwatch: "dict (db (unwatchAllKeys i s) ! e) = dict (db s ! e) \<and> expires (db (unwatchAllKeys i s) ! e) = expires (db s ! e) \<and> length (db (unwatchAllKeys i s)) = length (db s) \<and>
   flags (clients (unwatchAllKeys i s) j) = flags (clients s j)"
proof -
  have "dict (db (unwatch_key i wk t) ! e) = dict (db t ! e) \<and> expires (db (unwatch_key i wk t) ! e) = expires (db t ! e) \<and> length (db (unwatch_key i wk t)) = length (db t) \<and>
     flags (clients (unwatch_key i wk t) j) = flags (clients t j)" for wk t
    by (cases "fst wk < length (db t)") (auto simp: unwatch_key_def Let_def split_beta upd_client_def upd_db_def serverAssert_def nth_list_update list_update_beyond)
  then have "dict (db (fold (unwatch_key i) wks t) ! e) = dict (db t ! e) \<and> expires (db (fold (unwatch_key i) wks t) ! e) = expires (db t ! e) \<and>
     length (db (fold (unwatch_key i) wks t)) = length (db t) \<and> flags (clients (fold (unwatch_key i) wks t) j) = flags (clients t j)" for wks t
    by (induction wks arbitrary: t) simp_all
  then show ?thesis unfolding unwatchAllKeys_def .
qed

definition fresh_server :: server where
  "fresh_server = \<lparr>db = replicate 2 \<lparr>dict = [], expires = [], db_watched_keys = []\<rparr>, clients = (\<lambda>_. fresh_client), clients_list = [1, 2], server_channels = [],
     server_patterns = [], notify_keyspace_events = {}, dirty = 0, mstime = 1000, stat_keyspace_hits = 0, stat_keyspace_misses = 0, stat_expiredkeys = 0,
     stat_numcommands = 0, masterhost = False, master = None, current_client = None, loading = False, lazyfree_lazy_expire = False, repl_slave_ro = False,
     requirepass = None, write_error = None, few_slaves = False, stale = False, aof_on = False, aof_stream = [], repl_stream = [], ocfg = default_cfg,
     max_alloc = 65536, panicked = False\<rparr>"

section \<open>The invariant\<close>

interpretation inv_own: own_relation "\<lambda>s t. server_ok s \<longrightarrow> server_ok t" i for i
  by unfold_locales (auto simp: chg_def)

lemma step_ok: "server_ok s \<Longrightarrow> server_ok (step e s)"
proof (cases e)
  case (Request i av)
  let ?t = "upd_client i (\<lambda>c. c\<lparr>argv := av\<rparr>) (s\<lparr>current_client := Some i\<rparr>)"
  have c: "chg {i} UNIV t (call i t)" for t unfolding call_def by (rule chg_own.called, rule run_all_chg)
  have q: "server_ok t \<longrightarrow> server_ok (queueMultiCommand i t)" for t by (auto simp: queueMultiCommand_def server_ok_def watch_ok_def upd_client_def)
  have "server_ok ?t \<longrightarrow> server_ok (fst (processCommand i ?t))" by (rule inv_own.processed) (use c q in \<open>auto simp: chg_def\<close>)
  moreover assume "server_ok s"
  ultimately show ?thesis using request_prefix [of s i av] Request by (simp add: chg_def)
next
  case (Expire d k)
  moreover assume "server_ok s"
  ultimately show ?thesis using expire_cycle_chg [of s d k] by (auto simp: chg_def split: option.split)
qed (auto simp: server_ok_def watch_ok_def)

lemma run_ok: "server_ok s \<Longrightarrow> server_ok (run es s)"
  unfolding run_def by (induction es arbitrary: s) (auto intro: step_ok)

lemma fresh_server_ok: "server_ok fresh_server"
  by (simp add: server_ok_def fresh_server_def db_ok_def watch_ok_def fresh_client_def numeral_2_eq_2)

section \<open>WATCH and EXEC\<close>

definition keyspace :: "server \<Rightarrow> ((byte list \<times> robj) list \<times> (byte list \<times> int) list) list" where
  "keyspace s = map (\<lambda>r. (dict r, expires r)) (db s)"

lemma unwatch_client: "mstate (clients (unwatchAllKeys i s) j) = mstate (clients s j) \<and> flags (clients (unwatchAllKeys i s) j) = flags (clients s j) \<and> pending (clients (unwatchAllKeys i s) j) = pending (clients s j)"
proof -
  have "mstate (clients (unwatch_key i wk t) j) = mstate (clients t j) \<and> flags (clients (unwatch_key i wk t) j) = flags (clients t j) \<and> pending (clients (unwatch_key i wk t) j) = pending (clients t j)" for wk t
    by (simp add: unwatch_key_def Let_def split_beta upd_client_def upd_db_def serverAssert_def pending_def)
  then have "mstate (clients (fold (unwatch_key i) wks t) j) = mstate (clients t j) \<and> flags (clients (fold (unwatch_key i) wks t) j) = flags (clients t j) \<and>
      pending (clients (fold (unwatch_key i) wks t) j) = pending (clients t j)" for wks t
    by (induction wks arbitrary: t) simp_all
  then show ?thesis unfolding unwatchAllKeys_def .
qed

lemma keyspace_unwatch: "keyspace (unwatchAllKeys i s) = keyspace s"
  using keys_unwatch by (simp add: keyspace_def list_eq_iff_nth_eq)

lemma discard_effect:
  "keyspace (discardTransaction i s) = keyspace s" "mstate (clients (discardTransaction i s) i) = []" "pending (clients (discardTransaction i s) i) = pending (clients s i)"
  "CLIENT_MULTI \<notin> flags (clients (discardTransaction i s) i)"
  by (simp_all add: discardTransaction_def keyspace_unwatch unwatch_client) (simp_all add: keyspace_def upd_client_def initClientMultiState_def pending_def)

lemma marks_reply: "sreply s t \<Longrightarrow> is_dirty t i = is_dirty s i"
  by (auto simp: sreply_def creply_def)

end
