(* ===== verification/Store_View.thy ===== *)
theory Store_View
  imports Watch_Run
begin

text \<open>
  What clients see of the keyspace, which hides keys past their time, and what lookups, writes and replies do to it.
\<close>

section \<open>What is left alone\<close>

definition env :: "server \<Rightarrow> server" where
  "env s = s\<lparr>db := replicate (length (db s)) \<lparr>dict = [], expires = [], db_watched_keys = []\<rparr>, clients := (\<lambda>_. fresh_client), dirty := 0, stat_keyspace_hits := 0,
     stat_keyspace_misses := 0, stat_expiredkeys := 0, stat_numcommands := 0, current_client := None, aof_stream := [], repl_stream := []\<rparr>"

lemma env_fields:
  assumes "env t = env s"
  shows "length (db t) = length (db s)" "masterhost t = masterhost s" "loading t = loading s" "notify_keyspace_events t = notify_keyspace_events s" "panicked t = panicked s"
    "mstime t = mstime s" "clients_list t = clients_list s" "requirepass t = requirepass s" "write_error t = write_error s" "few_slaves t = few_slaves s"
proof -
  show "length (db t) = length (db s)" using arg_cong [OF assms, of "\<lambda>s. length (db s)"] by (simp add: env_def)
  show "masterhost t = masterhost s" using arg_cong [OF assms, of masterhost] by (simp add: env_def)
  show "loading t = loading s" using arg_cong [OF assms, of loading] by (simp add: env_def)
  show "notify_keyspace_events t = notify_keyspace_events s" using arg_cong [OF assms, of notify_keyspace_events] by (simp add: env_def)
  show "panicked t = panicked s" using arg_cong [OF assms, of panicked] by (simp add: env_def)
  show "mstime t = mstime s" using arg_cong [OF assms, of mstime] by (simp add: env_def)
  show "clients_list t = clients_list s" using arg_cong [OF assms, of clients_list] by (simp add: env_def)
  show "requirepass t = requirepass s" using arg_cong [OF assms, of requirepass] by (simp add: env_def)
  show "write_error t = write_error s" using arg_cong [OF assms, of write_error] by (simp add: env_def)
  show "few_slaves t = few_slaves s" using arg_cong [OF assms, of few_slaves] by (simp add: env_def)
qed

text \<open>A master that neither loads nor notifies nor has crashed.\<close>

definition plain :: "server \<Rightarrow> bool" where
  "plain s \<longleftrightarrow> server_ok s \<and> \<not> panicked s \<and> \<not> masterhost s \<and> \<not> loading s \<and> notify_keyspace_events s = {}"

lemma plain_env: "plain s \<Longrightarrow> env t = env s \<Longrightarrow> server_ok t \<Longrightarrow> plain t"
  using env_fields [of t s] by (simp add: plain_def)

lemma plain_db_ok: "plain s \<Longrightarrow> d < length (db s) \<Longrightarrow> db_ok (db s ! d)"
  using nth_mem [of d "db s"] by (auto simp: plain_def server_ok_def)

section \<open>What clients see\<close>

definition view :: "server \<Rightarrow> nat \<Rightarrow> byte list \<Rightarrow> robj option" where
  "view s d k = (case val s d k of (Some v, Some w) \<Rightarrow> if 0 \<le> w \<and> w < mstime s then None else Some v | (ob, _) \<Rightarrow> ob)"

lemma env_simps [simp]: "env (upd_db d f s) = env s" "env (add_dirty m s) = env s" "env (s\<lparr>stat_expiredkeys := n\<rparr>) = env s" "env (s\<lparr>stat_keyspace_hits := n\<rparr>) = env s"
  "env (s\<lparr>stat_keyspace_misses := n\<rparr>) = env s" "env (upd_client i g s) = env s" "env (propagateExpire d k lazy s) = env s"
  by (simp_all add: env_def upd_db_def add_dirty_def upd_client_def propagateExpire_def Let_def feedAppendOnlyFile_def replicationFeedSlaves_def)

lemma val_upd:
  assumes "d < length (db s)"
  shows "val (upd_db d f s) e k = (if e = d then (map_of (dict (f (db s ! d))) k, map_of (expires (f (db s ! d))) k) else val s e k)"
  using assms by (auto simp: val_def upd_db_def)

lemma val_other [simp]: "val (add_dirty m s) = val s" "val (s\<lparr>stat_expiredkeys := n\<rparr>) = val s" "val (s\<lparr>stat_keyspace_hits := n\<rparr>) = val s" "val (s\<lparr>stat_keyspace_misses := n\<rparr>) = val s"
  "val (upd_client i g s) = val s" "val (propagateExpire d k lazy s) = val s"
  by (intro ext; simp add: val_def add_dirty_def upd_client_def propagateExpire_def Let_def feedAppendOnlyFile_def replicationFeedSlaves_def)+

lemma clients_other [simp]: "clients (add_dirty m s) = clients s" "clients (upd_db d f s) = clients s" "clients (propagateExpire d k lazy s) = clients s"
  by (simp_all add: add_dirty_def upd_db_def propagateExpire_def Let_def feedAppendOnlyFile_def replicationFeedSlaves_def)

lemma db_propagateExpire [simp]: "db (propagateExpire d k lazy s) = db s"
  by (simp add: propagateExpire_def Let_def feedAppendOnlyFile_def replicationFeedSlaves_def)

lemma server_ok_stat [simp]: "server_ok (s\<lparr>stat_keyspace_hits := n\<rparr>) = server_ok s" "server_ok (s\<lparr>stat_keyspace_misses := n\<rparr>) = server_ok s"
  by (simp_all add: server_ok_def watch_ok_def)

lemma length_db_upd [simp]: "length (db (upd_db d f s)) = length (db s)"
  by (simp add: upd_db_def)

text \<open>The state after a key was looked up: a key past its time is gone.\<close>

definition looked_up :: "nat \<Rightarrow> byte list \<Rightarrow> server \<Rightarrow> server \<Rightarrow> bool" where
  "looked_up d k s t \<longleftrightarrow> plain t \<and> env t = env s \<and> clients t = clients s \<and>
     (\<forall>e k'. val t e k' = (if e = d \<and> k' = k \<and> view s d k = None then (None, None) else val s e k'))"

lemma looked_up_view: "looked_up d k s t \<Longrightarrow> view t = view s"
proof (intro ext)
  fix e k' assume a: "looked_up d k s t"
  show "view t e k' = view s e k'"
  proof (cases "e = d \<and> k' = k \<and> view s d k = None")
    case True then show ?thesis using a by (simp add: looked_up_def view_def)
  next
    case False
    then have "val t e k' = val s e k'" "mstime t = mstime s" using a False env_fields(6) [of t s] by (auto simp: looked_up_def)
    then show ?thesis by (simp add: view_def split: prod.split option.split)
  qed
qed

lemma looked_up_val: "looked_up d k s t \<Longrightarrow> fst (val t d k) = view s d k"
  by (cases "val s d k") (auto simp: looked_up_def view_def split: option.splits if_splits)

lemma expire_lookup:
  assumes "plain s" "d < length (db s)"
  shows "looked_up d k s (fst (expireIfNeeded d k s))"
proof -
  let ?t = "fst (expireIfNeeded d k s)"
  have db: "db_ok (db s ! d)" using plain_db_ok [OF assms] .
  have dict: "map_of (expires (db s ! d)) k = Some w \<Longrightarrow> map_of (dict (db s ! d)) k \<noteq> None" for w
    using db map_of_SomeD [of "expires (db s ! d)" k w] by (force simp: db_ok_def map_of_eq_None_iff)
  then have g: "getExpire d k s = (s, case map_of (expires (db s ! d)) k of None \<Rightarrow> - 1 | Some w \<Rightarrow> w)"
    by (simp add: getExpire_def serverAssert_def split: option.split)
  have so: "server_ok ?t" using chg_expireIfNeeded [of s d k] assms(1) by (simp add: chg_def plain_def)
  have p: "\<not> masterhost s" "\<not> loading s" "notify_keyspace_events s = {}" using assms(1) by (auto simp: plain_def)
  show ?thesis
  proof (cases "\<exists>w. map_of (expires (db s ! d)) k = Some w \<and> 0 \<le> w \<and> w < mstime s")
    case True
    then obtain w where w: "map_of (expires (db s ! d)) k = Some w" "0 \<le> w" "w < mstime s" by blast
    let ?u = "propagateExpire d k (lazyfree_lazy_expire s) (s\<lparr>stat_expiredkeys := stat_expiredkeys s + 1\<rparr>)"
    have n: "notifyKeyspaceEvent NOTIFY_EXPIRED ''expired'' k d ?u = ?u"
      using p(3) by (simp add: notifyKeyspaceEvent_def propagateExpire_def Let_def feedAppendOnlyFile_def replicationFeedSlaves_def)
    have t: "?t = fst (dbSyncDelete d k ?u)" using g w p n by (simp add: expireIfNeeded_def Let_def)
    have l: "d < length (db ?u)" and dbu: "db ?u = db s" using assms(2) by simp_all
    have v: "view s d k = None" using w assms(2) dict [OF w(1)] by (auto simp: view_def val_def)
    have "map_of (dict (db (upd_db d (\<lambda>r. r\<lparr>expires := AList.delete k (expires r)\<rparr>) ?u) ! d)) k \<noteq> None"
      using dict [OF w(1)] l dbu by (simp add: upd_db_def)
    then have "?t = upd_db d (\<lambda>r. r\<lparr>dict := AList.delete k (dict r)\<rparr>) (upd_db d (\<lambda>r. r\<lparr>expires := AList.delete k (expires r)\<rparr>) ?u)"
      unfolding t dbSyncDelete_def Let_def by simp
    note t' = this
    have e: "env ?t = env s" unfolding t' by simp
    have "val ?t e k' = (if e = d \<and> k' = k then (None, None) else val s e k')" for e k'
      unfolding t' using l assms(2) by (auto simp: val_upd delete_conv' val_def upd_db_def nth_list_update)
    moreover have "clients ?t = clients s" unfolding t' by simp
    ultimately show ?thesis using e v plain_env [OF assms(1) e so] by (simp add: looked_up_def)
  next
    case False
    then have "?t = s" using g p by (cases "map_of (expires (db s ! d)) k") (auto simp: expireIfNeeded_def Let_def)
    moreover have "view s d k = None \<Longrightarrow> val s d k = (None, None)"
      using False assms(2) dict by (cases "map_of (expires (db s ! d)) k"; cases "map_of (dict (db s ! d)) k") (auto simp: view_def val_def)
    ultimately show ?thesis using assms(1) by (simp add: looked_up_def)
  qed
qed

lemma lookupKeyWrite_view:
  assumes "plain s" "d < length (db s)"
  shows "\<exists>t. lookupKeyWrite d k s = (t, view s d k) \<and> looked_up d k s t"
proof -
  let ?t = "fst (expireIfNeeded d k s)"
  have l: "looked_up d k s ?t" by (rule expire_lookup [OF assms])
  have "d < length (db ?t)" using l assms(2) env_fields(1) [of ?t s] by (simp add: looked_up_def)
  then have "lookupKey d k ?t = view s d k" using looked_up_val [OF l] by (simp add: lookupKey_def val_def)
  then show ?thesis using l by (simp add: lookupKeyWrite_def split_beta)
qed

lemma expireIfNeeded_snd: "plain s \<Longrightarrow> d < length (db s) \<Longrightarrow> snd (expireIfNeeded d k s) \<Longrightarrow> view s d k = None"
proof -
  assume a: "plain s" "d < length (db s)" "snd (expireIfNeeded d k s)"
  then have "\<exists>w. map_of (expires (db s ! d)) k = Some w \<and> 0 \<le> w \<and> w < mstime s"
    by (auto simp: expireIfNeeded_def getExpire_def plain_def serverAssert_def Let_def split: option.splits if_splits)
  then show ?thesis using a(2) by (auto simp: view_def val_def split: option.splits)
qed

lemma lookupKeyRead_view:
  assumes "plain s" "d < length (db s)"
  shows "\<exists>t. lookupKeyRead d k s = (t, view s d k) \<and> looked_up d k s t"
proof -
  obtain t b where t: "expireIfNeeded d k s = (t, b)" by (cases "expireIfNeeded d k s")
  have l: "looked_up d k s t" using expire_lookup [OF assms, of k] t by simp
  have m: "\<not> masterhost t" using l by (simp add: looked_up_def plain_def)
  have "d < length (db t)" using l assms(2) env_fields(1) [of t s] by (simp add: looked_up_def)
  then have k: "lookupKey d k t = view s d k" using looked_up_val [OF l] by (simp add: lookupKey_def val_def)
  have c: "looked_up d k s (t\<lparr>stat_keyspace_hits := n\<rparr>)" "looked_up d k s (t\<lparr>stat_keyspace_misses := n\<rparr>)" for n
    using l by (simp_all add: looked_up_def plain_def)
  have b: "b \<Longrightarrow> view s d k = None" using expireIfNeeded_snd [OF assms, of k] t by simp
  show ?thesis
  proof (cases b)
    case True
    then show ?thesis using l m t b by (simp add: lookupKeyRead_def lookupKeyReadWithFlags_def)
  next
    case False
    then show ?thesis using c k t by (cases "view s d k") (simp_all add: lookupKeyRead_def lookupKeyReadWithFlags_def)
  qed
qed

section \<open>Writing a key\<close>

text \<open>A client but for the mark that a watched key changed.\<close>

definition marked :: "client \<Rightarrow> client \<Rightarrow> bool" where
  "marked c c' \<longleftrightarrow> c' = c \<or> c' = c\<lparr>flags := insert CLIENT_DIRTY_CAS (flags c)\<rparr>"

lemma marked_signal: "marked (clients s j) (clients (signalModifiedKey d k s) j) \<and> env (signalModifiedKey d k s) = env s \<and> val (signalModifiedKey d k s) = val s"
proof -
  have "marked (clients s j) (clients (fold dirty_cas cs s) j) \<and> env (fold dirty_cas cs s) = env s \<and> val (fold dirty_cas cs s) = val s" for cs
  proof (induction cs arbitrary: s)
    case (Cons i cs)
    have "marked (clients s j) (clients (dirty_cas i s) j)" by (simp add: marked_def dirty_cas_def upd_client_def)
    moreover have "env (dirty_cas i s) = env s" "val (dirty_cas i s) = val s" by (simp_all add: dirty_cas_def)
    ultimately show ?case using Cons.IH [of "dirty_cas i s"] by (auto simp: marked_def)
  qed (simp add: marked_def)
  then show ?thesis by (simp add: signalModifiedKey_def touchWatchedKey_def marked_def split: option.split)
qed

definition wrote :: "nat \<Rightarrow> byte list \<Rightarrow> robj option \<times> int option \<Rightarrow> server \<Rightarrow> server \<Rightarrow> bool" where
  "wrote d k v s t \<longleftrightarrow> plain t \<and> env t = env s \<and> (\<forall>j. marked (clients s j) (clients t j)) \<and> (\<forall>e k'. val t e k' = (if e = d \<and> k' = k then v else val s e k'))"

lemma signalled:
  assumes "plain s" "server_ok u" "env u = env s" "clients u = clients s" "\<And>e k'. val u e k' = (if e = d \<and> k' = k then v else val s e k')"
  shows "wrote d k v s (signalModifiedKey d k u)"
proof -
  have c: "server_ok (signalModifiedKey d k u)" using chg_signal [of u d k] assms(2) by (simp add: chg_def)
  have m: "marked (clients u j) (clients (signalModifiedKey d k u) j)" "env (signalModifiedKey d k u) = env u" "val (signalModifiedKey d k u) = val u" for j
    using marked_signal [of u j d k] by simp_all
  show ?thesis using plain_env [OF assms(1) _ c] m assms(3-5) by (simp add: wrote_def)
qed

lemma stored:
  assumes "plain s" "d < length (db s)" "looked_up d k s t" "u = (if view s d k = None then dbAdd d k v t else dbOverwrite d k v t)"
  shows "env u = env s" "clients u = clients s" "val u e k' = (if e = d \<and> k' = k then (Some v, snd (val t d k)) else val s e k')" "server_ok u"
proof -
  have l: "d < length (db t)" using assms(2,3) env_fields(1) [of t s] by (simp add: looked_up_def)
  have "map_of (dict (db t ! d)) k = view s d k" using looked_up_val [OF assms(3)] l by (simp add: val_def)
  then have u: "u = upd_db d (\<lambda>r. r\<lparr>dict := AList.update k v (dict r)\<rparr>) t" using assms(4) by (auto simp: dbAdd_def dbOverwrite_def serverAssert_def)
  show "env u = env s" "clients u = clients s" unfolding u using assms(3) by (simp_all add: looked_up_def)
  have "val u e k' = (if e = d \<and> k' = k then (Some v, snd (val t d k)) else val t e k')" unfolding u using l by (simp add: val_upd update_conv') (auto simp: val_def)
  then show "val u e k' = (if e = d \<and> k' = k then (Some v, snd (val t d k)) else val s e k')" using assms(3) by (auto simp: looked_up_def)
  have "chg {} {(d, k)} t u" unfolding u by (intro chg_intros chg_refl)
  then show "server_ok u" using assms(3) by (simp add: chg_def looked_up_def plain_def)
qed

lemma setKey_wrote:
  assumes "plain s" "d < length (db s)"
  shows "wrote d k (Some v, None) s (setKey d k v s)"
proof -
  obtain t where t: "lookupKeyWrite d k s = (t, view s d k)" "looked_up d k s t" using lookupKeyWrite_view [OF assms] by blast
  define u where "u = (if view s d k = None then dbAdd d k v t else dbOverwrite d k v t)"
  note u = stored [OF assms t(2) u_def]
  have l: "d < length (db u)" using u(1) assms(2) env_fields(1) [of u s] by simp
  have "map_of (dict (db u ! d)) k = Some v" using u(3) [of d k] l by (simp add: val_def split: if_splits)
  then have r: "fst (removeExpire d k u) = upd_db d (\<lambda>r. r\<lparr>expires := AList.delete k (expires r)\<rparr>) u" by (simp add: removeExpire_def serverAssert_def)
  let ?w = "fst (removeExpire d k u)"
  have "chg {} {(d, k)} u ?w" by (intro chg_intros chg_refl)
  then have so: "server_ok ?w" using u(4) by (simp add: chg_def)
  have "val ?w e k' = (if e = d \<and> k' = k then (Some v, None) else val s e k')" for e k'
  proof -
    have "val ?w e k' = (if e = d \<and> k' = k then (fst (val u d k), None) else val u e k')" unfolding r using l by (simp add: val_upd delete_conv') (auto simp: val_def)
    then show ?thesis using u(3) by simp
  qed
  moreover have "env ?w = env s" "clients ?w = clients s" unfolding r using u(1,2) by simp_all
  ultimately have "wrote d k (Some v, None) s (signalModifiedKey d k ?w)" using signalled [OF assms(1) so] by blast
  then show ?thesis using t(1) by (cases "view s d k") (simp_all add: setKey_def u_def split_beta)
qed

section \<open>Commands and their replies\<close>

lemma marked_refl [simp]: "marked c c"
  by (simp add: marked_def)

lemma marked_trans: "marked a b \<Longrightarrow> marked b c \<Longrightarrow> marked a c"
  unfolding marked_def by (elim disjE) simp_all

definition others :: "nat \<Rightarrow> server \<Rightarrow> server \<Rightarrow> bool" where
  "others i s t \<longleftrightarrow> (\<forall>j. j \<noteq> i \<longrightarrow> marked (clients s j) (clients t j))"

lemma others_trans: "others i s t \<Longrightarrow> others i t u \<Longrightarrow> others i s u"
  unfolding others_def using marked_trans by metis

lemma others_intros [simp]: "clients t = clients s \<Longrightarrow> others i s t" "\<forall>j. marked (clients s j) (clients t j) \<Longrightarrow> others i s t" "others i s (upd_client i f t) = others i s t"
  by (simp_all add: others_def upd_client_def)

text \<open>A command of client \<open>i\<close> answered: its reply is the next output of the client, and the server is ready for the next one.\<close>

definition answered :: "nat \<Rightarrow> byte list \<Rightarrow> server \<Rightarrow> server \<Rightarrow> bool" where
  "answered i bs s t \<longleftrightarrow> plain t \<and> env t = env s \<and> appended (clients s i) bs (clients t i) \<and> cargs t i = cargs s i \<and> cur_db t i = cur_db s i \<and> cmd (clients t i) = cmd (clients s i) \<and>
     flags (clients t i) \<inter> {CLIENT_MULTI, CLIENT_PUBSUB} = flags (clients s i) \<inter> {CLIENT_MULTI, CLIENT_PUBSUB} \<and>
     others i s t"

lemma answered_trans: "answered i bs s t \<Longrightarrow> answered i cs t u \<Longrightarrow> answered i (bs @ cs) s u"
  by (auto simp: answered_def appended_def intro: others_trans)

definition ready :: "nat \<Rightarrow> server \<Rightarrow> bool" where
  "ready i s \<longleftrightarrow> plain s \<and> out_ok (clients s i) \<and> writable (clients s i) \<and> cur_db s i < length (db s)"

lemma answered_ready: "answered i bs s t \<Longrightarrow> ready i s \<Longrightarrow> ready i t"
  using env_fields(1) [of t s] by (auto simp: answered_def ready_def appended_def)

lemma looked_up_ran: "looked_up d k s t \<Longrightarrow> ready i s \<Longrightarrow> answered i [] s t"
  by (simp add: answered_def looked_up_def ready_def appended_def)

lemma marked_client: "marked c c' \<Longrightarrow> argv c' = argv c \<and> cdb c' = cdb c \<and> cmd c' = cmd c \<and> out_ok c' = out_ok c \<and> pending c' = pending c \<and> writable c' = writable c \<and>
    flags c' \<inter> {CLIENT_MULTI, CLIENT_PUBSUB} = flags c \<inter> {CLIENT_MULTI, CLIENT_PUBSUB}"
  unfolding marked_def by (elim disjE) (simp_all add: out_ok_def sent_ok_def pending_def writable_def prepareClientToWrite_def clientHasPendingReplies_def)

lemma wrote_ran: "wrote d k v s t \<Longrightarrow> ready i s \<Longrightarrow> answered i [] s t"
  using marked_client [of "clients s i" "clients t i"] by (auto simp: answered_def wrote_def ready_def appended_def)

lemma client_ran:
  assumes "ready i s" "\<And>c. creply c (f c)" "appended (clients s i) bs (f (clients s i))"
  shows "answered i bs s (upd_client i f s)" "val (upd_client i f s) = val s"
proof -
  have "server_ok (upd_client i f s)" using chg_sreply [OF sreply_upd [OF assms(2), of s i]] assms(1) by (simp add: chg_def ready_def plain_def)
  then have "plain (upd_client i f s)" using assms(1) plain_env [of s "upd_client i f s"] by (simp add: ready_def)
  moreover have "creply (clients s i) (f (clients s i))" by (rule assms(2))
  ultimately show "answered i bs s (upd_client i f s)" using assms(3) by (simp add: answered_def creply_def) (auto simp: upd_client_def)
qed simp

lemma int_reply: "n < 2 ^ 63 \<Longrightarrow> sint (of_int (int n) :: s64) = int n"
  by (subst signed_of_int) (auto simp: signed_take_bit_int_eq_self)

lemma replies_ran:
  assumes "ready i s"
  shows "answered i (getDecodedObject ob) s (reply_obj i ob s)" "val (reply_obj i ob s) = val s"
    "length (getDecodedObject ob) < 2 ^ 63 \<Longrightarrow> answered i (bulk (getDecodedObject ob)) s (reply_bulk i ob s)" "val (reply_bulk i ob s) = val s"
    "n < 2 ^ 63 \<Longrightarrow> answered i (58 # dec n @ crlf) s (reply_ll i (int n) s)" "val (reply_ll i m s) = val s"
    "answered i (chars ''-ERR '' @ chars e @ crlf) s (reply_err i e s)" "val (reply_err i e s) = val s"
proof -
  have w: "out_ok (clients s i)" "writable (clients s i)" using assms by (auto simp: ready_def)
  show "answered i (getDecodedObject ob) s (reply_obj i ob s)" "val (reply_obj i ob s) = val s"
    unfolding reply_obj_def using client_ran [OF assms, of "\<lambda>c. addReply (ocfg s) c ob" "getDecodedObject ob"] creply_addReply obj_sink.add_appends [OF w, of ob "ocfg s"] by simp_all
  show "answered i (bulk (getDecodedObject ob)) s (reply_bulk i ob s)" if "length (getDecodedObject ob) < 2 ^ 63"
    unfolding reply_bulk_def using client_ran(1) [OF assms, of "\<lambda>c. addReplyBulk (ocfg s) c ob" "bulk (getDecodedObject ob)"] creply_bulk addReplyBulk_ok [OF w that, of "ocfg s"] by simp
  show "answered i (58 # dec n @ crlf) s (reply_ll i (int n) s)" if "n < 2 ^ 63"
    unfolding reply_ll_def using client_ran(1) [OF assms, of "\<lambda>c. addReplyLongLong (ocfg s) c (of_int (int n))" "58 # dec n @ crlf"]
      creply_ll addReplyLongLong_ok [OF w, of "of_int (int n)" "ocfg s"] int_reply [OF that] by (simp add: dec_int_def)
  show "answered i (chars ''-ERR '' @ chars e @ crlf) s (reply_err i e s)"
    unfolding reply_err_def using client_ran(1) [OF assms, of "\<lambda>c. addReplyError (ocfg s) c e" "chars ''-ERR '' @ chars e @ crlf"]
      addReplyErrorLength_ok [OF w, of "chars e" "ocfg s"] by (simp add: addReplyError_def creply_errlen)
qed (simp_all add: reply_bulk_def reply_ll_def reply_err_def)

end
