(* ===== verification/Store_Commands.thy ===== *)
theory Store_Commands
  imports Store_View
begin

text \<open>
  An abstract store with the commands GET, SET, SETNX, GETSET, APPEND, STRLEN, INCRBY, EXISTS and DEL, and that the procedures of the server do what the store says.
\<close>

section \<open>The abstract store\<close>

datatype avalue = Text "byte list" | Other robj

fun abs_obj :: "robj \<Rightarrow> avalue" where
  "abs_obj (OBJ_STRING v) = Text (getDecodedObject v)"
| "abs_obj ob = Other ob"

type_synonym store = "byte list \<Rightarrow> avalue option"

definition store :: "server \<Rightarrow> nat \<Rightarrow> store" where
  "store s d k = map_option abs_obj (view s d k)"

datatype scmd = Get "byte list" | Put "byte list" "byte list" | Putnx "byte list" "byte list" | Getset "byte list" "byte list" | Append "byte list" "byte list" | Strlen "byte list" |
  Incrby "byte list" "byte list" | Exists "byte list" | Del "byte list"

fun request :: "scmd \<Rightarrow> byte list list" where
  "request (Get k) = [chars ''get'', k]"
| "request (Put k v) = [chars ''set'', k, v]"
| "request (Putnx k v) = [chars ''setnx'', k, v]"
| "request (Getset k v) = [chars ''getset'', k, v]"
| "request (Append k v) = [chars ''append'', k, v]"
| "request (Strlen k) = [chars ''strlen'', k]"
| "request (Incrby k n) = [chars ''incrby'', k, n]"
| "request (Exists k) = [chars ''exists'', k]"
| "request (Del k) = [chars ''del'', k]"

definition line :: "string \<Rightarrow> byte list" where "line t = chars t @ crlf"
definition number :: "int \<Rightarrow> byte list" where "number n = 58 # dec_int n @ crlf"
definition wrongtype :: "byte list" where "wrongtype = line ''-WRONGTYPE Operation against a key holding the wrong kind of value''"

fun spec :: "scmd \<Rightarrow> store \<Rightarrow> store \<times> byte list" where
  "spec (Get k) m = (m, case m k of None \<Rightarrow> line ''$-1'' | Some (Text v) \<Rightarrow> bulk v | Some (Other _) \<Rightarrow> wrongtype)"
| "spec (Put k v) m = (m(k \<mapsto> Text v), line ''+OK'')"
| "spec (Putnx k v) m = (if m k = None then (m(k \<mapsto> Text v), number 1) else (m, number 0))"
| "spec (Getset k v) m = (case m k of None \<Rightarrow> (m(k \<mapsto> Text v), line ''$-1'') | Some (Text u) \<Rightarrow> (m(k \<mapsto> Text v), bulk u) | Some (Other _) \<Rightarrow> (m, wrongtype))"
| "spec (Append k v) m =
    (case m k of
       None \<Rightarrow> (m(k \<mapsto> Text v), number (int (length v)))
     | Some (Text u) \<Rightarrow>
         if length u + length v > 512 * 1024 * 1024 then (m, line ''-ERR string exceeds maximum allowed size (512MB)'')
         else (m(k \<mapsto> Text (u @ v)), number (int (length u + length v)))
     | Some (Other _) \<Rightarrow> (m, wrongtype))"
| "spec (Strlen k) m = (m, case m k of None \<Rightarrow> number 0 | Some (Text u) \<Rightarrow> number (int (length u)) | Some (Other _) \<Rightarrow> wrongtype)"
| "spec (Incrby k n) m =
    (case string2ll n of
       None \<Rightarrow> (m, line ''-ERR value is not an integer or out of range'')
     | Some incr \<Rightarrow>
         (case (case m k of None \<Rightarrow> Some (Text (chars ''0'')) | x \<Rightarrow> x) of
            Some (Text u) \<Rightarrow>
              (case string2ll u of
                 None \<Rightarrow> (m, line ''-ERR value is not an integer or out of range'')
               | Some old \<Rightarrow>
                   let new = sint old + sint incr in
                   if new < - (2 ^ 63) \<or> new \<ge> 2 ^ 63 then (m, line ''-ERR increment or decrement would overflow'')
                   else (m(k \<mapsto> Text (dec_int new)), number new))
          | _ \<Rightarrow> (m, wrongtype)))"
| "spec (Exists k) m = (m, number (if m k = None then 0 else 1))"
| "spec (Del k) m = (m(k := None), number (if m k = None then 0 else 1))"

fun small :: "scmd \<Rightarrow> bool" where
  "small (Put k v) = (length v < 2 ^ 62)" | "small (Putnx k v) = (length v < 2 ^ 62)" | "small (Getset k v) = (length v < 2 ^ 62)" | "small (Append k v) = (length v < 2 ^ 62)" | "small _ = True"

definition small_store :: "store \<Rightarrow> bool" where
  "small_store m \<longleftrightarrow> (\<forall>k u. m k = Some (Text u) \<longrightarrow> length u < 2 ^ 62)"

lemma small_storeD: "small_store m \<Longrightarrow> m k = Some (Text u) \<Longrightarrow> length u < 2 ^ 62"
  unfolding small_store_def by blast

text \<open>A command does what the store says.\<close>

definition does :: "nat \<Rightarrow> scmd \<Rightarrow> server \<Rightarrow> server \<Rightarrow> bool" where
  "does i c s t \<longleftrightarrow> (let d = cur_db s i in answered i (snd (spec c (store s d))) s t \<and> store t = (store s)(d := fst (spec c (store s d))))"

lemma view_val: "val t = val s \<Longrightarrow> mstime t = mstime s \<Longrightarrow> view t = view s"
  by (intro ext) (simp add: view_def split: prod.split option.split)

lemma answered_time: "answered i bs s t \<Longrightarrow> mstime t = mstime s"
  using env_fields(6) [of t s] by (simp add: answered_def)

lemma answered_view: "answered i bs s t \<Longrightarrow> val t = val s \<Longrightarrow> view t = view s"
  by (rule view_val) (simp_all add: answered_time)

lemma store_view: "view t = view s \<Longrightarrow> store t = store s"
  by (intro ext) (simp add: store_def)

text \<open>The time to live of a key that is seen has not passed.\<close>

definition live :: "int option \<Rightarrow> server \<Rightarrow> bool" where
  "live w s \<longleftrightarrow> (case w of None \<Rightarrow> True | Some w \<Rightarrow> \<not> (0 \<le> w \<and> w < mstime s))"

lemma looked_up_live: "looked_up d k s t \<Longrightarrow> live (snd (val t d k)) s"
  by (cases "val s d k") (auto simp: looked_up_def live_def view_def split: option.splits if_splits)

lemma wrote_store:
  assumes "wrote d k (Some v, w) s t" "live w s"
  shows "store t = (store s)(d := (store s d)(k \<mapsto> abs_obj v))"
proof (intro ext)
  fix e k'
  have m: "mstime t = mstime s" using assms(1) env_fields(6) [of t s] by (simp add: wrote_def)
  have v: "val t e k' = (if e = d \<and> k' = k then (Some v, w) else val s e k')" using assms(1) by (simp add: wrote_def)
  show "store t e k' = ((store s)(d := (store s d)(k \<mapsto> abs_obj v))) e k'"
    using m v assms(2) by (auto simp: store_def view_def live_def split: prod.split option.split)
qed

lemma shared_line [simp]: "getDecodedObject (shared_txt t) = line t"
  by (simp add: shared_txt_def line_def)

lemma number_nat: "number (int n) = 58 # dec n @ crlf" "number 0 = line '':0''" "number 1 = line '':1''"
  by (simp_all add: number_def dec_int_def line_def dec.simps chars_def)

lemma arg_value_abs [simp]: "getDecodedObject (arg_value v) = v"
  by (simp add: arg_value_def)

lemma get_generic:
  assumes "ready i s" "cargs s i ! 1 = k" "small_store (store s (cur_db s i))"
  shows "\<exists>t. getGenericCommand i s = (t, \<forall>ob. store s (cur_db s i) k \<noteq> Some (Other ob)) \<and> answered i (snd (spec (Get k) (store s (cur_db s i)))) s t \<and> view t = view s"
proof -
  let ?d = "cur_db s i"
  have p: "plain s" "?d < length (db s)" using assms(1) by (auto simp: ready_def)
  obtain t where t: "lookupKeyRead ?d k s = (t, view s ?d k)" "looked_up ?d k s t" using lookupKeyRead_view [OF p] by blast
  have a: "answered i [] s t" "view t = view s" using looked_up_ran [OF t(2) assms(1)] looked_up_view [OF t(2)] by simp_all
  have r: "ready i t" using answered_ready [OF a(1) assms(1)] .
  note rep = replies_ran [OF r]
  show ?thesis
  proof (cases "view s ?d k")
    case None
    then show ?thesis using t a assms(2) answered_trans [OF a(1) rep(1) [of shared_nullbulk]] answered_view [OF rep(1,2)]
      by (simp add: getGenericCommand_def lookupKeyReadOrReply_def store_def)
  next
    case (Some v)
    show ?thesis
    proof (cases "\<exists>w. v = OBJ_STRING w")
      case True
      then obtain w where w: "v = OBJ_STRING w" by blast
      have "length (getDecodedObject w) < 2 ^ 63" using small_storeD [OF assms(3), of k "getDecodedObject w"] Some w by (simp add: store_def)
      then show ?thesis using t a assms(2) Some w answered_trans [OF a(1) rep(3)] answered_view [OF rep(3,4)]
        by (simp add: getGenericCommand_def lookupKeyReadOrReply_def store_def)
    next
      case False
      then show ?thesis using t a assms(2) Some answered_trans [OF a(1) rep(1) [of shared_wrongtypeerr]] answered_view [OF rep(1,2)]
        by (cases v) (simp_all add: getGenericCommand_def lookupKeyReadOrReply_def store_def wrongtype_def)
    qed
  qed
qed

lemma get_does: "ready i s \<Longrightarrow> cargs s i = request (Get k) \<Longrightarrow> small_store (store s (cur_db s i)) \<Longrightarrow> does i (Get k) s (getCommand i s)"
proof -
  assume a: "ready i s" "cargs s i = request (Get k)" "small_store (store s (cur_db s i))"
  then obtain t b where "getGenericCommand i s = (t, b)" "answered i (snd (spec (Get k) (store s (cur_db s i)))) s t" "view t = view s"
    using get_generic [of i s k] by auto
  then show ?thesis using store_view [of t s] by (simp add: does_def getCommand_def)
qed

lemma plain_simps: "plain s \<Longrightarrow> notifyKeyspaceEvent cls ev k d s = s" "plain (add_dirty m s) = plain s"
  by (simp_all add: notifyKeyspaceEvent_def plain_def add_dirty_def server_ok_def watch_ok_def)

lemma dirty_answered: "answered i bs s t \<Longrightarrow> answered i bs s (add_dirty m t)"
  by (simp add: answered_def plain_simps others_def)

lemma wrote_dirty: "wrote d k v s t \<Longrightarrow> wrote d k v s (add_dirty m t)"
  by (simp add: wrote_def plain_simps)

text \<open>What a lookup removes is not seen.\<close>

lemma does_after: "answered i [] s t \<Longrightarrow> view t = view s \<Longrightarrow> does i c t u \<Longrightarrow> does i c s u"
proof -
  assume a: "answered i [] s t" "view t = view s" "does i c t u"
  have "cur_db t i = cur_db s i" "store t = store s" using a(1) store_view [OF a(2)] by (simp_all add: answered_def)
  then show ?thesis using a(3) answered_trans [OF a(1)] by (simp add: does_def Let_def)
qed

text \<open>A written key, then a reply.\<close>

lemma write_does:
  assumes "ready i s" "wrote d k (Some v, w) s t" "live w s" "d = cur_db s i" "answered i bs t u" "val u = val t" "spec c (store s d) = ((store s d)(k \<mapsto> abs_obj v), bs)"
  shows "does i c s u"
proof -
  have "answered i ([] @ bs) s u" by (rule answered_trans [OF wrote_ran [OF assms(2,1)] assms(5)])
  moreover have "store u = store t" using store_view [OF answered_view [OF assms(5,6)]] .
  ultimately show ?thesis using assms(4,7) wrote_store [OF assms(2,3)] by (simp add: does_def)
qed

lemma live_None [simp]: "live None s"
  by (simp add: live_def)

lemma read_does:
  assumes "answered i bs s t" "view t = view s" "spec c (store s (cur_db s i)) = (store s (cur_db s i), bs)"
  shows "does i c s t"
  using assms store_view [OF assms(2)] by (simp add: does_def)

lemma set_does: "ready i s \<Longrightarrow> cargs s i = request (Put k v) \<Longrightarrow> does i (Put k v) s (setCommand i s)"
proof -
  assume a: "ready i s" "cargs s i = request (Put k v)"
  let ?d = "cur_db s i" let ?t = "add_dirty 1 (setKey ?d k (OBJ_STRING (arg_value v)) s)"
  have w: "wrote ?d k (Some (OBJ_STRING (arg_value v)), None) s ?t" using a(1) by (intro wrote_dirty setKey_wrote) (auto simp: ready_def)
  have r: "ready i ?t" using answered_ready [OF wrote_ran [OF w a(1)] a(1)] .
  have "does i (Put k v) s (reply_obj i shared_ok ?t)" by (rule write_does [OF a(1) w live_None refl replies_ran(1,2) [OF r]]) simp
  moreover have "setCommand i s = reply_obj i shared_ok ?t" using a(2) r by (simp add: setCommand_def setGenericCommand_def Let_def plain_simps ready_def)
  ultimately show ?thesis by simp
qed

lemma setnx_does: "ready i s \<Longrightarrow> cargs s i = request (Putnx k v) \<Longrightarrow> does i (Putnx k v) s (setnxCommand i s)"
proof -
  assume a: "ready i s" "cargs s i = request (Putnx k v)"
  let ?d = "cur_db s i"
  have p: "plain s" "?d < length (db s)" using a(1) by (auto simp: ready_def)
  obtain u where u: "lookupKeyWrite ?d k s = (u, view s ?d k)" "looked_up ?d k s u" using lookupKeyWrite_view [OF p] by blast
  have au: "answered i [] s u" using looked_up_ran [OF u(2) a(1)] .
  have ru: "ready i u" using answered_ready [OF au a(1)] .
  have vu: "view u = view s" using looked_up_view [OF u(2)] .
  show ?thesis
  proof (cases "view s ?d k")
    case None
    let ?t = "add_dirty 1 (setKey ?d k (OBJ_STRING (arg_value v)) u)"
    have du: "cur_db u i = ?d" using au by (simp add: answered_def)
    have w: "wrote ?d k (Some (OBJ_STRING (arg_value v)), None) u ?t" using ru du by (intro wrote_dirty setKey_wrote) (auto simp: ready_def)
    have r: "ready i ?t" using answered_ready [OF wrote_ran [OF w ru] ru] .
    have "does i (Putnx k v) u (reply_obj i shared_cone ?t)"
      by (rule write_does [OF ru w live_None du [symmetric] replies_ran(1,2) [OF r]]) (use None vu du in \<open>simp add: store_def number_nat\<close>)
    moreover have "setnxCommand i s = reply_obj i shared_cone ?t" using a(2) r None u(1) by (simp add: setnxCommand_def setGenericCommand_def Let_def plain_simps ready_def)
    ultimately show ?thesis using does_after [OF au vu] by simp
  next
    case (Some w)
    then have "setnxCommand i s = reply_obj i shared_czero u" using a(2) u(1) by (simp add: setnxCommand_def setGenericCommand_def Let_def)
    moreover have "does i (Putnx k v) s (reply_obj i shared_czero u)"
      by (rule read_does [where bs = "number 0"]) (use answered_trans [OF au replies_ran(1) [OF ru, of shared_czero]] answered_view [OF replies_ran(1,2) [OF ru]] vu Some in \<open>simp_all add: store_def number_nat\<close>)
    ultimately show ?thesis by simp
  qed
qed

lemma getset_does: "ready i s \<Longrightarrow> cargs s i = request (Getset k v) \<Longrightarrow> small_store (store s (cur_db s i)) \<Longrightarrow> does i (Getset k v) s (getsetCommand i s)"
proof -
  assume a: "ready i s" "cargs s i = request (Getset k v)" "small_store (store s (cur_db s i))"
  let ?d = "cur_db s i" let ?m = "store s ?d"
  obtain t b where t: "getGenericCommand i s = (t, b)" "b = (\<forall>ob. ?m k \<noteq> Some (Other ob))" "answered i (snd (spec (Get k) ?m)) s t" "view t = view s"
    using get_generic [OF a(1) _ a(3), of k] a(2) by auto
  have r: "ready i t" using answered_ready [OF t(3) a(1)] .
  have dt: "cur_db t i = ?d" "cargs t i = cargs s i" using t(3) by (simp_all add: answered_def)
  show ?thesis
  proof (cases b)
    case False
    then obtain ob where ob: "?m k = Some (Other ob)" using t(2) by blast
    have "does i (Getset k v) s t" by (rule read_does [OF _ t(4)]) (use t(3) ob in simp_all)
    then show ?thesis using t(1) False by (simp add: getsetCommand_def)
  next
    case True
    let ?w = "add_dirty 1 (setKey ?d k (OBJ_STRING (arg_value v)) t)"
    have w: "wrote ?d k (Some (OBJ_STRING (arg_value v)), None) t ?w" using r dt by (intro wrote_dirty setKey_wrote) (auto simp: ready_def)
    have "answered i (snd (spec (Get k) ?m) @ []) s ?w" by (rule answered_trans [OF t(3) wrote_ran [OF w r]])
    moreover have "store ?w = (store s)(?d := ?m(k \<mapsto> Text v))" using wrote_store [OF w] store_view [OF t(4)] by simp
    moreover have "snd (spec (Getset k v) ?m) = snd (spec (Get k) ?m)" "fst (spec (Getset k v) ?m) = ?m(k \<mapsto> Text v)"
      using True t(2) by (auto split: option.split avalue.split)
    ultimately have "does i (Getset k v) s ?w" by (simp add: does_def Let_def)
    moreover have "plain (setKey ?d k (OBJ_STRING (arg_value v)) t)" using w by (simp add: wrote_def plain_simps)
    ultimately show ?thesis using t(1) True dt a(2) by (simp add: getsetCommand_def Let_def plain_simps)
  qed
qed

text \<open>Replies after a lookup.\<close>

lemma after_lookup:
  assumes "ready i s" "looked_up d k s u"
  shows "answered i [] s u" "ready i u" "view u = view s" "cur_db u i = cur_db s i" "cargs u i = cargs s i"
    "spec c (store s (cur_db s i)) = (store s (cur_db s i), line t) \<Longrightarrow> does i c s (reply_obj i (shared_txt t) u)"
    "spec c (store s (cur_db s i)) = (store s (cur_db s i), number (int m)) \<Longrightarrow> m < 2 ^ 63 \<Longrightarrow> does i c s (reply_ll i (int m) u)"
    "spec c (store s (cur_db s i)) = (store s (cur_db s i), chars ''-ERR '' @ line e) \<Longrightarrow> does i c s (reply_err i e u)"
proof -
  show a: "answered i [] s u" by (rule looked_up_ran [OF assms(2,1)])
  show r: "ready i u" by (rule answered_ready [OF a assms(1)])
  show v: "view u = view s" by (rule looked_up_view [OF assms(2)])
  show "cur_db u i = cur_db s i" "cargs u i = cargs s i" using a by (simp_all add: answered_def)
  have "answered i (line t) s (reply_obj i (shared_txt t) u)" "view (reply_obj i (shared_txt t) u) = view s"
    using answered_trans [OF a replies_ran(1) [OF r, of "shared_txt t"]] answered_view [OF replies_ran(1,2) [OF r]] v by simp_all
  then show "spec c (store s (cur_db s i)) = (store s (cur_db s i), line t) \<Longrightarrow> does i c s (reply_obj i (shared_txt t) u)" by (rule read_does)
  have "answered i (number (int m)) s (reply_ll i (int m) u)" "view (reply_ll i (int m) u) = view s" if "m < 2 ^ 63"
    using answered_trans [OF a replies_ran(5) [OF r that]] answered_view [OF replies_ran(5) [OF r that] replies_ran(6) [OF r]] v by (simp_all add: number_nat)
  then show "spec c (store s (cur_db s i)) = (store s (cur_db s i), number (int m)) \<Longrightarrow> m < 2 ^ 63 \<Longrightarrow> does i c s (reply_ll i (int m) u)" using read_does by blast
  have "answered i (chars ''-ERR '' @ line e) s (reply_err i e u)" "view (reply_err i e u) = view s"
    using answered_trans [OF a replies_ran(7) [OF r, of e]] answered_view [OF replies_ran(7,8) [OF r]] v by (simp_all add: line_def)
  then show "spec c (store s (cur_db s i)) = (store s (cur_db s i), chars ''-ERR '' @ line e) \<Longrightarrow> does i c s (reply_err i e u)" by (rule read_does)
qed

lemma err_line: "line (''-ERR '' @ e) = chars ''-ERR '' @ line e"
  by (simp add: line_def chars_def)

lemma strlen_does: "ready i s \<Longrightarrow> cargs s i = request (Strlen k) \<Longrightarrow> small_store (store s (cur_db s i)) \<Longrightarrow> does i (Strlen k) s (strlenCommand i s)"
proof -
  assume a: "ready i s" "cargs s i = request (Strlen k)" "small_store (store s (cur_db s i))"
  let ?d = "cur_db s i"
  have p: "plain s" "?d < length (db s)" using a(1) by (auto simp: ready_def)
  obtain u where u: "lookupKeyRead ?d k s = (u, view s ?d k)" "looked_up ?d k s u" using lookupKeyRead_view [OF p] by blast
  note l = after_lookup [OF a(1) u(2)]
  show ?thesis
  proof (cases "view s ?d k")
    case None
    then show ?thesis using a(2) u(1) l(6) [of "Strlen k" "'':0''"] by (simp add: strlenCommand_def lookupKeyReadOrReply_def store_def number_nat)
  next
    case (Some w)
    show ?thesis
    proof (cases w)
      case (OBJ_STRING v)
      have n: "stringObjectLen v < 2 ^ 63" using small_storeD [OF a(3), of k "getDecodedObject v"] Some OBJ_STRING by (simp add: store_def stringObjectLen_decoded)
      have "does i (Strlen k) s (reply_ll i (int (stringObjectLen v)) u)" by (rule l(7) [OF _ n]) (use Some OBJ_STRING in \<open>simp add: store_def stringObjectLen_decoded\<close>)
      then show ?thesis using a(2) u(1) Some OBJ_STRING by (simp add: strlenCommand_def lookupKeyReadOrReply_def)
    qed (use a(2) u(1) Some l(6) [of "Strlen k" "''-WRONGTYPE Operation against a key holding the wrong kind of value''"] in
      \<open>simp_all add: strlenCommand_def lookupKeyReadOrReply_def store_def wrongtype_def\<close>)
  qed
qed

text \<open>A key that was looked up, then written with its time to live kept, then a reply.\<close>

lemma signalled_plain: "ready i s \<Longrightarrow> server_ok u \<Longrightarrow> env u = env s \<Longrightarrow> plain (signalModifiedKey d k u)"
  using chg_signal [of u d k] marked_signal [of u i d k] plain_env [of s "signalModifiedKey d k u"] by (simp add: ready_def chg_def)

lemma update_does:
  fixes i :: nat and s :: server
  defines "d \<equiv> cur_db s i"
  assumes "ready i s" "looked_up d k s t"
    and "env u = env s" "clients u = clients s" "\<And>e k'. val u e k' = (if e = d \<and> k' = k then (Some v, snd (val t d k)) else val s e k')" "server_ok u"
    and "\<And>x. ready i x \<Longrightarrow> answered i bs x (f x) \<and> val (f x) = val x" "spec c (store s d) = ((store s d)(k \<mapsto> abs_obj v), bs)"
  shows "does i c s (f (add_dirty 1 (signalModifiedKey d k u)))"
proof -
  have p: "plain s" "d < length (db s)" using assms(2) by (auto simp: ready_def d_def)
  have w: "wrote d k (Some v, snd (val t d k)) s (signalModifiedKey d k u)" by (rule signalled [OF p(1) assms(7,4,5,6)])
  let ?x = "add_dirty 1 (signalModifiedKey d k u)"
  have x: "wrote d k (Some v, snd (val t d k)) s ?x" by (rule wrote_dirty [OF w])
  have "ready i ?x" by (rule answered_ready [OF wrote_ran [OF x assms(2)] assms(2)])
  then have "answered i bs ?x (f ?x)" "val (f ?x) = val ?x" using assms(8) by simp_all
  from write_does [OF assms(2) x looked_up_live [OF assms(3)] _ this assms(9)] show "does i c s (f ?x)" by (simp add: d_def)
qed

lemma put_val: "d < length (db t) \<Longrightarrow> val (upd_db d (\<lambda>r. r\<lparr>dict := AList.update k v (dict r)\<rparr>) t) e k' = (if e = d \<and> k' = k then (Some v, snd (val t d k)) else val t e k')"
  by (simp add: val_upd update_conv') (auto simp: val_def)

lemma unshared:
  assumes "looked_up d k s t" "d < length (db s)" "view s d k = Some (OBJ_STRING v)"
  obtains t' v' where "dbUnshareStringValue d k v t = (t', v')" "getDecodedObject v' = getDecodedObject v" "env t' = env s" "clients t' = clients s" "server_ok t'"
    "snd (val t' d k) = snd (val t d k)" "\<And>e k'. e \<noteq> d \<or> k' \<noteq> k \<Longrightarrow> val t' e k' = val s e k'" "d < length (db t')"
proof -
  have l: "d < length (db t)" using assms(1,2) env_fields(1) [of t s] by (simp add: looked_up_def)
  have k: "map_of (dict (db t ! d)) k \<noteq> None" using looked_up_val [OF assms(1)] assms(3) l by (simp add: val_def)
  have f: "env t = env s" "clients t = clients s" "server_ok t" "\<And>e k'. e \<noteq> d \<or> k' \<noteq> k \<Longrightarrow> val t e k' = val s e k'"
    using assms(1) by (auto simp: looked_up_def plain_def)
  let ?u = "upd_db d (\<lambda>r. r\<lparr>dict := AList.update k (OBJ_STRING (createRawStringObject (getDecodedObject v))) (dict r)\<rparr>) t"
  have "chg {} {(d, k)} t ?u" by (intro chg_intros chg_refl)
  then have u: "server_ok ?u" using f(3) by (simp add: chg_def)
  have o: "dbOverwrite d k (OBJ_STRING (createRawStringObject (getDecodedObject v))) t = ?u" using k by (auto simp: dbOverwrite_def serverAssert_def)
  show ?thesis
  proof (cases "\<exists>x. v = OBJ_ENCODING_RAW x")
    case True
    then show ?thesis using that [of t v] f l by (auto simp: dbUnshareStringValue_def)
  next
    case False
    then have "dbUnshareStringValue d k v t = (?u, createRawStringObject (getDecodedObject v))" using o by (cases v) (simp_all add: dbUnshareStringValue_def Let_def)
    note e = this
    have v: "val ?u e k' = val s e k'" if "e \<noteq> d \<or> k' \<noteq> k" for e k' using put_val [OF l] f(4) [OF that] that by auto
    show ?thesis by (rule that [OF e _ _ _ u _ v]) (use f l put_val [OF l] in \<open>simp_all add: createRawStringObject_def\<close>)
  qed
qed

lemma append_does:
  assumes "ready i s" "cargs s i = request (Append k v)" "small_store (store s (cur_db s i))" "length v < 2 ^ 62"
  shows "does i (Append k v) s (appendCommand i s)"
proof -
  let ?d = "cur_db s i"
  have p: "plain s" "?d < length (db s)" using assms(1) by (auto simp: ready_def)
  obtain t where t: "lookupKeyWrite ?d k s = (t, view s ?d k)" "looked_up ?d k s t" using lookupKeyWrite_view [OF p] by blast
  note l = after_lookup [OF assms(1) t(2)]
  have num: "answered i (number (int m)) x (reply_ll i (int m) x) \<and> val (reply_ll i (int m) x) = val x" if "m < 2 ^ 63" "ready i x" for m x
    using replies_ran(5) [OF that(2,1)] replies_ran(6) [OF that(2)] by (simp add: number_nat)
  show ?thesis
  proof (cases "view s ?d k")
    case None
    let ?u = "dbAdd ?d k (OBJ_STRING (arg_value v)) t" let ?f = "reply_ll i (int (stringObjectLen (arg_value v)))"
    note st = stored [OF p t(2), of ?u "OBJ_STRING (arg_value v)"]
    have "plain (signalModifiedKey ?d k ?u)" using signalled_plain [OF assms(1)] st(1,4) None by simp
    moreover have "does i (Append k v) s (?f (add_dirty 1 (signalModifiedKey ?d k ?u)))"
    proof (rule update_does [OF assms(1) t(2), where bs = "number (int (length v))" and v = "OBJ_STRING (arg_value v)"])
      show "answered i (number (int (length v))) x (?f x) \<and> val (?f x) = val x" if "ready i x" for x
        using num [OF _ that, of "length v"] assms(4) by (simp add: stringObjectLen_decoded)
    qed (use st None in \<open>simp_all add: store_def\<close>)
    ultimately show ?thesis using t(1) None assms(2) by (simp add: appendCommand_def append_value_def Let_def plain_simps)
  next
    case (Some w)
    show ?thesis
    proof (cases w)
      case (OBJ_STRING o')
      let ?n = "length (getDecodedObject o') + length v"
      have m: "store s ?d k = Some (Text (getDecodedObject o'))" using Some OBJ_STRING by (simp add: store_def)
      show ?thesis
      proof (cases "?n > 512 * 1024 * 1024")
        case True
        have "does i (Append k v) s (reply_err i ''string exceeds maximum allowed size (512MB)'' t)"
          by (rule l(8)) (use m True err_line [of "''string exceeds maximum allowed size (512MB)''"] in simp)
        then show ?thesis using t(1) Some OBJ_STRING True assms(2)
          by (simp add: appendCommand_def append_value_def checkStringLength_def stringObjectLen_decoded Let_def)
      next
        case False
        obtain t' v' where u: "dbUnshareStringValue ?d k o' t = (t', v')" "getDecodedObject v' = getDecodedObject o'" "env t' = env s" "clients t' = clients s" "server_ok t'"
          "snd (val t' ?d k) = snd (val t ?d k)" "\<And>e k'. e \<noteq> ?d \<or> k' \<noteq> k \<Longrightarrow> val t' e k' = val s e k'" "?d < length (db t')"
          using unshared [OF t(2) p(2)] Some OBJ_STRING by metis
        let ?new = "OBJ_STRING (OBJ_ENCODING_RAW (getDecodedObject o' @ v))"
        let ?u = "upd_db ?d (\<lambda>r. r\<lparr>dict := AList.update k ?new (dict r)\<rparr>) t'"
        have "chg {} {(?d, k)} t' ?u" by (intro chg_intros chg_refl)
        then have so: "server_ok ?u" using u(5) by (simp add: chg_def)
        have vu: "val ?u e k' = (if e = ?d \<and> k' = k then (Some ?new, snd (val t ?d k)) else val s e k')" for e k'
          using put_val [OF u(8)] u(6,7) by auto
        have "plain (signalModifiedKey ?d k ?u)" using signalled_plain [OF assms(1) so] u(3) by simp
        moreover have "does i (Append k v) s (reply_ll i (int ?n) (add_dirty 1 (signalModifiedKey ?d k ?u)))"
          by (rule update_does [OF assms(1) t(2) _ _ vu so, where bs = "number (int ?n)"]) (use u(3,4) num [of ?n] False m in simp_all)
        ultimately show ?thesis using t(1) Some OBJ_STRING False assms(2) u(1,2)
          by (simp add: appendCommand_def append_value_def checkStringLength_def stringObjectLen_decoded Let_def plain_simps)
      qed
    qed (use assms(2) t(1) Some l(6) [of "Append k v" "''-WRONGTYPE Operation against a key holding the wrong kind of value''"] in
      \<open>simp_all add: appendCommand_def append_value_def store_def wrongtype_def\<close>)
  qed
qed

section \<open>Counters\<close>

text \<open>The test before the addition, made with wrapping subtraction, is exact.\<close>

lemma incr_overflow:
  fixes old incr :: s64
  shows "(sint incr < 0 \<and> sint old < 0 \<and> sint incr < sint (LLONG_MIN - old)) \<or> (sint incr > 0 \<and> sint old > 0 \<and> sint incr > sint (LLONG_MAX - old)) \<longleftrightarrow>
    sint old + sint incr < - (2 ^ 63) \<or> sint old + sint incr \<ge> 2 ^ 63"
proof -
  have b: "- (2 ^ 63) \<le> sint x \<and> sint x < 2 ^ 63" for x :: s64 using sint_ge [of x] sint_lt [of x] by simp
  have 1: "sint (LLONG_MIN - old) = - (2 ^ 63) - sint old" if "sint old < 0"
  proof -
    have g: "of_int (sint x) = x" for x :: s64 by simp
    have "sint (LLONG_MIN :: s64) = - (2 ^ 63)" by simp
    then have "LLONG_MIN - old = of_int (- (2 ^ 63) - sint old)" using g [of LLONG_MIN] g [of old] by (metis of_int_diff)
    moreover have "sint (of_int (- (2 ^ 63) - sint old) :: s64) = - (2 ^ 63) - sint old" using that b [of old] by (subst signed_of_int) (auto intro!: signed_take_bit_int_eq_self)
    ultimately show ?thesis by (simp only:)
  qed
  have 2: "sint (LLONG_MAX - old) = 2 ^ 63 - 1 - sint old" if "sint old > 0"
  proof -
    have "LLONG_MAX - old = of_int (2 ^ 63 - 1 - sint old)" by simp
    moreover have "sint (of_int (2 ^ 63 - 1 - sint old) :: s64) = 2 ^ 63 - 1 - sint old" using that b [of old] by (subst signed_of_int) (auto intro!: signed_take_bit_int_eq_self)
    ultimately show ?thesis by simp
  qed
  show ?thesis using 1 2 b [of old] b [of incr] by (cases "sint old < 0"; cases "sint old > 0") auto
qed

lemma sum_exact:
  fixes old incr :: s64
  shows "\<not> (sint old + sint incr < - (2 ^ 63) \<or> sint old + sint incr \<ge> 2 ^ 63) \<Longrightarrow> sint (old + incr) = sint old + sint incr"
proof -
  assume a: "\<not> (sint old + sint incr < - (2 ^ 63) \<or> sint old + sint incr \<ge> 2 ^ 63)"
  have "old + incr = of_int (sint old + sint incr)" by simp
  moreover have "sint (of_int (sint old + sint incr) :: s64) = sint old + sint incr" using a by (subst signed_of_int) (auto intro!: signed_take_bit_int_eq_self)
  ultimately show ?thesis by simp
qed

lemma counter_reply:
  assumes "ready i x"
  shows "answered i (number (sint n)) x (reply_obj i (shared crlf) (reply_obj i (createStringObjectFromLongLong n) (reply_obj i (shared [58]) x))) \<and>
    val (reply_obj i (shared crlf) (reply_obj i (createStringObjectFromLongLong n) (reply_obj i (shared [58]) x))) = val x"
proof -
  let ?a = "reply_obj i (shared [58]) x" let ?b = "reply_obj i (createStringObjectFromLongLong n) ?a"
  have a: "answered i [58] x ?a" using replies_ran(1) [OF assms, of "shared [58]"] by simp
  have ra: "ready i ?a" by (rule answered_ready [OF a assms])
  have b: "answered i (dec_int (sint n)) ?a ?b" using replies_ran(1) [OF ra, of "createStringObjectFromLongLong n"] by (simp add: createStringObjectFromLongLong_def ll_text_dec)
  have rb: "ready i ?b" by (rule answered_ready [OF b ra])
  have c: "answered i crlf ?b (reply_obj i (shared crlf) ?b)" using replies_ran(1) [OF rb, of "shared crlf"] by simp
  show ?thesis using answered_trans [OF answered_trans [OF a b] c] replies_ran(2) [OF assms] replies_ran(2) [OF ra] replies_ran(2) [OF rb] by (simp add: number_def)
qed

lemma incrby_does:
  assumes "ready i s" "cargs s i = request (Incrby k n)"
  shows "does i (Incrby k n) s (incrbyCommand i s)"
proof (cases "string2ll n")
  case None
  have "does i (Incrby k n) s (reply_err i ''value is not an integer or out of range'' s)"
    by (rule read_does [OF replies_ran(7) [OF assms(1)] answered_view [OF replies_ran(7,8) [OF assms(1)]]])
      (use None err_line [of "''value is not an integer or out of range''"] in \<open>simp add: line_def\<close>)
  then show ?thesis using None assms(2) by (simp add: incrbyCommand_def getLongLongFromObjectOrReply_def getLongLongFromObject_decoded)
next
  case (Some incr)
  let ?d = "cur_db s i"
  have p: "plain s" "?d < length (db s)" using assms(1) by (auto simp: ready_def)
  obtain t where t: "lookupKeyWrite ?d k s = (t, view s ?d k)" "looked_up ?d k s t" using lookupKeyWrite_view [OF p] by blast
  note l = after_lookup [OF assms(1) t(2)]
  have c: "incrbyCommand i s = incrDecrCommand i incr s" using Some assms(2) by (simp add: incrbyCommand_def getLongLongFromObjectOrReply_def getLongLongFromObject_decoded)
  show ?thesis
  proof (cases "\<exists>w. view s ?d k = Some w \<and> (\<forall>v. w \<noteq> OBJ_STRING v)")
    case True
    then obtain w where w: "view s ?d k = Some w" "\<And>v. w \<noteq> OBJ_STRING v" by blast
    have ty: "obj_type w \<noteq> 0" "\<And>f g. (case w of OBJ_STRING v \<Rightarrow> f v | _ \<Rightarrow> g) = g" "abs_obj w = Other w" by (cases w; use w(2) in auto)+
    have "incrDecrCommand i incr s = reply_obj i shared_wrongtypeerr t" using t(1) w(1) assms(2) ty by (simp add: incrDecrCommand_def checkType_def Let_def)
    moreover have "does i (Incrby k n) s (reply_obj i shared_wrongtypeerr t)"
      by (rule l(6)) (use w Some ty in \<open>simp add: store_def wrongtype_def\<close>)
    ultimately show ?thesis using c by simp
  next
    case False
    define ob where "ob = (case view s ?d k of Some (OBJ_STRING v) \<Rightarrow> Some v | _ \<Rightarrow> None)"
    have ob: "view s ?d k = map_option OBJ_STRING ob" using False by (auto simp: ob_def split: option.splits robj.splits)
    define u where "u = (case ob of None \<Rightarrow> chars ''0'' | Some v \<Rightarrow> getDecodedObject v)"
    have "string2ll (dec_int (sint (0 :: s64))) = Some 0" by (rule string2ll_dec_int)
    then have "string2ll (chars ''0'') = Some 0" by (simp add: dec_int_def dec.simps chars_def)
    then have gu: "getLongLongFromObject ob = string2ll u" by (cases ob) (simp_all add: u_def getLongLongFromObject_decoded, simp add: getLongLongFromObject_def)
    have m: "(case store s ?d k of None \<Rightarrow> Some (Text (chars ''0'')) | x \<Rightarrow> x) = Some (Text u)" using ob by (cases ob) (simp_all add: store_def u_def)
    have e: "getLongLongFromObject ob = None \<Longrightarrow> incrDecrCommand i incr s = reply_err i ''value is not an integer or out of range'' t"
      "getLongLongFromObject ob = Some old \<Longrightarrow> incrDecrCommand i incr s =
         (if (sint incr < 0 \<and> sint old < 0 \<and> sint incr < sint (LLONG_MIN - old)) \<or> (sint incr > 0 \<and> sint old > 0 \<and> sint incr > sint (LLONG_MAX - old))
          then reply_err i ''increment or decrement would overflow'' t
          else let new = createStringObjectFromLongLong (old + incr);
                   x = (if view s ?d k = None then dbAdd ?d k (OBJ_STRING new) t else dbOverwrite ?d k (OBJ_STRING new) t);
                   x = notifyKeyspaceEvent NOTIFY_STRING ''incrby'' k ?d (signalModifiedKey ?d k x)
               in reply_obj i (shared crlf) (reply_obj i new (reply_obj i (shared [58]) (add_dirty 1 x))))" for old
      using t(1) ob assms(2) by (cases ob; simp add: incrDecrCommand_def checkType_def Let_def getLongLongFromObjectOrReply_def)+
    show ?thesis
    proof (cases "string2ll u")
      case None
      have "does i (Incrby k n) s (reply_err i ''value is not an integer or out of range'' t)"
        by (rule l(8)) (use Some m None err_line [of "''value is not an integer or out of range''"] in simp)
      then show ?thesis using c e(1) gu None by simp
    next
      case old: (Some old)
      show ?thesis
      proof (cases "sint old + sint incr < - (2 ^ 63) \<or> sint old + sint incr \<ge> 2 ^ 63")
        case True
        have "does i (Incrby k n) s (reply_err i ''increment or decrement would overflow'' t)"
          by (rule l(8)) (use Some m old True err_line [of "''increment or decrement would overflow''"] in \<open>simp add: Let_def\<close>)
        then show ?thesis using c e(2) [of old] gu old True incr_overflow [of incr old] by simp
      next
        case ok: False
        let ?new = "createStringObjectFromLongLong (old + incr)"
        let ?x = "if view s ?d k = None then dbAdd ?d k (OBJ_STRING ?new) t else dbOverwrite ?d k (OBJ_STRING ?new) t"
        note st = stored [OF p t(2) refl, where v = "OBJ_STRING ?new"]
        have pl: "plain (signalModifiedKey ?d k ?x)" by (rule signalled_plain [OF assms(1) st(4,1)])
        let ?f = "\<lambda>x. reply_obj i (shared crlf) (reply_obj i ?new (reply_obj i (shared [58]) x))"
        have "does i (Incrby k n) s (?f (add_dirty 1 (signalModifiedKey ?d k ?x)))"
          by (rule update_does [OF assms(1) t(2) st(1,2,3,4) counter_reply])
            (use Some m old ok sum_exact [OF ok] in \<open>simp_all add: Let_def createStringObjectFromLongLong_def ll_text_dec\<close>)
        moreover have "incrDecrCommand i incr s = ?f (add_dirty 1 (signalModifiedKey ?d k ?x))"
          using e(2) [of old] gu old ok incr_overflow [of incr old] plain_simps(1) [OF pl] by (simp add: Let_def)
        ultimately show ?thesis using c by simp
      qed
    qed
  qed
qed

section \<open>Deleting and testing keys\<close>

lemma exists_does:
  assumes "ready i s" "cargs s i = request (Exists k)"
  shows "does i (Exists k) s (existsCommand i s)"
proof -
  let ?d = "cur_db s i"
  have p: "plain s" "?d < length (db s)" using assms(1) by (auto simp: ready_def)
  obtain t b where t: "expireIfNeeded ?d k s = (t, b)" by (cases "expireIfNeeded ?d k s")
  have l: "looked_up ?d k s t" using expire_lookup [OF p, of k] t by simp
  note a = after_lookup [OF assms(1) l]
  have "?d < length (db t)" using l p(2) env_fields(1) [of t s] by (simp add: looked_up_def)
  then have e: "dbExists ?d k t = (view s ?d k \<noteq> None)" using looked_up_val [OF l] by (simp add: dbExists_def val_def)
  have "existsCommand i s = reply_ll i (int (if view s ?d k = None then 0 else 1)) t"
    using assms(2) t e a(4) by (simp add: existsCommand_def exists_key_def)
  moreover have "does i (Exists k) s (reply_ll i (int (if view s ?d k = None then 0 else 1)) t)"
    by (rule a(7)) (simp_all add: store_def)
  ultimately show ?thesis by simp
qed

lemma dbDelete_seen:
  assumes "plain s" "d < length (db s)" "looked_up d k s t"
  shows "\<exists>u. dbDelete d k t = (u, view s d k \<noteq> None) \<and> env u = env s \<and> clients u = clients s \<and> server_ok u \<and>
    (\<forall>e k'. val u e k' = (if e = d \<and> k' = k then (None, None) else val s e k'))"
proof -
  have l: "d < length (db t)" using assms(2,3) env_fields(1) [of t s] by (simp add: looked_up_def)
  have v: "map_of (dict (db t ! d)) k = view s d k" using looked_up_val [OF assms(3)] l by (simp add: val_def)
  let ?t = "upd_db d (\<lambda>r. r\<lparr>expires := AList.delete k (expires r)\<rparr>) t"
  obtain u b where u: "dbDelete d k t = (u, b)" by (cases "dbDelete d k t")
  have d: "map_of (dict (db ?t ! d)) k = view s d k" using v l by (simp add: upd_db_def)
  then have u': "b = (view s d k \<noteq> None)" "u = (if b then upd_db d (\<lambda>r. r\<lparr>dict := AList.delete k (dict r)\<rparr>) ?t else ?t)"
    using u by (auto simp: dbDelete_def dbSyncDelete_def Let_def split: if_splits)
  have "val u e k' = (if e = d \<and> k' = k then (None, None) else val t e k')" for e k'
    using u' d l v by (auto simp: val_upd delete_conv' val_def upd_db_def nth_list_update)
  moreover have "env u = env s" "clients u = clients s" using u'(2) assms(3) by (auto simp: looked_up_def)
  moreover have "server_ok u" using chg_dbDelete [OF chg_refl, of d k t] u assms(3) by (simp add: chg_def looked_up_def plain_def)
  ultimately show ?thesis using u u'(1) assms(3) by (intro exI [of _ u] conjI) (auto simp: looked_up_def)
qed

lemma gone_store: "wrote d k (None, None) s t \<Longrightarrow> store t = (store s)(d := (store s d)(k := None))"
proof (intro ext)
  fix e k' assume a: "wrote d k (None, None) s t"
  have m: "mstime t = mstime s" using a env_fields(6) [of t s] by (simp add: wrote_def)
  have v: "val t e k' = (if e = d \<and> k' = k then (None, None) else val s e k')" using a by (simp add: wrote_def)
  show "store t e k' = ((store s)(d := (store s d)(k := None))) e k'" using m v by (auto simp: store_def view_def split: prod.split option.split)
qed

lemma del_does:
  assumes "ready i s" "cargs s i = request (Del k)"
  shows "does i (Del k) s (delGenericCommand i s)"
proof -
  let ?d = "cur_db s i"
  have p: "plain s" "?d < length (db s)" using assms(1) by (auto simp: ready_def)
  obtain t b where t: "expireIfNeeded ?d k s = (t, b)" by (cases "expireIfNeeded ?d k s")
  have l: "looked_up ?d k s t" using expire_lookup [OF p, of k] t by simp
  note a = after_lookup [OF assms(1) l]
  obtain u where u: "dbDelete ?d k t = (u, view s ?d k \<noteq> None)" "env u = env s" "clients u = clients s" "server_ok u"
    "\<And>e k'. val u e k' = (if e = ?d \<and> k' = k then (None, None) else val s e k')"
    using dbDelete_seen [OF p l] by blast
  have cu: "cur_db u i = ?d" using u(3) by simp
  show ?thesis
  proof (cases "view s ?d k")
    case None
    have "looked_up ?d k s u" using u None plain_env [OF p(1) u(2,4)] l by (auto simp: looked_up_def view_def)
    note au = after_lookup [OF assms(1) this]
    have "delGenericCommand i s = reply_ll i (int 0) u" using assms(2) t u(1) a(4) None by (simp add: delGenericCommand_def del_key_def)
    moreover have "does i (Del k) s (reply_ll i (int 0) u)" by (rule au(7)) (use None in \<open>simp_all add: store_def fun_upd_idem\<close>)
    ultimately show ?thesis by simp
  next
    case (Some v)
    let ?w = "add_dirty 1 (signalModifiedKey ?d k u)"
    have w: "wrote ?d k (None, None) s ?w" by (rule wrote_dirty [OF signalled [OF p(1) u(4,2,3,5)]])
    have r: "ready i ?w" using answered_ready [OF wrote_ran [OF w assms(1)] assms(1)] .
    have cw: "cur_db (signalModifiedKey ?d k u) i = ?d" using marked_client [of "clients u i" "clients (signalModifiedKey ?d k u) i"] marked_signal [of u i ?d k] cu by simp
    have pl: "plain (signalModifiedKey ?d k u)" using w by (simp add: wrote_def plain_simps)
    have "delGenericCommand i s = reply_ll i (int 1) ?w"
      using assms(2) t u(1) a(4) Some cu cw plain_simps(1) [OF pl] by (simp add: delGenericCommand_def del_key_def)
    moreover have "answered i (58 # dec 1 @ crlf) ?w (reply_ll i (int 1) ?w)" by (rule replies_ran(5) [OF r]) simp
    then have "answered i (number (int 1)) s (reply_ll i (int 1) ?w)"
      using answered_trans [OF wrote_ran [OF w assms(1)]] by (simp only: number_nat(1) append_Nil)
    moreover have "store (reply_ll i (int 1) ?w) = store ?w"
      by (rule store_view, rule answered_view [OF replies_ran(5) [OF r, of 1] replies_ran(6) [OF r]]) simp
    ultimately show ?thesis using gone_store [OF w] Some by (simp add: does_def store_def)
  qed
qed

end
