(* ===== verification/Store_Run.thy ===== *)
theory Store_Run
  imports Store_Commands
begin

text \<open>
  Requests and transactions executed through processCommand, call and EXEC refine the abstract store; commands on values of the wrong type; MOVE.
\<close>

section \<open>Execution of a request\<close>

fun proc :: "scmd \<Rightarrow> cmd_proc" where
  "proc (Get _) = GetCommand" | "proc (Put _ _) = SetCommand" | "proc (Putnx _ _) = SetnxCommand" | "proc (Getset _ _) = GetsetCommand" | "proc (Append _ _) = AppendCommand"
| "proc (Strlen _) = StrlenCommand" | "proc (Incrby _ _) = IncrbyCommand" | "proc (Exists _) = ExistsCommand" | "proc (Del _) = DelCommand"

lemma proc_plain: "proc c \<noteq> ExecCommand"
  by (cases c) simp_all

lemma proc_does:
  assumes "ready i s" "cargs s i = request c" "small c" "small_store (store s (cur_db s i))"
  shows "does i c s (run_proc (proc c) i s)"
  using assms get_does set_does setnx_does getset_does append_does strlen_does incrby_does exists_does del_does by (cases c) simp_all

lemma flags_answered:
  assumes "ready i s" "h (flags (clients s i)) - PROP_FLAGS = flags (clients s i) - PROP_FLAGS"
  shows "answered i [] s (upd_client i (\<lambda>c. c\<lparr>flags := h (flags c)\<rparr>) s)"
proof -
  let ?t = "upd_client i (\<lambda>c. c\<lparr>flags := h (flags c)\<rparr>) s"
  have so: "server_ok ?t" using assms(1) by (auto simp: ready_def plain_def server_ok_def watch_ok_def upd_client_def)
  have pl: "plain ?t" by (rule plain_env [OF _ _ so]) (use assms(1) in \<open>simp_all add: ready_def\<close>)
  have m: "x \<in> h (flags (clients s i)) \<longleftrightarrow> x \<in> flags (clients s i)" if "x \<notin> PROP_FLAGS" for x using assms(2) that by blast
  have i: "h (flags (clients s i)) \<inter> {CLIENT_MULTI, CLIENT_PUBSUB} = flags (clients s i) \<inter> {CLIENT_MULTI, CLIENT_PUBSUB}" using m by auto
  let ?c = "clients s i"
  have w: "writable (?c\<lparr>flags := h (flags ?c)\<rparr>) = writable ?c" using m by (simp add: writable_def prepareClientToWrite_def clientHasPendingReplies_def)
  have "out_ok (?c\<lparr>flags := h (flags ?c)\<rparr>) = out_ok ?c" "pending (?c\<lparr>flags := h (flags ?c)\<rparr>) = pending ?c" by (simp_all add: out_ok_def sent_ok_def pending_def)
  then have "appended (clients s i) [] (clients ?t i)" using assms(1) w by (simp add: ready_def appended_def upd_client_def)
  then show ?thesis using pl i by (simp add: answered_def) (simp add: upd_client_def)
qed

lemma does_then: "does i c s t \<Longrightarrow> answered i [] t u \<Longrightarrow> val u = val t \<Longrightarrow> does i c s u"
  using answered_trans [of i _ s t "[]" u] store_view [OF answered_view, of i "[]" t u] by (auto simp: does_def Let_def)

lemma same_answered: "ready i s \<Longrightarrow> plain t \<Longrightarrow> env t = env s \<Longrightarrow> clients t = clients s \<Longrightarrow> answered i [] s t"
  by (simp add: answered_def ready_def appended_def)

lemma propagate_answered: "ready i s \<Longrightarrow> answered i [] s (propagate d av a r s)" "val (propagate d av a r s) = val s"
proof -
  show "ready i s \<Longrightarrow> answered i [] s (propagate d av a r s)"
    by (rule same_answered) (auto simp: ready_def plain_def propagate_def feedAppendOnlyFile_def replicationFeedSlaves_def env_def server_ok_def watch_ok_def)
  show "val (propagate d av a r s) = val s" by (intro ext) (simp add: propagate_def feedAppendOnlyFile_def replicationFeedSlaves_def val_def)
qed

lemma call_does:
  assumes "ready i s" "cargs s i = request c" "small c" "small_store (store s (cur_db s i))"
    and "cmd (clients s i) = Some nm" "lookupCommand nm = Some r" "rn (cproc r) = run_proc (proc c)"
  shows "does i c s (call_with rn i s)"
proof -
  let ?a = "upd_client i (\<lambda>c. c\<lparr>flags := flags c - PROP_FLAGS\<rparr>) s"
  have a: "answered i [] s ?a" by (rule flags_answered [OF assms(1)]) blast
  have va: "view ?a = view s" by (rule answered_view [OF a]) simp
  have ra: "ready i ?a" by (rule answered_ready [OF a assms(1)])
  have ca: "cargs ?a i = request c" "cur_db ?a i = cur_db s i" "cmd (clients ?a i) = Some nm" using a assms(2,5) by (simp_all add: answered_def)
  let ?b = "run_proc (proc c) i ?a"
  have b: "does i c s ?b" by (rule does_after [OF a va proc_does]) (use ra ca assms(3,4) store_view [OF va] in simp_all)
  have rb: "ready i ?b" using answered_ready [OF _ assms(1)] b by (auto simp: does_def Let_def)
  have p: "does i c s t \<and> ready i t" if "t = ?b \<or> (\<exists>d av x y. t = propagate d av x y ?b)" for t
    using that b rb does_then [OF b propagate_answered(1) [OF rb] propagate_answered(2)] answered_ready [OF propagate_answered(1) [OF rb] rb] by auto
  have f: "does i c s (upd_client i (\<lambda>c. c\<lparr>flags := (flags c - PROP_FLAGS) \<union> (F \<inter> PROP_FLAGS)\<rparr>) t)" (is "does i c s ?u")
    "ready i (upd_client i (\<lambda>c. c\<lparr>flags := (flags c - PROP_FLAGS) \<union> (F \<inter> PROP_FLAGS)\<rparr>) t)" if "does i c s t \<and> ready i t" for t F
  proof -
    have "answered i [] t ?u" by (rule flags_answered) (use that in blast)+
    then show "does i c s ?u" "ready i ?u" using that does_then [of i c s t ?u] answered_ready [of i "[]" t ?u] by simp_all
  qed
  have n: "does i c s (t\<lparr>stat_numcommands := m\<rparr>)" if "does i c s t \<and> ready i t" for t m
  proof (rule does_then [of i c s t])
    show "does i c s t" using that by blast
    show "answered i [] t (t\<lparr>stat_numcommands := m\<rparr>)" by (rule same_answered) (use that in \<open>auto simp: ready_def plain_def env_def server_ok_def watch_ok_def\<close>)
    show "val (t\<lparr>stat_numcommands := m\<rparr>) = val t" by (intro ext) (simp add: val_def)
  qed
  have c: "call_with rn i s = (let t = (if \<not> {CLIENT_PREVENT_AOF_PROP, CLIENT_PREVENT_REPL_PROP} \<subseteq> flags (clients ?b i) then
             let to_aof = ((dirty ?b - dirty ?a > 0 \<or> CLIENT_FORCE_AOF \<in> flags (clients ?b i)) \<and> CLIENT_PREVENT_AOF_PROP \<notin> flags (clients ?b i));
                 to_repl = ((dirty ?b - dirty ?a > 0 \<or> CLIENT_FORCE_REPL \<in> flags (clients ?b i)) \<and> CLIENT_PREVENT_REPL_PROP \<notin> flags (clients ?b i))
             in if to_aof \<or> to_repl then propagate (cur_db ?b i) (cargs ?b i) to_aof to_repl ?b else ?b else ?b);
           u = upd_client i (\<lambda>c. c\<lparr>flags := (flags c - PROP_FLAGS) \<union> (flags (clients s i) \<inter> PROP_FLAGS)\<rparr>) t
       in u\<lparr>stat_numcommands := stat_numcommands u + 1\<rparr>)"
    unfolding call_with_def Let_def ca(3) option.case assms(6,7) ..
  show ?thesis unfolding c Let_def by (intro n conjI f p) (auto split: if_split)
qed

section \<open>Runs refine the store\<close>

lemma request_lookup:
  "\<exists>r. lookupCommand (request c ! 0) = Some r \<and> cproc r = proc c \<and> \<not> ((arity r > 0 \<and> arity r \<noteq> int (length (request c))) \<or> int (length (request c)) < - arity r) \<and>
     \<not> strcasecmp_eq (request c ! 0) ''quit''"
  by (cases c) (simp_all add: lookupCommand_def redisCommandTable_def command_entry_def chars_def tolower_char_def strcasecmp_eq_def cstr_def)

text \<open>A server that executes every request, and a client outside of transactions and subscriptions.\<close>

definition serving :: "server \<Rightarrow> bool" where
  "serving s \<longleftrightarrow> plain s \<and> requirepass s = None \<and> write_error s = None \<and> \<not> few_slaves s \<and> (\<forall>d. small_store (store s d))"

definition available :: "nat \<Rightarrow> server \<Rightarrow> bool" where
  "available i s \<longleftrightarrow> out_ok (clients s i) \<and> writable (clients s i) \<and> cur_db s i < length (db s) \<and> flags (clients s i) \<inter> {CLIENT_MULTI, CLIENT_PUBSUB} = {}"

lemma small_upd: "small_store m \<Longrightarrow> length v < 2 ^ 62 \<Longrightarrow> small_store (m(k \<mapsto> Text v))"
  by (auto simp: small_store_def)

lemma small_spec:
  assumes "small_store m" "small c"
  shows "small_store (fst (spec c m))"
proof (cases c)
  case (Incrby k n)
  have "length (dec_int z) < 2 ^ 62" if "\<not> (z < - (2 ^ 63) \<or> z \<ge> 2 ^ 63)" for z
  proof -
    have "sint (of_int z :: s64) = z" using that by (subst signed_of_int) (auto intro!: signed_take_bit_int_eq_self)
    then show ?thesis using length_dec_int_s64 [of "of_int z"] by simp
  qed
  then show ?thesis using assms Incrby by (auto simp: Let_def small_upd split: option.split avalue.split)
next
  case (Append k v)
  then show ?thesis using assms by (auto simp: small_upd split: option.split avalue.split)
next
  case (Del k)
  then show ?thesis using assms by (auto simp: small_store_def)
qed (use assms in \<open>auto simp: small_upd split: option.split avalue.split\<close>)

definition served :: "nat \<Rightarrow> byte list \<Rightarrow> server \<Rightarrow> server \<Rightarrow> bool" where
  "served i bs s t \<longleftrightarrow> (\<forall>j. available j s \<longrightarrow> available j t) \<and> (\<forall>j. cur_db t j = cur_db s j) \<and> (\<forall>j. pending (clients t j) = pending (clients s j) @ (if j = i then bs else [])) \<and> others i s t"

lemma answered_served:
  assumes "answered i bs s t"
  shows "served i bs s t"
proof -
  have l: "length (db t) = length (db s)" using assms env_fields(1) [of t s] by (simp add: answered_def)
  have m: "marked (clients s j) (clients t j)" if "j \<noteq> i" for j using assms that by (auto simp: answered_def others_def)
  have "(available j s \<longrightarrow> available j t) \<and> cur_db t j = cur_db s j \<and> pending (clients t j) = pending (clients s j) @ (if j = i then bs else [])" for j
  proof (cases "j = i")
    case True
    then show ?thesis using assms l by (auto simp: answered_def available_def appended_def)
  next
    case False
    then show ?thesis using marked_client [OF m [OF False]] l by (auto simp: available_def)
  qed
  then show ?thesis using assms by (simp add: served_def answered_def)
qed

lemma step_serves:
  assumes "serving s" "available i s" "small c"
  shows "let d = cur_db s i; t = step (Request i (request c)) s in
    serving t \<and> served i (snd (spec c (store s d))) s t \<and> store t = (store s)(d := fst (spec c (store s d)))"
proof -
  obtain r where r: "lookupCommand (request c ! 0) = Some r" "cproc r = proc c" "\<not> ((arity r > 0 \<and> arity r \<noteq> int (length (request c))) \<or> int (length (request c)) < - arity r)"
    "\<not> strcasecmp_eq (request c ! 0) ''quit''" using request_lookup by blast
  let ?d = "cur_db s i"
  let ?a = "upd_client i (\<lambda>c'. c'\<lparr>argv := request c\<rparr>) (s\<lparr>current_client := Some i\<rparr>)"
  let ?b = "upd_client i (\<lambda>c. c\<lparr>cmd := Some (name r)\<rparr>) ?a"
  have b: "clients ?b j = (if j = i then (clients s i)\<lparr>argv := request c, cmd := Some (name r)\<rparr> else clients s j)" "db ?b = db s" "env ?b = env s" for j
    by (simp_all add: upd_client_def env_def)
  have vb: "val ?b = val s" by (intro ext) (simp add: val_def upd_client_def)
  have so: "server_ok ?b" using assms(1) by (auto simp: serving_def plain_def server_ok_def watch_ok_def upd_client_def)
  have pb: "plain ?b" by (rule plain_env [OF _ b(3) so]) (use assms(1) in \<open>simp add: serving_def\<close>)
  have sb: "store ?b = store s" by (rule store_view, rule view_val [OF vb]) (simp add: upd_client_def)
  have cl: "out_ok (c'\<lparr>argv := x, cmd := y\<rparr>) = out_ok c'" "writable (c'\<lparr>argv := x, cmd := y\<rparr>) = writable c'" "pending (c'\<lparr>argv := x, cmd := y\<rparr>) = pending c'" for c' x y
    by (simp_all add: out_ok_def sent_ok_def pending_def writable_def prepareClientToWrite_def clientHasPendingReplies_def)
  have rb: "ready i ?b" using pb b(1) [of i] b(2) assms(2) cl by (simp add: ready_def available_def)
  have d: "cur_db ?b i = ?d" "cargs ?b i = request c" "cmd (clients ?b i) = Some (name r)" using b(1) [of i] by simp_all
  have dc: "does i c ?b (call i ?b)"
    unfolding call_def by (rule call_does [OF rb d(2) assms(3) _ d(3) lookupCommand_name [OF r(1)]])
      (use assms(1) sb d(1) r(2) proc_plain [of c] in \<open>simp_all add: serving_def run_all_def\<close>)
  have e: "step (Request i (request c)) s = call i ?b"
    using r assms(1,2) by (cases "0 < arity r") (simp_all add: processCommand_def Let_def serving_def available_def plain_def upd_client_def)
  have s1: "served i [] s ?b" using b cl by (auto simp: served_def available_def others_def)
  have s2: "served i (snd (spec c (store s ?d))) ?b (call i ?b)" using dc sb d(1) by (intro answered_served) (simp add: does_def Let_def)
  have "served i (snd (spec c (store s ?d))) s (call i ?b)" using s1 s2 others_trans [of i s ?b] by (simp add: served_def)
  moreover have st: "store (call i ?b) = (store s)(?d := fst (spec c (store s ?d)))" using dc sb d(1) by (simp add: does_def Let_def)
  moreover have "serving (call i ?b)"
  proof -
    have "plain (call i ?b)" "env (call i ?b) = env s" using dc b(3) by (auto simp: does_def answered_def Let_def)
    then show ?thesis using assms(1,3) env_fields [of "call i ?b" s] st small_spec by (simp add: serving_def)
  qed
  ultimately show ?thesis unfolding Let_def e by blast
qed

fun spec_run :: "(nat \<Rightarrow> nat) \<Rightarrow> (nat \<times> scmd) list \<Rightarrow> (nat \<Rightarrow> store) \<Rightarrow> (nat \<Rightarrow> store) \<times> (nat \<times> byte list) list" where
  "spec_run f [] m = (m, [])"
| "spec_run f ((i, c) # es) m = (let (n, bs) = spec c (m (f i)); (m', rs) = spec_run f es (m(f i := n)) in (m', (i, bs) # rs))"

definition replies_to :: "nat \<Rightarrow> (nat \<times> byte list) list \<Rightarrow> byte list" where
  "replies_to j rs = concat (map snd (filter (\<lambda>r. fst r = j) rs))"

abbreviation requests :: "(nat \<times> scmd) list \<Rightarrow> event list" where
  "requests es \<equiv> map (\<lambda>(i, c). Request i (request c)) es"

lemma requests_refine:
  assumes "serving s" "\<forall>(i, c) \<in> set es. available i s \<and> small c"
  shows "serving (run (requests es) s) \<and> store (run (requests es) s) = fst (spec_run (cur_db s) es (store s)) \<and>
    pending (clients (run (requests es) s) j) = pending (clients s j) @ replies_to j (snd (spec_run (cur_db s) es (store s)))"
  using assms
proof (induction es arbitrary: s)
  case Nil
  then show ?case by (simp add: run_def replies_to_def)
next
  case (Cons e es)
  obtain i c where e: "e = (i, c)" by (cases e)
  let ?t = "step (Request i (request c)) s" let ?d = "cur_db s i"
  have a: "available i s" "small c" using Cons.prems(2) e by auto
  have t: "serving ?t" "served i (snd (spec c (store s ?d))) s ?t" "store ?t = (store s)(?d := fst (spec c (store s ?d)))"
    using step_serves [OF Cons.prems(1) a] by (simp_all add: Let_def)
  have c: "cur_db ?t = cur_db s" using t(2) by (auto simp: served_def)
  have "\<forall>(i, c) \<in> set es. available i ?t \<and> small c" using Cons.prems(2) t(2) by (auto simp: served_def)
  note ih = Cons.IH [OF t(1) this, unfolded c t(3)]
  have "run (requests (e # es)) s = run (requests es) ?t" by (simp add: run_def e)
  moreover have "pending (clients ?t j) = pending (clients s j) @ (if j = i then snd (spec c (store s ?d)) else [])" using t(2) by (simp add: served_def)
  moreover have "spec_run (cur_db s) (e # es) (store s) = (let x = spec_run (cur_db s) es ((store s)(?d := fst (spec c (store s ?d)))) in (fst x, (i, snd (spec c (store s ?d))) # snd x))"
    by (simp add: e split_beta Let_def)
  moreover have "replies_to j ((i, bs) # rs) = (if j = i then bs else []) @ replies_to j rs" for bs rs by (simp add: replies_to_def)
  ultimately show ?case using ih by (simp only: Let_def fst_conv snd_conv append_assoc)
qed

section \<open>Transactions on the store\<close>

text \<open>As \<open>answered\<close>, with the arguments, the command and the flags of the client left open.\<close>

definition progressed :: "nat \<Rightarrow> byte list \<Rightarrow> server \<Rightarrow> server \<Rightarrow> bool" where
  "progressed i bs s t \<longleftrightarrow> plain t \<and> env t = env s \<and> appended (clients s i) bs (clients t i) \<and> cur_db t i = cur_db s i \<and> others i s t"

lemma answered_progressed: "answered i bs s t \<Longrightarrow> progressed i bs s t"
  by (simp add: answered_def progressed_def)

lemma progressed_trans: "progressed i bs s t \<Longrightarrow> progressed i cs t u \<Longrightarrow> progressed i (bs @ cs) s u"
  by (auto simp: progressed_def appended_def intro: others_trans)

lemma progressed_ready: "progressed i bs s t \<Longrightarrow> ready i s \<Longrightarrow> ready i t"
  using env_fields(1) [of t s] by (auto simp: progressed_def ready_def appended_def)

lemma progressed_store: "progressed i bs s t \<Longrightarrow> val t = val s \<Longrightarrow> store t = store s"
  using env_fields(6) [of t s] store_view [OF view_val, of t s] by (simp add: progressed_def)

lemma client_progressed:
  assumes "ready i s" "\<And>c. cdb (f c) = cdb c \<and> watched_keys (f c) = watched_keys c \<and> pending (f c) = pending c \<and> out_ok (f c) = out_ok c"
    and "writable (f (clients s i)) = writable (clients s i)"
  shows "progressed i [] s (upd_client i f s)"
proof -
  have "server_ok (upd_client i f s)" using assms(1,2) by (auto simp: ready_def plain_def server_ok_def watch_ok_def upd_client_def)
  then have "plain (upd_client i f s)" using assms(1) plain_env [of s "upd_client i f s"] by (simp add: ready_def)
  then show ?thesis using assms by (simp add: progressed_def appended_def ready_def) (simp add: upd_client_def)
qed

lemma argv_progressed: "ready i s \<Longrightarrow> progressed i [] s (upd_client i (\<lambda>c. c\<lparr>argv := av, cmd := cm\<rparr>) s)"
  by (rule client_progressed) (simp_all add: out_ok_def sent_ok_def pending_def writable_def prepareClientToWrite_def clientHasPendingReplies_def)

lemma reset_progressed:
  "ready i s \<Longrightarrow> progressed i [] s (upd_client i (\<lambda>c. (initClientMultiState c)\<lparr>flags := flags c - {CLIENT_MULTI, CLIENT_DIRTY_CAS, CLIENT_DIRTY_EXEC}\<rparr>) s)"
  by (rule client_progressed)
    (simp_all add: initClientMultiState_def out_ok_def sent_ok_def pending_def writable_def prepareClientToWrite_def clientHasPendingReplies_def)

text \<open>The assertions made when the watched keys of a client are released hold.\<close>

definition registered :: "nat \<Rightarrow> server \<Rightarrow> nat \<times> byte list \<Rightarrow> bool" where
  "registered i s wk \<longleftrightarrow> fst wk < length (db s) \<and> (\<exists>cs. map_of (db_watched_keys (db s ! fst wk)) (snd wk) = Some cs \<and> i \<in> set cs)"

lemma unwatch_one:
  assumes "registered i s wk"
  shows "env (unwatch_key i wk s) = env s" "\<exists>w. clients (unwatch_key i wk s) = (clients s)(i := (clients s i)\<lparr>watched_keys := w\<rparr>)"
    "wk' \<noteq> wk \<Longrightarrow> registered i s wk' \<Longrightarrow> registered i (unwatch_key i wk s) wk'"
proof -
  obtain d k where wk: "wk = (d, k)" by (cases wk)
  obtain cs where cs: "d < length (db s)" "map_of (db_watched_keys (db s ! d)) k = Some cs" "i \<in> set cs" using assms wk by (auto simp: registered_def)
  let ?f = "\<lambda>r. r\<lparr>db_watched_keys := (if remove1 i cs = [] then AList.delete k (db_watched_keys r) else AList.update k (remove1 i cs) (db_watched_keys r))\<rparr>"
  have u: "unwatch_key i wk s = upd_client i (\<lambda>c. c\<lparr>watched_keys := remove1 wk (watched_keys c)\<rparr>) (upd_db d ?f s)"
    using cs wk by (simp add: unwatch_key_def serverAssert_def Let_def cong: if_cong)
  show "env (unwatch_key i wk s) = env s" unfolding u by simp
  show "\<exists>w. clients (unwatch_key i wk s) = (clients s)(i := (clients s i)\<lparr>watched_keys := w\<rparr>)" unfolding u by (auto simp: upd_client_def)
  have db: "db (unwatch_key i wk s) = (db s)[d := ?f (db s ! d)]" unfolding u by (simp add: upd_client_def upd_db_def)
  show "registered i (unwatch_key i wk s) wk'" if "wk' \<noteq> wk" "registered i s wk'"
    using that cs(1) wk unfolding registered_def db by (cases "fst wk' = d") (auto simp: update_conv' delete_conv' prod_eq_iff)
qed

lemma unwatch_fold:
  assumes "distinct wks" "\<forall>wk \<in> set wks. registered i s wk"
  shows "env (fold (unwatch_key i) wks s) = env s \<and> (\<exists>w. clients (fold (unwatch_key i) wks s) = (clients s)(i := (clients s i)\<lparr>watched_keys := w\<rparr>))"
  using assms
proof (induction wks arbitrary: s)
  case Nil
  then show ?case by (auto intro!: exI [of _ "watched_keys (clients s i)"])
next
  case (Cons wk wks)
  have r: "registered i s wk" using Cons.prems by simp
  obtain w where w: "clients (unwatch_key i wk s) = (clients s)(i := (clients s i)\<lparr>watched_keys := w\<rparr>)" using unwatch_one(2) [OF r] by blast
  have "\<forall>wk' \<in> set wks. registered i (unwatch_key i wk s) wk'" using Cons.prems by (intro ballI unwatch_one(3) [OF r]) auto
  then obtain w' where x: "env (fold (unwatch_key i) wks (unwatch_key i wk s)) = env (unwatch_key i wk s)"
    "clients (fold (unwatch_key i) wks (unwatch_key i wk s)) = (clients (unwatch_key i wk s))(i := (clients (unwatch_key i wk s) i)\<lparr>watched_keys := w'\<rparr>)"
    using Cons.IH [of "unwatch_key i wk s"] Cons.prems(1) by (metis distinct.simps(2))
  have "clients (fold (unwatch_key i) wks (unwatch_key i wk s)) = (clients s)(i := (clients s i)\<lparr>watched_keys := w'\<rparr>)" unfolding x(2) w by simp
  then show ?case using unwatch_one(1) [OF r] x(1) by auto
qed

lemma unwatch_progressed:
  assumes "ready i s" "i \<in> set (clients_list s)"
  shows "progressed i [] s (unwatchAllKeys i s)" "val (unwatchAllKeys i s) = val s"
proof -
  let ?t = "unwatchAllKeys i s"
  have p: "plain s" using assms(1) by (simp add: ready_def)
  have "watch_ok s i" using assms p by (auto simp: plain_def server_ok_def)
  then have f: "distinct (watched_keys (clients s i))" "\<forall>wk \<in> set (watched_keys (clients s i)). registered i s wk"
    by (auto simp: watch_ok_def registered_def split_beta)
  obtain w where w: "env ?t = env s" "clients ?t = (clients s)(i := (clients s i)\<lparr>watched_keys := w\<rparr>)" using unwatch_fold [OF f] by (auto simp: unwatchAllKeys_def)
  have "server_ok ?t" using unwatchAll_chg [of i s] p by (simp add: chg_def plain_def)
  then have "plain ?t" using plain_env [OF p w(1)] by simp
  moreover have "out_ok (c\<lparr>watched_keys := w\<rparr>) = out_ok c" "writable (c\<lparr>watched_keys := w\<rparr>) = writable c" "pending (c\<lparr>watched_keys := w\<rparr>) = pending c" for c
    by (simp_all add: out_ok_def sent_ok_def pending_def writable_def prepareClientToWrite_def clientHasPendingReplies_def)
  ultimately show "progressed i [] s ?t" using w assms(1) by (simp add: progressed_def others_def appended_def ready_def)
  show "val ?t = val s" using keys_unwatch [of i s] by (intro ext) (simp add: val_def)
qed

lemma discard_progressed:
  assumes "ready i s" "i \<in> set (clients_list s)"
  shows "progressed i [] s (discardTransaction i s)" "val (discardTransaction i s) = val s"
proof -
  let ?a = "upd_client i (\<lambda>c. (initClientMultiState c)\<lparr>flags := flags c - {CLIENT_MULTI, CLIENT_DIRTY_CAS, CLIENT_DIRTY_EXEC}\<rparr>) s"
  have a: "progressed i [] s ?a" by (rule reset_progressed [OF assms(1)])
  have r: "ready i ?a" "i \<in> set (clients_list ?a)" using progressed_ready [OF a assms(1)] assms(2) by (simp_all add: upd_client_def)
  show "progressed i [] s (discardTransaction i s)" using progressed_trans [OF a unwatch_progressed(1) [OF r]] by (simp add: discardTransaction_def)
  show "val (discardTransaction i s) = val s" using unwatch_progressed(2) [OF r] by (simp add: discardTransaction_def)
qed

lemma mbulk_answered:
  assumes "ready i s" "n < 2 ^ 63"
  shows "answered i (42 # dec n @ crlf) s (reply_mbulk i n s)" "val (reply_mbulk i n s) = val s"
proof -
  have w: "out_ok (clients s i)" "writable (clients s i)" using assms by (auto simp: ready_def)
  have n: "sint (of_nat n :: s64) = int n" using int_reply [OF assms(2)] by simp
  have "appended (clients s i) (42 # dec n @ crlf) (addReplyMultiBulkLen (ocfg s) (clients s i) (of_nat n))"
    using addReplyLongLongWithPrefix_ok [OF w, of 42 "of_nat n" "ocfg s"] obj_sink.add_appends [OF w, of "shared (42 # dec n @ crlf)" "ocfg s"] n
    by (simp add: addReplyMultiBulkLen_def dec_int_def)
  then show "answered i (42 # dec n @ crlf) s (reply_mbulk i n s)"
    unfolding reply_mbulk_def by (intro client_ran(1) [OF assms(1)] creply_mbulk)
qed (simp add: reply_mbulk_def)

fun spec_seq :: "scmd list \<Rightarrow> store \<Rightarrow> store \<times> byte list" where
  "spec_seq [] m = (m, [])"
| "spec_seq (c # cs) m = (let (n, bs) = spec c m; (n', bs') = spec_seq cs n in (n', bs @ bs'))"

definition queued :: "scmd \<Rightarrow> byte list option \<times> byte list list" where
  "queued c = (Some (request c ! 0), request c)"

lemma call_queued:
  assumes "ready i s" "small c" "small_store (store s (cur_db s i))" "cargs s i = request c" "cmd (clients s i) = Some (request c ! 0)"
  shows "progressed i (snd (spec c (store s (cur_db s i)))) s (call_with run_proc i s)"
    "store (call_with run_proc i s) = (store s)(cur_db s i := fst (spec c (store s (cur_db s i))))"
proof -
  obtain r where l: "lookupCommand (request c ! 0) = Some r" "cproc r = proc c" using request_lookup by blast
  have "does i c s (call_with run_proc i s)" by (rule call_does [OF assms(1,4,2,3,5) l(1)]) (simp add: l(2))
  then show "progressed i (snd (spec c (store s (cur_db s i)))) s (call_with run_proc i s)"
    "store (call_with run_proc i s) = (store s)(cur_db s i := fst (spec c (store s (cur_db s i))))"
    by (simp_all add: does_def Let_def answered_progressed)
qed

lemma exec_loop_does:
  assumes "ready i s" "\<forall>c \<in> set cs. small c" "small_store (store s (cur_db s i))"
  shows "\<exists>t b. exec_loop (call_with run_proc) i (map queued cs) mp s = (t, b) \<and> progressed i (snd (spec_seq cs (store s (cur_db s i)))) s t \<and>
    store t = (store s)(cur_db s i := fst (spec_seq cs (store s (cur_db s i))))"
  using assms
proof (induction cs arbitrary: s mp)
  case Nil
  then show ?case by (simp add: progressed_def ready_def appended_def)
next
  case (Cons c cs)
  let ?d = "cur_db s i" let ?m = "store s ?d" let ?n = "fst (spec c ?m)"
  let ?a = "upd_client i (\<lambda>c'. c'\<lparr>argv := request c, cmd := Some (request c ! 0)\<rparr>) s"
  have a: "progressed i [] s ?a" by (rule argv_progressed [OF Cons.prems(1)])
  have ra: "ready i ?a" by (rule progressed_ready [OF a Cons.prems(1)])
  have ca: "cargs ?a i = request c" "cmd (clients ?a i) = Some (request c ! 0)" by (simp_all add: upd_client_def)
  define g where "g = (\<not> mp \<and> (\<forall>r. lookupCommand (request c ! 0) = Some r \<longrightarrow> CMD_READONLY \<notin> cflags r \<and> CMD_ADMIN \<notin> cflags r))"
  define b where "b = (if g then execCommandPropagateMulti i ?a else ?a)"
  have b: "b = ?a \<or> b = execCommandPropagateMulti i ?a"
    "exec_loop (call_with run_proc) i (map queued (c # cs)) mp s = exec_loop (call_with run_proc) i (map queued cs) (mp \<or> g) (call_with run_proc i b)"
    by (simp add: b_def) (cases "lookupCommand (request c ! 0)"; simp add: queued_def Let_def g_def b_def)
  have ab: "answered i [] ?a b" "val b = val ?a"
    using b(1) propagate_answered(1) [OF ra] propagate_answered(2) same_answered [OF ra _ refl refl] ra by (auto simp: execCommandPropagateMulti_def ready_def)
  have sb: "progressed i [] s b" using progressed_trans [OF a answered_progressed [OF ab(1)]] by simp
  have rb: "ready i b" by (rule progressed_ready [OF sb Cons.prems(1)])
  have cb: "cargs b i = request c" "cmd (clients b i) = Some (request c ! 0)" "cur_db b i = ?d" using ab(1) ca sb by (simp_all add: answered_def progressed_def)
  have st: "store b = store s" by (rule progressed_store [OF sb]) (simp add: ab(2))
  let ?t = "call_with run_proc i b"
  have sm: "small c" "small_store (store b (cur_db b i))" using Cons.prems st cb(3) by simp_all
  have t: "progressed i (snd (spec c ?m)) s ?t" "store ?t = (store s)(?d := ?n)"
    using progressed_trans [OF sb call_queued(1) [OF rb sm cb(1,2)]] call_queued(2) [OF rb sm cb(1,2)] by (simp_all add: st cb(3))
  have dt: "cur_db ?t i = ?d" using t(1) by (simp add: progressed_def)
  have rt: "ready i ?t" by (rule progressed_ready [OF t(1) Cons.prems(1)])
  have n: "store ?t ?d = ?n" "small_store ?n" "\<forall>c \<in> set cs. small c" using t(2) dt Cons.prems small_spec [OF Cons.prems(3), of c] by simp_all
  obtain u e where u: "exec_loop (call_with run_proc) i (map queued cs) (mp \<or> g) ?t = (u, e)" "progressed i (snd (spec_seq cs ?n)) ?t u"
    "store u = (store ?t)(?d := fst (spec_seq cs ?n))"
    using Cons.IH [of ?t "mp \<or> g", unfolded dt n(1), OF rt n(3,2)] by blast
  have q: "spec_seq (c # cs) ?m = (fst (spec_seq cs ?n), snd (spec c ?m) @ snd (spec_seq cs ?n))" by (simp add: split_beta Let_def)
  show ?case unfolding q b(2) u(1) fst_conv snd_conv using u(3) progressed_trans [OF t(1) u(2)] t(2) by auto
qed

lemma exec_does:
  assumes "ready i s" "i \<in> set (clients_list s)" "CLIENT_MULTI \<in> flags (clients s i)" "CLIENT_DIRTY_CAS \<notin> flags (clients s i)" "CLIENT_DIRTY_EXEC \<notin> flags (clients s i)"
    and "mstate (clients s i) = map queued cs" "length cs < 2 ^ 63" "\<forall>c \<in> set cs. small c" "small_store (store s (cur_db s i))"
  shows "let t = execCommand (call_with run_proc) i s; r = spec_seq cs (store s (cur_db s i)) in
    progressed i (42 # dec (length cs) @ crlf @ snd r) s t \<and> store t = (store s)(cur_db s i := fst r) \<and> CLIENT_MULTI \<notin> flags (clients t i) \<and> mstate (clients t i) = []"
proof -
  let ?a = "unwatchAllKeys i s" let ?b = "reply_mbulk i (length cs) ?a" let ?r = "spec_seq cs (store s (cur_db s i))"
  have a: "progressed i [] s ?a" "val ?a = val s" by (rule unwatch_progressed [OF assms(1,2)])+
  have ra: "ready i ?a" by (rule progressed_ready [OF a(1) assms(1)])
  note b0 = mbulk_answered [OF ra assms(7)]
  have b: "progressed i (42 # dec (length cs) @ crlf) s ?b" using progressed_trans [OF a(1) answered_progressed [OF b0(1)]] by simp
  have rb: "ready i ?b" by (rule progressed_ready [OF b assms(1)])
  have sb: "store ?b = store s" "cur_db ?b i = cur_db s i" using progressed_store [OF b] b b0(2) a(2) by (simp_all add: progressed_def)
  have m: "mstate (clients ?a i) = map queued cs" "mstate (clients ?b i) = map queued cs"
    using assms(6) mstate_unwatch [of i s i] creply_mbulk [of "clients ?a i"] by (simp_all add: creply_def reply_mbulk_def upd_client_def)
  obtain t e where t: "exec_loop (call_with run_proc) i (map queued cs) False ?b = (t, e)" "progressed i (snd ?r) ?b t" "store t = (store s)(cur_db s i := fst ?r)"
    using exec_loop_does [OF rb assms(8), of False] assms(9) by (auto simp: sb)
  have st: "progressed i (42 # dec (length cs) @ crlf @ snd ?r) s t" using progressed_trans [OF b t(2)] by simp
  have rt: "ready i t" by (rule progressed_ready [OF st assms(1)])
  let ?u = "upd_client i (\<lambda>c. c\<lparr>argv := cargs ?a i, cmd := cmd (clients ?a i)\<rparr>) t" let ?v = "discardTransaction i ?u"
  have u: "progressed i [] t ?u" by (rule argv_progressed [OF rt])
  have ru: "ready i ?u" by (rule progressed_ready [OF u rt])
  have cl: "i \<in> set (clients_list ?u)" using assms(2) env_fields(7) [of t s] st by (simp add: progressed_def upd_client_def)
  have v: "progressed i (42 # dec (length cs) @ crlf @ snd ?r) s ?v" "val ?v = val t"
    using progressed_trans [OF progressed_trans [OF st u] discard_progressed(1) [OF ru cl]] discard_progressed(2) [OF ru cl] by simp_all
  have vs: "store ?v = store t" by (rule progressed_store [OF _ v(2), of i "[]"]) (use progressed_trans [OF u discard_progressed(1) [OF ru cl]] in simp)
  have w: "progressed i bs s (add_dirty n x) = progressed i bs s x" "store (add_dirty n x) = store x" for bs n x
    using store_view [OF view_val, of "add_dirty n x" x] by (simp_all add: progressed_def plain_simps others_def) (simp add: add_dirty_def)
  have "execCommand (call_with run_proc) i s = (if e then add_dirty 1 ?v else ?v)"
    using assms(3-5) m t(1) by (simp add: execCommand_def Let_def)
  then show ?thesis using v vs t(3) discard_effect [of i ?u] by (simp add: Let_def w)
qed

section \<open>Types\<close>

definition string_procs :: "cmd_proc set" where
  "string_procs = {GetCommand, GetsetCommand, StrlenCommand, AppendCommand, IncrCommand, DecrCommand}"

lemma wrong_reply: "ready i s \<Longrightarrow> looked_up d k s u \<Longrightarrow> answered i wrongtype s (reply_obj i shared_wrongtypeerr u) \<and> view (reply_obj i shared_wrongtypeerr u) = view s"
proof -
  assume a: "ready i s" "looked_up d k s u"
  note l = after_lookup(1-3) [OF a]
  show ?thesis using answered_trans [OF l(1) replies_ran(1) [OF l(2), of shared_wrongtypeerr]] answered_view [OF replies_ran(1,2) [OF l(2), of shared_wrongtypeerr]] l(3)
    by (simp add: wrongtype_def)
qed

lemma string_procs_wrong:
  assumes "ready i s" "view s (cur_db s i) (cargs s i ! 1) = Some v" "\<forall>x. v \<noteq> OBJ_STRING x" "p \<in> string_procs"
  shows "answered i wrongtype s (run_proc p i s) \<and> view (run_proc p i s) = view s"
proof -
  let ?d = "cur_db s i" let ?k = "cargs s i ! 1"
  have p: "plain s" "?d < length (db s)" using assms(1) by (auto simp: ready_def)
  have ty: "obj_type v \<noteq> 0" "(case v of OBJ_STRING x \<Rightarrow> f x | _ \<Rightarrow> g) = g" for f and g :: 'a using assms(3) by (cases v; simp)+
  obtain t where t: "lookupKeyRead ?d ?k s = (t, Some v)" "looked_up ?d ?k s t" using lookupKeyRead_view [OF p, of ?k] assms(2) by auto
  obtain u where u: "lookupKeyWrite ?d ?k s = (u, Some v)" "looked_up ?d ?k s u" using lookupKeyWrite_view [OF p, of ?k] assms(2) by auto
  note r = wrong_reply [OF assms(1) t(2)] and w = wrong_reply [OF assms(1) u(2)]
  have g: "getGenericCommand i s = (reply_obj i shared_wrongtypeerr t, False)" using t(1) ty by (simp add: getGenericCommand_def lookupKeyReadOrReply_def)
  have n: "incrDecrCommand i n s = reply_obj i shared_wrongtypeerr u" for n using u(1) ty(1) by (simp add: incrDecrCommand_def checkType_def Let_def)
  have "strlenCommand i s = reply_obj i shared_wrongtypeerr t" using t(1) ty by (simp add: strlenCommand_def lookupKeyReadOrReply_def)
  moreover have "appendCommand i s = reply_obj i shared_wrongtypeerr u" using u(1) assms(3) by (cases v) (simp_all add: appendCommand_def append_value_def)
  ultimately show ?thesis using assms(4) r w by (auto simp: string_procs_def getCommand_def getsetCommand_def g incrCommand_def decrCommand_def n)
qed

section \<open>MOVE and WATCH\<close>

text \<open>No step of MOVE marks the clients that watch the key.\<close>

lemma marks_expire: "is_dirty (fst (expireIfNeeded d k s)) j = is_dirty s j"
proof -
  have 1: "is_dirty (fst (getExpire d k t)) j = is_dirty t j" for t by (simp add: getExpire_def serverAssert_def split: option.split)
  have 2: "is_dirty (fst (dbSyncDelete d k t)) j = is_dirty t j" for t by (simp add: dbSyncDelete_def Let_def upd_db_def)
  have 3: "is_dirty (notifyKeyspaceEvent cls ev k d t) j = is_dirty t j" for cls ev t by (rule marks_reply [OF sreply_notify])
  have 4: "is_dirty (propagateExpire d k l t) j = is_dirty t j" for l t by simp
  show ?thesis using 1 [of s] by (cases "getExpire d k s") (simp add: expireIfNeeded_def Let_def 2 3 4)
qed

lemma marks_lookup: "is_dirty (fst (lookupKeyWrite d k s)) j = is_dirty s j"
  using marks_expire [of d k s j] by (simp add: lookupKeyWrite_def split_beta)

lemma val_dbDelete: "d < length (db t) \<Longrightarrow> val (fst (dbDelete d k t)) x k' = (if x = d \<and> k' = k then (None, None) else val t x k')"
  by (auto simp: dbDelete_def dbSyncDelete_def Let_def val_def upd_db_def nth_list_update delete_conv')

lemma move_found:
  assumes "plain s" "cur_db s i = d" "d < length (db s)" "getLongLongFromObject (Some (createStringObject (cargs s i ! 2))) = Some n" "sint n = int e" "e < length (db s)" "e < 2 ^ 31" "e \<noteq> d"
    and "view s d (cargs s i ! 1) = Some v" "view s e (cargs s i ! 1) = None"
  shows "let t = moveCommand i s; k = cargs s i ! 1 in fst (val t d k) = None \<and> fst (val t e k) = Some v \<and> (\<forall>j. is_dirty t j = is_dirty s j)"
proof -
  let ?k = "cargs s i ! 1"
  obtain t where t: "lookupKeyWrite d ?k s = (t, Some v)" "looked_up d ?k s t" using lookupKeyWrite_view [OF assms(1,3), of ?k] assms(9) by auto
  have pt: "plain t" "e < length (db t)" "view t e ?k = None" using t(2) assms(6,10) env_fields(1) [of t s] looked_up_view [OF t(2)] by (simp_all add: looked_up_def)
  obtain u where u: "lookupKeyWrite e ?k t = (u, None)" "looked_up e ?k t u" using lookupKeyWrite_view [OF pt(1,2), of ?k] pt(3) by auto
  have lu: "d < length (db u)" "e < length (db u)" using t(2) u(2) assms(3,6) env_fields(1) [of t s] env_fields(1) [of u t] by (simp_all add: looked_up_def)
  have mu: "is_dirty u j = is_dirty s j" for j using t(2) u(2) by (simp add: looked_up_def)
  have nu: "map_of (dict (db u ! e)) ?k = None" using looked_up_val [OF u(2)] pt(3) lu(2) by (simp add: val_def)
  have "getExpire d ?k t = (t, snd (getExpire d ?k t))"
  proof -
    have "map_of (dict (db t ! d)) ?k = Some v" using looked_up_val [OF t(2)] assms(9) lu(1) env_fields(1) [of u t] u(2) by (simp add: val_def looked_up_def)
    then show ?thesis by (simp add: getExpire_def serverAssert_def split: option.split)
  qed
  then obtain w where w: "getExpire d ?k t = (t, w)" by metis
  define a where "a = dbAdd e ?k v u"
  define b where "b = (if w \<noteq> - 1 then setExpire e ?k w a else a)"
  define c where "c = fst (dbDelete d ?k b)"
  have a: "length (db a) = length (db u)" "clients a = clients u" "fst (val a e ?k) = Some v"
    unfolding a_def dbAdd_def Let_def serverAssert_def using nu lu(2) by (simp_all add: val_upd update_conv')
  have "map_of (dict (db a ! e)) ?k = Some v" using a(1,3) lu(2) by (simp add: val_def)
  then have b: "length (db b) = length (db u)" "clients b = clients u" "fst (val b e ?k) = Some v"
    unfolding b_def setExpire_def Let_def serverAssert_def using a lu(2) by (simp_all add: val_upd)
  have c: "clients c = clients b" unfolding c_def dbDelete_def dbSyncDelete_def Let_def by simp
  have sel: "selectDb i (sint n) s = (upd_client i (\<lambda>c. c\<lparr>cdb := e\<rparr>) s, True)" "selectDb i (int d) (upd_client i (\<lambda>c. c\<lparr>cdb := e\<rparr>) s) = (s, True)"
    using assms(2,3,5,6) by (auto simp: selectDb_def upd_client_def fun_upd_idem)
  have ce: "cur_db (upd_client i (\<lambda>c. c\<lparr>cdb := e\<rparr>) s) i = e" by (simp add: upd_client_def)
  have r: "\<not> (sint n < - (2 ^ 31) \<or> sint n > 2 ^ 31 - 1)" "d \<noteq> e" using assms(5,7,8) by auto
  have mv: "moveCommand i s = reply_obj i shared_cone (add_dirty 1 c)"
    unfolding moveCommand_def Let_def assms(2,4) option.case if_not_P [OF r(1)] sel prod.case ce t(1) w u(1) if_not_P [OF r(2)]
    by (simp add: a_def b_def c_def split_beta)
  have "fst (val c e ?k) = Some v" "fst (val c d ?k) = None" using val_dbDelete [of d b] b(1,3) lu(1) assms(8) by (simp_all add: c_def)
  moreover have "is_dirty c j = is_dirty s j" for j using mu [of j] by (simp add: c b(2))
  moreover have "val (reply_obj i shared_cone x) = val x" "is_dirty (reply_obj i shared_cone x) j = is_dirty x j" for x j
    by (simp add: reply_obj_def, rule marks_reply [OF sreply_replies(1)])
  ultimately show ?thesis unfolding mv Let_def by simp
qed

end
