(* ===== verification/Publish.thy ===== *)
theory Publish
  imports Store_Run
begin

text \<open>
  Publishing delivers to the subscribers, and the classes of keyspace notifications survive printing and parsing.
\<close>

section \<open>Publishing\<close>

definition message_bytes :: "byte list \<Rightarrow> byte list \<Rightarrow> byte list" where
  "message_bytes channel message = chars ''*3'' @ crlf @ bulk (chars ''message'') @ bulk channel @ bulk message"

definition pmessage_bytes :: "byte list \<Rightarrow> byte list \<Rightarrow> byte list \<Rightarrow> byte list" where
  "pmessage_bytes pattern channel message = chars ''*4'' @ crlf @ bulk (chars ''pmessage'') @ bulk pattern @ bulk channel @ bulk message"

definition sent :: "nat \<Rightarrow> byte list \<Rightarrow> server \<Rightarrow> server \<Rightarrow> bool" where
  "sent i bs s t \<longleftrightarrow> appended (clients s i) bs (clients t i) \<and> (\<forall>j. j \<noteq> i \<longrightarrow> clients t j = clients s j) \<and> server_patterns t = server_patterns s"

lemma sent_upd: "appended (clients s i) bs (f (clients s i)) \<Longrightarrow> sent i bs s (upd_client i f s)"
  by (simp add: sent_def upd_client_def)

lemma sent_more:
  assumes "sent i bs s t"
  shows "sent i (bs @ getDecodedObject ob) s (reply_obj i ob t)" "length (getDecodedObject ob) < 2 ^ 63 \<Longrightarrow> sent i (bs @ bulk (getDecodedObject ob)) s (reply_bulk i ob t)"
proof -
  have w: "out_ok (clients t i)" "writable (clients t i)" using assms by (auto simp: sent_def appended_def)
  have tr: "sent i (bs @ cs) s u" if "sent i cs t u" for cs u using assms that by (auto simp: sent_def appended_def)
  show "sent i (bs @ getDecodedObject ob) s (reply_obj i ob t)" unfolding reply_obj_def by (intro tr sent_upd obj_sink.add_appends w)
  show "sent i (bs @ bulk (getDecodedObject ob)) s (reply_bulk i ob t)" if "length (getDecodedObject ob) < 2 ^ 63"
    unfolding reply_bulk_def by (intro tr sent_upd addReplyBulk_ok w that)
qed

lemma sent_start: "out_ok (clients s i) \<Longrightarrow> writable (clients s i) \<Longrightarrow> sent i [] s s"
  by (simp add: sent_def appended_def)

lemma header_digits: "42 # dec 3 @ crlf = chars ''*3'' @ crlf" "42 # dec 4 @ crlf = chars ''*4'' @ crlf"
  by (simp_all add: dec.simps chars_def)

lemma send_message_sent:
  assumes "out_ok (clients s i)" "writable (clients s i)" "length ch < 2 ^ 63" "length msg < 2 ^ 63"
  shows "sent i (message_bytes ch msg) s (send_message ch msg i s)"
proof -
  let ?a = "reply_obj i (mbulkhdr 3) s" let ?b = "reply_obj i (shared_bulk ''message'') ?a" let ?c = "reply_bulk i (createStringObject ch) ?b"
  have a: "sent i (chars ''*3'' @ crlf) s ?a" using sent_more(1) [OF sent_start [OF assms(1,2)], of "mbulkhdr 3"] by (simp only: header_digits getDecodedObject.simps append_Nil)
  have b: "sent i ((chars ''*3'' @ crlf) @ bulk (chars ''message'')) s ?b" using sent_more(1) [OF a, of "shared_bulk ''message''"] by (simp only: getDecodedObject.simps)
  have c: "sent i (((chars ''*3'' @ crlf) @ bulk (chars ''message'')) @ bulk ch) s ?c" using sent_more(2) [OF b, of "createStringObject ch"] assms(3) by simp
  show ?thesis using sent_more(2) [OF c, of "createStringObject msg"] assms(4) by (simp add: send_message_def message_bytes_def)
qed

lemma send_pmessage_sent:
  assumes "out_ok (clients s i)" "writable (clients s i)" "length p < 2 ^ 63" "length ch < 2 ^ 63" "length msg < 2 ^ 63"
  shows "sent i (pmessage_bytes p ch msg) s (send_pmessage ch msg (i, p) s)"
proof -
  let ?a = "reply_obj i (mbulkhdr 4) s" let ?b = "reply_obj i (shared_bulk ''pmessage'') ?a" let ?c = "reply_bulk i (createStringObject p) ?b" let ?d = "reply_bulk i (createStringObject ch) ?c"
  have a: "sent i (chars ''*4'' @ crlf) s ?a" using sent_more(1) [OF sent_start [OF assms(1,2)], of "mbulkhdr 4"] by (simp only: header_digits getDecodedObject.simps append_Nil)
  have b: "sent i ((chars ''*4'' @ crlf) @ bulk (chars ''pmessage'')) s ?b" using sent_more(1) [OF a, of "shared_bulk ''pmessage''"] by (simp only: getDecodedObject.simps)
  have c: "sent i (((chars ''*4'' @ crlf) @ bulk (chars ''pmessage'')) @ bulk p) s ?c" using sent_more(2) [OF b, of "createStringObject p"] assms(3) by simp
  have d: "sent i ((((chars ''*4'' @ crlf) @ bulk (chars ''pmessage'')) @ bulk p) @ bulk ch) s ?d" using sent_more(2) [OF c, of "createStringObject ch"] assms(4) by simp
  show ?thesis using sent_more(2) [OF d, of "createStringObject msg"] assms(5) by (simp add: send_pmessage_def pmessage_bytes_def)
qed

text \<open>What a list of messages adds to the output of the clients.\<close>

definition delivered :: "(nat \<times> byte list) list \<Rightarrow> server \<Rightarrow> server \<Rightarrow> bool" where
  "delivered out s t \<longleftrightarrow> server_patterns t = server_patterns s \<and>
     (\<forall>j. pending (clients t j) = pending (clients s j) @ replies_to j out \<and> (out_ok (clients s j) \<and> writable (clients s j) \<longrightarrow> out_ok (clients t j) \<and> writable (clients t j)))"

lemma delivered_Nil: "delivered [] s s"
  by (simp add: delivered_def replies_to_def)

lemma delivered_Cons: "sent i bs s t \<Longrightarrow> delivered out t u \<Longrightarrow> delivered ((i, bs) # out) s u"
  by (auto simp: delivered_def sent_def appended_def replies_to_def)

lemma delivered_append: "delivered out s t \<Longrightarrow> delivered out' t u \<Longrightarrow> delivered (out @ out') s u"
  by (simp add: delivered_def replies_to_def)

lemma channel_delivered:
  assumes "\<forall>i \<in> set cs. out_ok (clients s i) \<and> writable (clients s i)" "length ch < 2 ^ 63" "length msg < 2 ^ 63"
  shows "delivered (map (\<lambda>i. (i, message_bytes ch msg)) cs) s (fold (send_message ch msg) cs s)"
  using assms(1)
proof (induction cs arbitrary: s)
  case (Cons i cs)
  let ?t = "send_message ch msg i s"
  have t: "sent i (message_bytes ch msg) s ?t" using Cons.prems assms(2,3) by (intro send_message_sent) auto
  have "out_ok (clients ?t j) \<and> writable (clients ?t j)" if "j \<in> set cs" for j using t that Cons.prems by (cases "j = i") (auto simp: sent_def appended_def)
  then show ?case using delivered_Cons [OF t Cons.IH [of ?t]] by simp
qed (simp add: delivered_Nil)

lemma patterns_delivered:
  assumes "\<forall>(i, p) \<in> set pats. out_ok (clients s i) \<and> writable (clients s i) \<and> length p < 2 ^ 63 \<and> stringmatchlen p ch False \<noteq> None" "length ch < 2 ^ 63" "length msg < 2 ^ 63"
  shows "\<exists>t. publish_patterns ch msg pats s = (t, length (filter (\<lambda>(i, p). stringmatchlen p ch False = Some True) pats)) \<and>
    delivered (map (\<lambda>(i, p). (i, pmessage_bytes p ch msg)) (filter (\<lambda>(i, p). stringmatchlen p ch False = Some True) pats)) s t"
  using assms(1)
proof (induction pats arbitrary: s)
  case (Cons ip pats)
  obtain i p where ip: "ip = (i, p)" by (cases ip)
  have pre: "out_ok (clients s i)" "writable (clients s i)" "length p < 2 ^ 63" "stringmatchlen p ch False \<noteq> None" using Cons.prems ip by auto
  show ?case
  proof (cases "stringmatchlen p ch False = Some True")
    case True
    let ?u = "send_pmessage ch msg (i, p) s"
    have u: "sent i (pmessage_bytes p ch msg) s ?u" by (rule send_pmessage_sent [OF pre(1-3) assms(2,3)])
    have "out_ok (clients ?u j) \<and> writable (clients ?u j)" if "out_ok (clients s j) \<and> writable (clients s j)" for j
      using u that by (cases "j = i") (auto simp: sent_def appended_def)
    then have "\<forall>(i, p) \<in> set pats. out_ok (clients ?u i) \<and> writable (clients ?u i) \<and> length p < 2 ^ 63 \<and> stringmatchlen p ch False \<noteq> None" using Cons.prems by auto
    from Cons.IH [OF this] obtain t where "publish_patterns ch msg pats ?u = (t, length (filter (\<lambda>(i, p). stringmatchlen p ch False = Some True) pats))"
      "delivered (map (\<lambda>(i, p). (i, pmessage_bytes p ch msg)) (filter (\<lambda>(i, p). stringmatchlen p ch False = Some True) pats)) ?u t" by blast
    then show ?thesis using True ip delivered_Cons [OF u] by simp
  next
    case False
    then have "stringmatchlen p ch False = Some False" using pre(4) by (cases "stringmatchlen p ch False") auto
    then show ?thesis using Cons.IH [of s] Cons.prems ip by auto
  qed
qed (simp add: delivered_Nil)

text \<open>
  C10: Publishing sends one message to every subscriber of the channel and one to every subscription of a pattern that matches the channel, in the order of the subscriptions, and nothing to any
  other client; the count it reports is the number of messages sent.
\<close>

theorem publish_delivers:
  assumes "\<forall>i \<in> set (case map_of (server_channels s) ch of None \<Rightarrow> [] | Some cs \<Rightarrow> cs). out_ok (clients s i) \<and> writable (clients s i)"
    and "\<forall>(i, p) \<in> set (server_patterns s). out_ok (clients s i) \<and> writable (clients s i) \<and> length p < 2 ^ 63 \<and> stringmatchlen p ch False \<noteq> None"
    and "length ch < 2 ^ 63" "length msg < 2 ^ 63"
  shows "let (t, n) = pubsubPublishMessage ch msg s;
      out = map (\<lambda>i. (i, message_bytes ch msg)) (case map_of (server_channels s) ch of None \<Rightarrow> [] | Some cs \<Rightarrow> cs) @
            map (\<lambda>(i, p). (i, pmessage_bytes p ch msg)) (filter (\<lambda>(i, p). stringmatchlen p ch False = Some True) (server_patterns s))
    in n = length out \<and> (\<forall>j. pending (clients t j) = pending (clients s j) @ replies_to j out)"
proof -
  let ?cs = "case map_of (server_channels s) ch of None \<Rightarrow> [] | Some cs \<Rightarrow> cs" let ?t = "fold (send_message ch msg) ?cs s"
  have c: "delivered (map (\<lambda>i. (i, message_bytes ch msg)) ?cs) s ?t" by (rule channel_delivered [OF assms(1,3,4)])
  have sp: "server_patterns ?t = server_patterns s" using c by (simp add: delivered_def)
  have "\<forall>(i, p) \<in> set (server_patterns s). out_ok (clients ?t i) \<and> writable (clients ?t i) \<and> length p < 2 ^ 63 \<and> stringmatchlen p ch False \<noteq> None"
    using assms(2) c by (auto simp: delivered_def)
  from patterns_delivered [OF this assms(3,4)] obtain u where
    u: "publish_patterns ch msg (server_patterns s) ?t = (u, length (filter (\<lambda>(i, p). stringmatchlen p ch False = Some True) (server_patterns s)))"
      "delivered (map (\<lambda>(i, p). (i, pmessage_bytes p ch msg)) (filter (\<lambda>(i, p). stringmatchlen p ch False = Some True) (server_patterns s))) ?t u" by blast
  have "pubsubPublishMessage ch msg s = (u, length ?cs + length (filter (\<lambda>(i, p). stringmatchlen p ch False = Some True) (server_patterns s)))"
    unfolding pubsubPublishMessage_def Let_def sp u(1) prod.case ..
  then show ?thesis using delivered_append [OF c u(2)] by (simp add: delivered_def)
qed

definition subscribed :: server where
  "subscribed = fresh_server\<lparr>server_channels := [([110], [1])], server_patterns := [(2, [110, 42]), (1, [120])]\<rparr>"

theorem publish_delivers_witness:
  "let (t, n) = pubsubPublishMessage [110] [104, 105] subscribed in n = 2 \<and> pending (clients t 1) = message_bytes [110] [104, 105] \<and>
    pending (clients t 2) = pmessage_bytes [110, 42] [110] [104, 105]"
proof -
  have c: "clients subscribed i = fresh_client" for i by (simp add: subscribed_def fresh_server_def)
  have m: "stringmatchlen [110, 42] [110] False = Some True" "stringmatchlen [120] [110] False = Some False" by code_simp+
  have s: "server_channels subscribed = [([110], [1])]" "server_patterns subscribed = [(2, [110, 42]), (1, [120])]" by (simp_all add: subscribed_def)
  show ?thesis using publish_delivers [of subscribed "[110]" "[104, 105]"]
    by (simp add: c s m fresh_client_ok Let_def split_beta replies_to_def ex_bool_eq)
qed

section \<open>Configuration of notifications\<close>

lemma bind_if: "Option.bind (if b then x else y) f = (if b then Option.bind x f else Option.bind y f)"
  by simp

lemma events_append: "events_loop (xs @ ys) fs = Option.bind (events_loop xs fs) (events_loop ys)"
proof (induction xs arbitrary: fs)
  case (Cons c xs)
  show ?case unfolding append_Cons events_loop.simps Cons bind_if Option.bind.simps ..
qed simp

lemma events_table:
  assumes "\<forall>(c, x) \<in> set tab. \<forall>gs. events_loop [c] gs = Some (insert x gs)"
  shows "events_loop (concat (map (\<lambda>(c, x). if x \<in> fs then [c] else []) tab)) gs = Some (gs \<union> (snd ` set tab \<inter> fs))"
  using assms
proof (induction tab arbitrary: gs)
  case (Cons cx tab)
  obtain c x where cx: "cx = (c, x)" by (cases cx)
  have 1: "events_loop [c] gs = Some (insert x gs)" for gs using Cons.prems cx by auto
  have 2: "events_loop (concat (map (\<lambda>(c, x). if x \<in> fs then [c] else []) tab)) gs = Some (gs \<union> (snd ` set tab \<inter> fs))" for gs using Cons by auto
  show ?case
  proof (cases "x \<in> fs")
    case True
    have "events_loop (concat (map (\<lambda>(c, x). if x \<in> fs then [c] else []) (cx # tab))) gs = Some (insert x gs \<union> (snd ` set tab \<inter> fs))"
      unfolding cx list.map concat.simps prod.case if_P [OF True] events_append 1 Option.bind.simps 2 ..
    moreover have "insert x gs \<union> (snd ` set tab \<inter> fs) = gs \<union> (snd ` set (cx # tab) \<inter> fs)" using True cx by auto
    ultimately show ?thesis by (simp only:)
  next
    case False
    have "snd ` set (cx # tab) \<inter> fs = snd ` set tab \<inter> fs" using False cx by auto
    then show ?thesis using 2 [of gs] False cx by (simp only: list.map concat.simps prod.case if_False append_Nil)
  qed
qed simp

definition class_chars :: "(char \<times> notify_class) list" where
  "class_chars = [(CHR ''g'', NOTIFY_GENERIC), (CHR ''$'', NOTIFY_STRING), (CHR ''l'', NOTIFY_LIST), (CHR ''s'', NOTIFY_SET), (CHR ''h'', NOTIFY_HASH), (CHR ''z'', NOTIFY_ZSET),
     (CHR ''x'', NOTIFY_EXPIRED), (CHR ''e'', NOTIFY_EVICTED)]"

definition target_chars :: "(char \<times> notify_class) list" where
  "target_chars = [(CHR ''K'', NOTIFY_KEYSPACE), (CHR ''E'', NOTIFY_KEYEVENT)]"

lemma tables_parse: "\<forall>(c, x) \<in> set class_chars. \<forall>gs. events_loop [c] gs = Some (insert x gs)" "\<forall>(c, x) \<in> set target_chars. \<forall>gs. events_loop [c] gs = Some (insert x gs)"
  unfolding class_chars_def target_chars_def list.set ball_simps prod.case by (intro conjI allI; simp)+

lemma tables_cover: "snd ` set class_chars = NOTIFY_ALL" "NOTIFY_ALL \<union> snd ` set target_chars = UNIV"
proof -
  show "snd ` set class_chars = NOTIFY_ALL" by (simp add: class_chars_def)
  have "x \<in> NOTIFY_ALL \<union> snd ` set target_chars" for x by (cases x) (simp_all add: target_chars_def)
  then show "NOTIFY_ALL \<union> snd ` set target_chars = UNIV" by blast
qed

text \<open>
  C38: Printing the enabled classes of notifications and parsing the result gives back the same classes.
\<close>

theorem keyspaceEvents_roundtrip: "keyspaceEventsStringToFlags (keyspaceEventsFlagsToString fs) = Some fs"
proof -
  let ?f = "\<lambda>tab. concat (map (\<lambda>(c, x). if x \<in> fs then [c] else []) tab)"
  have p: "keyspaceEventsFlagsToString fs = (if NOTIFY_ALL \<subseteq> fs then ''A'' else ?f class_chars) @ ?f target_chars"
    unfolding keyspaceEventsFlagsToString_def class_chars_def target_chars_def list.map concat.simps prod.case append_Nil2 append_assoc ..
  have a: "events_loop (if NOTIFY_ALL \<subseteq> fs then ''A'' else ?f class_chars) {} = Some (NOTIFY_ALL \<inter> fs)"
  proof (cases "NOTIFY_ALL \<subseteq> fs")
    case True
    then have "NOTIFY_ALL \<inter> fs = NOTIFY_ALL" by blast
    moreover have "events_loop ''A'' {} = Some NOTIFY_ALL" by simp
    ultimately show ?thesis unfolding if_P [OF True] by (simp only:)
  next
    case False
    show ?thesis unfolding if_not_P [OF False] events_table [OF tables_parse(1)] tables_cover(1) Un_empty_left ..
  qed
  have "NOTIFY_ALL \<inter> fs \<union> (snd ` set target_chars \<inter> fs) = fs" using tables_cover(2) by blast
  then show ?thesis unfolding keyspaceEventsStringToFlags_def p events_append a Option.bind.simps events_table [OF tables_parse(2)] by (simp only:)
qed

end
