(* ===== verification/Auth.thy ===== *)
theory Auth
  imports Store_Run
begin

text \<open>
  AUTH and its comparison of passwords.
\<close>

section \<open>Passwords\<close>

lemma or_zero: "(x :: u32) OR y = 0 \<longleftrightarrow> x = 0 \<and> y = 0"
  by (auto simp: bit_eq_iff bit_simps)

lemma xor_zero: "x XOR y = 0 \<longleftrightarrow> x = (y :: 'a :: len word)"
  by (metis xor_self_eq xor.left_neutral xor.assoc xor.right_neutral)

lemma diff_zero:
  assumes "length xs = length ys"
  shows "fold (\<lambda>(x, y) diff. diff OR ucast (x XOR y)) (zip xs ys) (d :: u32) = 0 \<longleftrightarrow> d = 0 \<and> (xs :: byte list) = ys"
  using assms
proof (induction xs ys arbitrary: d rule: list_induct2)
  case (Cons x xs y ys)
  have "(ucast z :: u32) = 0 \<longleftrightarrow> z = 0" for z :: byte
  proof -
    have "unat (ucast z :: u32) = unat z" using unsigned_less [of z, where 'a = nat] by (simp add: unsigned_ucast_eq take_bit_nat_eq_self)
    then show ?thesis by (metis unat_eq_zero)
  qed
  moreover have "x XOR y = 0 \<longleftrightarrow> x = y" by (rule xor_zero)
  ultimately show ?case using Cons by (auto simp: or_zero)
qed simp

lemma strcmp_zero: "time_independent_strcmp a b = 0 \<longleftrightarrow> cstr a = cstr b \<and> length (cstr a) \<le> CONFIG_AUTHPASS_MAX_LEN"
proof (cases "length (cstr a) > CONFIG_AUTHPASS_MAX_LEN \<or> length (cstr b) > CONFIG_AUTHPASS_MAX_LEN")
  case True
  then show ?thesis by (auto simp: time_independent_strcmp_def Let_def)
next
  case False
  let ?a = "cstr a @ replicate (CONFIG_AUTHPASS_MAX_LEN - length (cstr a)) 0" let ?b = "cstr b @ replicate (CONFIG_AUTHPASS_MAX_LEN - length (cstr b)) 0"
  have l: "length ?a = length ?b" using False unfolding length_append length_replicate by linarith
  have n: "(of_nat (length (cstr a)) XOR of_nat (length (cstr b)) :: u32) = 0 \<longleftrightarrow> length (cstr a) = length (cstr b)"
  proof -
    have "(of_nat (length (cstr a)) XOR of_nat (length (cstr b)) :: u32) = 0 \<longleftrightarrow> (of_nat (length (cstr a)) :: u32) = of_nat (length (cstr b))"
      by (rule xor_zero)
    also have "\<dots> \<longleftrightarrow> unat (of_nat (length (cstr a)) :: u32) = unat (of_nat (length (cstr b)) :: u32)" by (simp add: word_unat_eq_iff)
    also have "\<dots> \<longleftrightarrow> length (cstr a) = length (cstr b)" using False by (simp add: unat_of_nat)
    finally show ?thesis .
  qed
  have "time_independent_strcmp a b = 0 \<longleftrightarrow> ?a = ?b \<and> length (cstr a) = length (cstr b)"
    unfolding time_independent_strcmp_def Let_def if_not_P [OF False] or_zero diff_zero [OF l] n by (simp only: simp_thms)
  also have "\<dots> \<longleftrightarrow> cstr a = cstr b" using append_eq_append_conv [of "cstr a" "cstr b"] by (intro iffI conjI) (simp_all only: simp_thms)
  finally show ?thesis using False by (simp only: not_less de_Morgan_disj simp_thms)
qed

text \<open>
  C36: AUTH lets a client in exactly when its argument, read as a C string, is the configured password and not longer than 512 bytes; otherwise an earlier authentication is withdrawn. The comparison
  that takes the same time for all inputs is thus an exact comparison of C strings.
\<close>

theorem auth_exact:
  assumes "requirepass s = Some pw"
  shows "authenticated (clients (authCommand i s) i) \<longleftrightarrow> cstr (cargs s i ! 1) = cstr pw \<and> length (cstr pw) \<le> CONFIG_AUTHPASS_MAX_LEN"
proof -
  have r: "authenticated (clients (reply_obj i ob t) i) = authenticated (clients t i)" "authenticated (clients (reply_err i e t) i) = authenticated (clients t i)" for ob e t
    using sreply_replies(1) [of t i ob] sreply_replies(6) [of t i e] by (simp_all add: sreply_def creply_def)
  show ?thesis using assms strcmp_zero [of "cargs s i ! 1" pw] by (auto simp: authCommand_def r) (simp_all add: upd_client_def split: if_splits)
qed

theorem auth_exact_witness:
  "let s = fresh_server\<lparr>requirepass := Some [115], clients := (\<lambda>_. fresh_client\<lparr>argv := [chars ''auth'', [115, 0, 120]]\<rparr>)\<rparr> in authenticated (clients (authCommand 1 s) 1)"
  using auth_exact [of "fresh_server\<lparr>requirepass := Some [115], clients := (\<lambda>_. fresh_client\<lparr>argv := [chars ''auth'', [115, 0, 120]]\<rparr>)\<rparr>" "[115]" 1]
  by (simp add: cstr_def)

end
