(* ===== verification/Spec2Isabelle.thy ===== *)
theory Spec2Isabelle
  imports Util Intset Dict_Scan Dict_Iter Proto_Safety Publish Auth
begin

text \<open>
  A verification development for the server of Redis 4.0.6 (C sources under src/hw5/redis-4.0.6/src; file names below are relative to
  that directory).

  \<^bold>\<open>The program and its parts.\<close> A client writes requests to a socket. \<open>networking.c\<close> collects them in the query buffer of the client, parses them
  and hands the arguments to the execution of commands, which read and change the keyspace, a \<open>dict.c\<close> hash table from strings (\<open>sds.c\<close>) to
  objects, some of which are stored in compact encodings such as \<open>intset.c\<close>. Replies are queued on the client by \<open>networking.c\<close> and written when the
  socket can take them. Numbers are parsed and printed, and glob patterns matched, by \<open>util.c\<close>. \<open>server.c\<close> looks a command up in its table, checks whether the client may
  run it and calls its procedure, in \<open>db.c\<close>, \<open>t_string.c\<close>, \<open>expire.c\<close>, \<open>multi.c\<close> or \<open>pubsub.c\<close>; \<open>notify.c\<close> publishes changes of keys.

  \<^bold>\<open>Conventions.\<close> C memory is a list of bytes with checked access: a read or write outside the object, a failed assertion and a call of the panic
  function are the value \<open>None\<close>, so every statement that a function returns \<open>Some\<close> is also a statement of memory safety. Machine integers are words, or
  \<open>nat\<close> and \<open>int\<close> with the reduction written out. What the allocator leaves in fresh memory (\<open>garb\<close>), the hash function, random numbers, what the
  socket delivers or accepts, and the time are arguments of the definitions. Pointers to strings and list nodes are the strings and nodes themselves,
  where no two live pointers to one of them are written through.

  \<^bold>\<open>Theories.\<close>
  \<^item> \<open>Redis_Prelude\<close>, \<open>Bytes\<close>: machine integers, checked access, blocks of bytes, little endian layout, generic lemmas.
  \<^item> \<open>Util\<close> (util.c): \<open>ll2string\<close>, \<open>string2ll\<close>, \<open>stringmatchlen\<close>. The two conversions are inverse and accept exactly the canonical decimal
    numbers of 64 bits; the matcher decides the declarative meaning of a pattern; two defects of it are proved.
  \<^item> \<open>Set_Interface\<close>, \<open>Intset\<close> (intset.c): all operations, to the byte; every sequence of them is a sequence on a mathematical set.
  \<^item> \<open>Map_Interface\<close>, \<open>Dict\<close>, \<open>Dict_Map\<close> (dict.c): the chained hash table with incremental rehashing; every sequence of insertions, replacements,
    deletions and lookups behaves as on a finite map, at every stage of a rehash; rehashing keeps the entries and ends.
  \<^item> \<open>Dict_Scan\<close> (dictScan): a complete scan returns every key that is present throughout, across resizes; the shrink that breaks this is exhibited.
  \<^item> \<open>Dict_Iter\<close>: iterators and random sampling.
  \<^item> \<open>Sds\<close>, \<open>Sds_List\<close> (sds.c, sds.h): strings with their five header layouts; string programs are programs on byte lists.
  \<^item> \<open>Sds_Text\<close>, \<open>Sds_Args\<close>: formatting, quoting, splitting and joining; quoting and splitting are inverse, splitting is total.
  \<^item> \<open>Client\<close>, \<open>Client_Output\<close> (networking.c, server.h): queueing and writing of replies; the bytes sent and pending are the queued replies in order.
  \<^item> \<open>Proto\<close>, \<open>Proto_Spec\<close>, \<open>Proto_Safety\<close> (networking.c): the request parser and the input loop; pipelined requests are executed as sent however
    the stream is cut up; arbitrary input never makes the parser fail or loop.
  \<^item> \<open>Object\<close> (object.c): string objects in their three encodings; equality is equality of the bytes below a length of \<open>2 ^ 31\<close>.
  \<^item> \<open>Server\<close> (server.h, server.c): the state of the server as a record, clients as a function of a client number, the command table, replies to a client by number. Databases are
    association lists from keys to values, to expiry times and to watching clients. A failed assertion or allocation sets \<open>panicked\<close>, which no step clears.
  \<^item> \<open>Pubsub\<close> (pubsub.c, notify.c), \<open>Keyspace\<close> (db.c, expire.c), \<open>T_String\<close> (t_string.c), \<open>Multi\<close> (multi.c, and \<open>call\<close>, \<open>processCommand\<close>, AUTH, PING and ECHO of server.c): one
    definition per function of the source, taking the client number and the server and returning the server.
  \<^item> \<open>Frame\<close>: what a reply leaves alone. \<open>Watch_Frame\<close>, \<open>Watch_Commands\<close>, \<open>Watch_Run\<close>: every modelled command but MOVE, SWAPDB and PERSIST marks the clients that watch a key it changes,
    through \<open>call\<close>, EXEC and \<open>processCommand\<close>; the invariant of the databases and watched keys; runs of the server as lists of requests, expirations and passing time.
  \<^item> \<open>Store_View\<close>, \<open>Store_Commands\<close>, \<open>Store_Run\<close>: an abstract store of strings and, for nine commands, that the procedure, the request and the transaction do what the store says.
  \<^item> \<open>Publish\<close>, \<open>Auth\<close>: delivery of published messages, classes of notifications, the comparison of passwords.
  \<^item> This theory: the properties of the whole server, from requests to replies.

  \<^bold>\<open>Interfaces.\<close> The locales \<open>bounded_int_set\<close>, \<open>bounded_map\<close>, \<open>byte_buffer\<close> and \<open>reply_sink\<close> state what clients rely on; each is interpreted on
  the definitions of the component that provides it. \<open>step_relation\<close> and its extension \<open>own_relation\<close> state what a relation between server states needs to hold across \<open>call\<close>, EXEC and
  \<open>processCommand\<close>; they are interpreted for the signalled changes, for the changes of a client's own watched keys and for the invariant.

  \<^bold>\<open>Loops and bounds.\<close> Loops are recursive functions with a termination proof; the loops of \<open>dictScan\<close>, \<open>dictGetRandomKey\<close> and
  \<open>processInputBuffer\<close>, whose end is a theorem under the invariant of their data, are partial functions into \<open>option\<close>, with \<open>None\<close> for not returning.
  Bounds such as \<open>2 ^ 62\<close> on the length of a string keep the size computations below the width of \<open>size_t\<close>; an allocation of that size fails in practice.
  The bounds \<open>2 ^ 63\<close> on lengths keep the numbers in replies inside a \<open>long long\<close>. The refinement of the store is stated for a master that asks for no password, accepts writes, and is neither loading nor sending
  notifications, and for clients that are outside of transactions and subscriptions and whose output is accepted; the hypotheses are the definitions \<open>serving\<close>, \<open>available\<close> and \<open>ready\<close>.

  \<^bold>\<open>Not modelled.\<close> Lists, sets, hashes, sorted sets and streams of bits as values, with their encodings other than \<open>intset.c\<close>: values of these types are opaque to the modelled commands.
  Persistence, replication, cluster and Sentinel, Lua scripts, modules, the event loop, cron, memory limits, the slow log and the latency monitor: the commands that would be written
  to the append only file or sent to slaves are recorded in \<open>aof_stream\<close> and \<open>repl_stream\<close>, and nothing reads them. Floating point commands. Reference counts and the release of memory.
  Blocking commands and threads. The sampling of the expire cycle is the event that looks at one key.
\<close>

section \<open>Properties of the whole server\<close>

text \<open>
  C3: Refinement: on a master that is neither loading nor notifying, any interleaving of GET, SET, SETNX, GETSET, APPEND, STRLEN, INCRBY, EXISTS and DEL requests of several clients leaves in every
  database exactly the keys and values of the abstract store, gives every client exactly the concatenated replies of the abstract store to its own requests, and never crashes.
\<close>

theorem server_refines_store:
  assumes "serving s" "\<forall>(i, c) \<in> set es. available i s \<and> small c"
  shows "let t = run (requests es) s; (m, rs) = spec_run (cur_db s) es (store s) in
    store t = m \<and> (\<forall>j. pending (clients t j) = pending (clients s j) @ replies_to j rs) \<and> \<not> panicked t"
  using requests_refine [OF assms] by (simp add: split_beta Let_def serving_def plain_def)

lemma fresh_serving: "serving fresh_server" "available i fresh_server" "clients fresh_server i = fresh_client" "store fresh_server d k = None" "cur_db fresh_server i = 0"
proof -
  show c: "clients fresh_server i = fresh_client" for i by (simp add: fresh_server_def)
  show s: "store fresh_server d k = None" for d k
    by (cases "d = 0"; cases "d = 1") (auto simp: store_def view_def val_def fresh_server_def numeral_2_eq_2 split: option.splits prod.splits)
  show "serving fresh_server" using fresh_server_ok s by (simp add: serving_def plain_def small_store_def) (simp add: fresh_server_def)
  show "available i fresh_server" using fresh_client_ok c [of i] by (simp add: available_def) (simp add: fresh_server_def fresh_client_def)
  show "cur_db fresh_server i = 0" using c by (simp add: fresh_client_def)
qed

theorem server_refines_store_witness:
  "pending (clients (run (requests [(1, Put [107] [49]), (2, Incrby [107] [52]), (1, Get [107])]) fresh_server) 1) = chars ''+OK'' @ crlf @ bulk [53] \<and>
   pending (clients (run (requests [(1, Put [107] [49]), (2, Incrby [107] [52]), (1, Get [107])]) fresh_server) 2) = chars '':5'' @ crlf"
proof -
  let ?es = "[(1, Put [107] [49]), (2, Incrby [107] [52]), (1, Get [107])]"
  have d: "string2ll [49] = Some 1" "string2ll [52] = Some 4" "dec_int 5 = [53]"
    using string2ll_dec_int [of 1] string2ll_dec_int [of 4] by (simp_all add: dec_int_def dec.simps)
  have "snd (spec_run (cur_db fresh_server) ?es (store fresh_server)) = [(1, line ''+OK''), (2, number 5), (1, bulk [53])]"
    by (simp add: fresh_serving d Let_def)
  then show ?thesis using server_refines_store [OF fresh_serving(1), of ?es]
    by (simp add: fresh_serving(2) Let_def split_beta fresh_serving(3) fresh_client_ok replies_to_def line_def number_def d(3))
      (simp add: chars_def)
qed



text \<open>
  C4: A transaction that no watched key has disturbed is executed as one step on the abstract store: EXEC applies the queued commands in order to the database of the client, answers with an array
  of exactly their replies, ends the transaction and does not crash.
\<close>

theorem exec_refines_store:
  assumes "ready i s" "i \<in> set (clients_list s)" "CLIENT_MULTI \<in> flags (clients s i)" "CLIENT_DIRTY_CAS \<notin> flags (clients s i)" "CLIENT_DIRTY_EXEC \<notin> flags (clients s i)"
    and "mstate (clients s i) = map queued cs" "length cs < 2 ^ 63" "\<forall>c \<in> set cs. small c" "small_store (store s (cur_db s i))"
  shows "let t = execCommand (call_with run_proc) i s; d = cur_db s i; (m, bs) = spec_seq cs (store s d) in
    store t = (store s)(d := m) \<and> pending (clients t i) = pending (clients s i) @ 42 # dec (length cs) @ crlf @ bs \<and>
    CLIENT_MULTI \<notin> flags (clients t i) \<and> mstate (clients t i) = [] \<and> \<not> panicked t"
  using exec_does [OF assms] by (simp add: Let_def split_beta progressed_def appended_def plain_def)

definition in_multi :: "client \<Rightarrow> server" where
  "in_multi c = fresh_server\<lparr>clients := (\<lambda>_. fresh_client)(1 := c\<lparr>flags := {CLIENT_MULTI}\<rparr>)\<rparr>"

lemma in_multi_store: "store (in_multi c) = store fresh_server" "clients (in_multi c) 1 = c\<lparr>flags := {CLIENT_MULTI}\<rparr>"
proof -
  have "val (in_multi c) = val fresh_server" by (intro ext) (simp add: val_def in_multi_def)
  then show "store (in_multi c) = store fresh_server" by (intro store_view view_val) (simp_all add: in_multi_def)
qed (simp add: in_multi_def)

lemma in_multi_ready: "ready 1 (in_multi (fresh_client\<lparr>mstate := q\<rparr>))"
proof -
  let ?s = "in_multi (fresh_client\<lparr>mstate := q\<rparr>)"
  have "server_ok ?s" using fresh_server_ok by (auto simp: server_ok_def watch_ok_def in_multi_def fresh_server_def)
  then have "plain ?s" by (simp add: plain_def) (simp add: in_multi_def fresh_server_def)
  moreover have "out_ok (clients ?s 1)" "writable (clients ?s 1)" unfolding in_multi_store
    by (simp_all add: fresh_client_def out_ok_def sent_ok_def writable_def prepareClientToWrite_def clientHasPendingReplies_def)
  ultimately show ?thesis by (simp add: ready_def) (simp add: in_multi_def fresh_server_def fresh_client_def)
qed

theorem exec_refines_store_witness:
  "let t = execCommand (call_with run_proc) 1 (in_multi (fresh_client\<lparr>mstate := map queued [Put [107] [49], Append [107] [50], Get [107]]\<rparr>)) in
    store t 0 [107] = Some (Text [49, 50]) \<and> pending (clients t 1) = chars ''*3'' @ crlf @ line ''+OK'' @ line '':2'' @ bulk [49, 50]"
proof -
  let ?cs = "[Put [107] [49], Append [107] [50], Get [107]]" let ?s = "in_multi (fresh_client\<lparr>mstate := map queued ?cs\<rparr>)"
  have c: "clients ?s 1 = fresh_client\<lparr>mstate := map queued ?cs, flags := {CLIENT_MULTI}\<rparr>" unfolding in_multi_store by simp
  have d: "cur_db ?s 1 = 0" "pending (clients ?s 1) = []" "1 \<in> set (clients_list ?s)" "CLIENT_MULTI \<in> flags (clients ?s 1)" "CLIENT_DIRTY_CAS \<notin> flags (clients ?s 1)"
    "CLIENT_DIRTY_EXEC \<notin> flags (clients ?s 1)" "mstate (clients ?s 1) = map queued ?cs"
    unfolding c by (simp_all add: fresh_client_def pending_def in_multi_def fresh_server_def)
  have n: "number 2 = line '':2''" "dec (Suc (Suc (Suc 0))) = [51]" by (simp_all add: number_def dec_int_def line_def dec.simps chars_def)
  have q: "spec_seq ?cs (store ?s 0) = ((store ?s 0)([107] \<mapsto> Text [49], [107] \<mapsto> Text [49, 50]), line ''+OK'' @ number 2 @ bulk [49, 50])"
    by (simp add: in_multi_store fresh_serving Let_def)
  have "small_store (store ?s (cur_db ?s 1))" by (simp add: small_store_def in_multi_store(1) fresh_serving(4))
  from exec_refines_store [OF in_multi_ready d(3-7) _ _ this] show ?thesis unfolding d(1,2) q Let_def prod.case n by (simp add: n chars_def)
qed

text \<open>
  C2: WATCH: if a watched key has changed since, by whatever requests other clients made (MOVE, SWAPDB and PERSIST apart) and not only because its time to live ran out, then EXEC executes
  nothing: the keyspace stays as it is, the client is answered with the null array, and its transaction is over.
\<close>

theorem watch_detects_change:
  assumes "server_ok s" "i \<in> set (clients_list s)" "\<forall>j. hushed (clients s j) = {}" "(d, k) \<in> watches s i"
    and "\<forall>e \<in> set es. heard i e" "\<not> panicked (run es s)"
    and "val (run es s) d k \<noteq> val s d k" "\<forall>w. snd (val s d k) = Some w \<longrightarrow> mstime (run es s) \<le> w"
    and "CLIENT_MULTI \<in> flags (clients (run es s) i)" "CLIENT_DIRTY_EXEC \<notin> flags (clients (run es s) i)"
    and "out_ok (clients (run es s) i)" "writable (clients (run es s) i)"
  shows "let t = run es s; u = execCommand (call_with run_proc) i t in
    keyspace u = keyspace t \<and> pending (clients u i) = pending (clients t i) @ chars ''*-1'' @ crlf \<and> mstate (clients u i) = [] \<and> CLIENT_MULTI \<notin> flags (clients u i)"
proof -
  let ?t = "run es s" let ?v = "reply_obj i shared_nullmultibulk ?t"
  have "guarded i d k s ?t" by (rule guarded_run) (use assms(1-5) in \<open>simp_all add: guarded_def\<close>)
  then have "is_dirty ?t i" using assms(6-8) by (auto simp: guarded_def) 
  then have e: "execCommand (call_with run_proc) i ?t = discardTransaction i ?v" using assms(9,10) by (simp add: execCommand_def Let_def)
  have "keyspace ?v = keyspace ?t" using sreply_fields(1) [OF sreply_replies(1)] by (simp add: keyspace_def)
  moreover have "pending (clients ?v i) = pending (clients ?t i) @ chars ''*-1'' @ crlf"
    using obj_sink.add_appends [OF assms(11,12), of shared_nullmultibulk "ocfg ?t"] by (simp add: appended_def reply_obj_def upd_client_def shared_txt_def)
  ultimately show ?thesis by (simp add: e discard_effect)
qed

text \<open>A client that watches a key and is inside a transaction, and another one that sets the key.\<close>

definition watching :: server where
  "watching = fresh_server\<lparr>db := [\<lparr>dict = [], expires = [], db_watched_keys = [([107], [1])]\<rparr>, \<lparr>dict = [], expires = [], db_watched_keys = []\<rparr>],
     clients := (\<lambda>_. fresh_client)(1 := fresh_client\<lparr>flags := {CLIENT_MULTI}, watched_keys := [(0, [107])]\<rparr>)\<rparr>"

lemma watching_serves: "serving watching" "available 2 watching" "server_ok watching" "val watching 0 [107] = (None, None)" "cur_db watching 2 = 0"
  "clients watching 1 = fresh_client\<lparr>flags := {CLIENT_MULTI}, watched_keys := [(0, [107])]\<rparr>"
proof -
  show so: "server_ok watching" by (simp add: server_ok_def watch_ok_def db_ok_def watching_def fresh_server_def fresh_client_def)
  have "val watching d k = (None, None)" for d k by (simp add: val_def watching_def nth_Cons split: nat.split)
  then have "store watching d k = None" for d k by (simp add: store_def view_def)
  then show "serving watching" using so by (simp add: serving_def plain_def small_store_def) (simp add: watching_def fresh_server_def)
  show "available 2 watching" using fresh_client_ok by (simp add: available_def watching_def) (simp add: fresh_client_def)
  show "val watching 0 [107] = (None, None)" by fact
qed (simp_all add: watching_def fresh_client_def)

theorem watch_detects_change_witness:
  "let t = run [Request 2 (request (Put [107] [118]))] watching; u = execCommand (call_with run_proc) 1 t in
    keyspace u = keyspace t \<and> pending (clients u 1) = chars ''*-1'' @ crlf"
proof -
  let ?e = "Request 2 (request (Put [107] [118]))" let ?t = "run [?e] watching"
  have t: "?t = step ?e watching" by (simp add: run_def)
  have s: "serving ?t" "served 2 (line ''+OK'') watching ?t" "store ?t 0 [107] = Some (Text [118])"
    using step_serves [OF watching_serves(1,2), of "Put [107] [118]"] unfolding t by (simp_all only: Let_def watching_serves(5)) simp_all
  have v: "val ?t 0 [107] \<noteq> val watching 0 [107]" using s(3) watching_serves(4) by (auto simp: store_def view_def)
  have m: "marked (clients watching 1) (clients ?t 1)" using s(2) by (simp add: served_def others_def)
  note c = marked_client [OF m]
  have w: "out_ok (clients watching 1)" "writable (clients watching 1)" "pending (clients watching 1) = []" unfolding watching_serves(6)
    by (simp_all add: fresh_client_def out_ok_def sent_ok_def pending_def writable_def prepareClientToWrite_def clientHasPendingReplies_def)
  have f: "CLIENT_MULTI \<in> flags (clients ?t 1)" "CLIENT_DIRTY_EXEC \<notin> flags (clients ?t 1)" using m unfolding watching_serves(6) by (auto simp: marked_def)
  have h: "heard 1 ?e" by (simp add: lookupCommand_def redisCommandTable_def command_entry_def chars_def tolower_char_def silent_def unwatching_def)
  have q: "\<forall>j. hushed (clients watching j) = {}" by (simp add: watching_def hushed_def fresh_client_def)
  have "1 \<in> set (clients_list watching)" "(0, [107]) \<in> watches watching 1" by (simp_all add: watching_def fresh_server_def)
  from watch_detects_change [OF watching_serves(3) this(1) q this(2), of "[?e]"] h s(1) v f c w watching_serves(4)
  show ?thesis by (simp add: Let_def serving_def plain_def)
qed

text \<open>
  C11: Typing: a command for strings applied to a key that holds a value of another type answers with the type error, and no client sees any key changed.
\<close>

theorem string_commands_typed:
  assumes "ready i s" "view s (cur_db s i) (cargs s i ! 1) = Some v" "\<forall>x. v \<noteq> OBJ_STRING x" "p \<in> {GetCommand, GetsetCommand, StrlenCommand, AppendCommand, IncrCommand, DecrCommand}"
  shows "let t = run_proc p i s in
    pending (clients t i) = pending (clients s i) @ chars ''-WRONGTYPE Operation against a key holding the wrong kind of value'' @ crlf \<and> view t = view s \<and> \<not> panicked t"
  using string_procs_wrong [OF assms(1-3), of p] assms(4) by (simp add: string_procs_def answered_def appended_def plain_def wrongtype_def line_def)

definition with_list :: server where
  "with_list = fresh_server\<lparr>db := [\<lparr>dict = [([107], OBJ_LIST [[49]])], expires = [], db_watched_keys = []\<rparr>, \<lparr>dict = [], expires = [], db_watched_keys = []\<rparr>],
     clients := (\<lambda>_. fresh_client\<lparr>argv := [chars ''incr'', [107]]\<rparr>)\<rparr>"

theorem string_commands_typed_witness:
  "let t = run_proc IncrCommand 1 with_list in
    pending (clients t 1) = chars ''-WRONGTYPE Operation against a key holding the wrong kind of value'' @ crlf \<and> view t 0 [107] = Some (OBJ_LIST [[49]])"
proof -
  have c: "clients with_list 1 = fresh_client\<lparr>argv := [chars ''incr'', [107]]\<rparr>" by (simp add: with_list_def)
  have d: "cur_db with_list 1 = 0" "cargs with_list 1 ! 1 = [107]" unfolding c by (simp_all add: fresh_client_def)
  have v: "view with_list 0 [107] = Some (OBJ_LIST [[49]])" by (simp add: view_def val_def with_list_def)
  have "server_ok with_list" by (simp add: server_ok_def watch_ok_def db_ok_def with_list_def fresh_server_def fresh_client_def)
  then have "plain with_list" by (simp add: plain_def) (simp add: with_list_def fresh_server_def)
  moreover have o: "out_ok (clients with_list 1)" "writable (clients with_list 1)" "pending (clients with_list 1) = []" unfolding c
    by (simp_all add: fresh_client_def out_ok_def sent_ok_def pending_def writable_def prepareClientToWrite_def clientHasPendingReplies_def)
  ultimately have "ready 1 with_list" unfolding ready_def d(1) by (simp add: with_list_def)
  from string_commands_typed [OF this, unfolded d, OF v, of IncrCommand] show ?thesis unfolding Let_def o(3) v [symmetric] by simp
qed

text \<open>
  C37: MOVE takes a key away from one database and puts it into another without marking any client: a client that watches the key in either database keeps its mark as it was, so its EXEC goes ahead.
\<close>

theorem move_unseen_by_watch:
  assumes "plain s" "cur_db s i < length (db s)" "string2ll (cargs s i ! 2) = Some n" "sint n = int e" "e < length (db s)" "e < 2 ^ 31" "e \<noteq> cur_db s i"
    and "view s (cur_db s i) (cargs s i ! 1) = Some v" "view s e (cargs s i ! 1) = None"
  shows "let t = moveCommand i s; d = cur_db s i; k = cargs s i ! 1 in
    fst (val t d k) = None \<and> fst (val t e k) = Some v \<and> (\<forall>j. (CLIENT_DIRTY_CAS \<in> flags (clients t j)) = (CLIENT_DIRTY_CAS \<in> flags (clients s j)))"
  using move_found [OF assms(1) refl assms(2) _ assms(4-9)] assms(3) by (simp add: getLongLongFromObject_decoded)

text \<open>A client watches the key that another one moves.\<close>

definition moving :: server where
  "moving = fresh_server\<lparr>db := [\<lparr>dict = [([107], OBJ_LIST [[49]])], expires = [], db_watched_keys = [([107], [1])]\<rparr>, \<lparr>dict = [], expires = [], db_watched_keys = []\<rparr>],
     clients := (\<lambda>_. fresh_client)(1 := fresh_client\<lparr>watched_keys := [(0, [107])]\<rparr>, 2 := fresh_client\<lparr>argv := [chars ''move'', [107], [49]]\<rparr>)\<rparr>"

theorem move_unseen_by_watch_witness:
  "fst (val moving 0 [107]) = Some (OBJ_LIST [[49]]) \<and> fst (val (moveCommand 2 moving) 0 [107]) = None \<and> CLIENT_DIRTY_CAS \<notin> flags (clients (moveCommand 2 moving) 1)"
proof -
  have c: "clients moving 2 = fresh_client\<lparr>argv := [chars ''move'', [107], [49]]\<rparr>" "CLIENT_DIRTY_CAS \<notin> flags (clients moving 1)" by (simp_all add: moving_def fresh_client_def)
  have d: "cur_db moving 2 = 0" "cargs moving 2 ! 1 = [107]" "cargs moving 2 ! 2 = [49]" unfolding c by (simp_all add: fresh_client_def)
  have l: "length (db moving) = 2" by (simp add: moving_def)
  have n: "string2ll [49] = Some 1" using string2ll_dec_int [of 1] by (simp add: dec_int_def dec.simps)
  have v: "view moving 0 [107] = Some (OBJ_LIST [[49]])" "view moving 1 [107] = None" "fst (val moving 0 [107]) = Some (OBJ_LIST [[49]])" by (simp_all add: view_def val_def moving_def)
  have "server_ok moving" by (simp add: server_ok_def watch_ok_def db_ok_def moving_def fresh_server_def fresh_client_def)
  then have "plain moving" by (simp add: plain_def) (simp add: moving_def fresh_server_def)
  from move_unseen_by_watch [OF this, of 2, unfolded d l, OF _ n, of 1] v c(2) show ?thesis by (simp add: Let_def)
qed

end
